(* ===== verification/Prelude.thy ===== *)
theory Prelude
  imports Main "HOL-Library.Word"
begin

unbundle bit_operations_syntax

text \<open>
  Shared vocabulary of the development: byte memory with checked accesses, the abnormal outcomes of
  a C function, fixed-width unsigned arithmetic on natural numbers, and the generic facts on lists
  and slices that the component theories use.

  A C function that can abort (a failed \<open>lcb_assert\<close>), touch memory outside an object, or fail to
  return is modelled with result type \<open>'a res\<close>: \<open>Inl\<close> carries the abnormal outcome, \<open>Inr\<close> the
  ordinary result. An ordinary error return of the source (a status code, \<open>-1\<close>, \<open>NULL\<close>) is part of
  the ordinary result.
\<close>

section \<open>Types\<close>

type_synonym byte = "8 word"

datatype fault =
  OutOfBounds | AssertFailed | Nontermination | NullPointer | DivisionByZero | Uninitialized |
  UndefinedShift | UndefinedConversion

type_synonym 'a res = "fault + 'a"

named_theorems unsigned_simps \<open>unsigned arithmetic that does not wrap\<close>
named_theorems mem_simps \<open>checked memory accesses\<close>

section \<open>Abnormal outcomes\<close>

definition res_bind :: "'a res \<Rightarrow> ('a \<Rightarrow> 'b res) \<Rightarrow> 'b res" where
  "res_bind m f = (case m of Inl e \<Rightarrow> Inl e | Inr x \<Rightarrow> f x)"

definition lcb_assert :: "bool \<Rightarrow> 'a res \<Rightarrow> 'a res" where
  "lcb_assert b m = (if b then m else Inl AssertFailed)"

text \<open>
  \<open>runs E m P\<close>: the computation ends in a result that satisfies \<open>P\<close>, or in one of the abnormal outcomes \<open>E\<close>.
  With no outcome allowed it says that the function returns.
\<close>

definition runs :: "fault set \<Rightarrow> 'a res \<Rightarrow> ('a \<Rightarrow> bool) \<Rightarrow> bool" where
  "runs E m P \<longleftrightarrow> (case m of Inl e \<Rightarrow> e \<in> E | Inr x \<Rightarrow> P x)"

section \<open>Byte memory\<close>

text \<open>
  An allocated object is the list of its bytes. \<open>mem_read\<close> and \<open>mem_write\<close> are the two halves of
  \<open>memcpy\<close>: they fault exactly when the range is not inside the object.
\<close>

definition mem_read :: "'a list \<Rightarrow> nat \<Rightarrow> nat \<Rightarrow> 'a list res" where
  "mem_read m off n = (if off + n \<le> length m then Inr (take n (drop off m)) else Inl OutOfBounds)"

definition mem_write :: "'a list \<Rightarrow> nat \<Rightarrow> 'a list \<Rightarrow> 'a list res" where
  "mem_write m off bs =
     (if off + length bs \<le> length m then Inr (take off m @ bs @ drop (off + length bs) m)
      else Inl OutOfBounds)"

definition mem_get :: "'a list \<Rightarrow> nat \<Rightarrow> 'a res" where
  "mem_get m i = (if i < length m then Inr (m ! i) else Inl OutOfBounds)"

definition mem_set :: "'a list \<Rightarrow> nat \<Rightarrow> 'a \<Rightarrow> 'a list res" where
  "mem_set m i x = (if i < length m then Inr (m[i := x]) else Inl OutOfBounds)"

section \<open>The allocator of the C library\<close>

text \<open>
  \<open>malloc\<close> either fails or returns a block of the requested size whose contents are arbitrary. It
  is an argument of the functions that call it.
\<close>

type_synonym c_malloc = "nat \<Rightarrow> byte list option"

definition malloc_ok :: "c_malloc \<Rightarrow> bool" where
  "malloc_ok malloc \<longleftrightarrow> (\<forall>n m. malloc n = Some m \<longrightarrow> length m = n)"

definition zero_malloc :: c_malloc where
  "zero_malloc n = Some (replicate n 0)"

definition calloc_ok :: "c_malloc \<Rightarrow> bool" where
  "calloc_ok calloc \<longleftrightarrow> (\<forall>n m. calloc n = Some m \<longrightarrow> m = replicate n 0)"

section \<open>C strings\<close>

text \<open>\<open>c_strlen\<close> faults on an object without a terminator; \<open>c_isspace\<close> is \<open>isspace\<close> in the C locale.\<close>

fun c_strlen :: "byte list \<Rightarrow> nat res" where
  "c_strlen [] = Inl OutOfBounds"
| "c_strlen (c # s) = (if c = 0 then Inr 0 else res_bind (c_strlen s) (\<lambda>n. Inr (Suc n)))"

definition c8 :: "char \<Rightarrow> byte" where
  "c8 c = of_char c"

definition c_isspace :: "byte \<Rightarrow> bool" where
  "c_isspace c \<longleftrightarrow> c = 32 \<or> 9 \<le> c \<and> c \<le> 13"

definition c_isdigit :: "byte \<Rightarrow> bool" where
  "c_isdigit c \<longleftrightarrow> c8 CHR ''0'' \<le> c \<and> c \<le> c8 CHR ''9''"

definition c_isalpha :: "byte \<Rightarrow> bool" where
  "c_isalpha c \<longleftrightarrow> c8 CHR ''A'' \<le> c \<and> c \<le> c8 CHR ''Z'' \<or> c8 CHR ''a'' \<le> c \<and> c \<le> c8 CHR ''z''"

definition c_isxdigit :: "byte \<Rightarrow> bool" where
  "c_isxdigit c \<longleftrightarrow> c_isdigit c \<or> c8 CHR ''A'' \<le> c \<and> c \<le> c8 CHR ''F'' \<or>
     c8 CHR ''a'' \<le> c \<and> c \<le> c8 CHR ''f''"

section \<open>Unsigned machine arithmetic on natural numbers\<close>

text \<open>
  A field of an unsigned C type of width \<open>w\<close> is a \<open>nat\<close> below \<open>2 ^ w\<close>; the operators wrap.
\<close>

definition uadd :: "nat \<Rightarrow> nat \<Rightarrow> nat \<Rightarrow> nat" where
  "uadd w a b = (a + b) mod 2 ^ w"

definition usub :: "nat \<Rightarrow> nat \<Rightarrow> nat \<Rightarrow> nat" where
  "usub w a b = (a + (2 ^ w - b mod 2 ^ w)) mod 2 ^ w"

definition umul :: "nat \<Rightarrow> nat \<Rightarrow> nat \<Rightarrow> nat" where
  "umul w a b = (a * b) mod 2 ^ w"

text \<open>The conversion of an unsigned value to \<open>int\<close>: the value modulo \<open>2 ^ 32\<close> in two's complement.\<close>

definition to_int :: "nat \<Rightarrow> int" where
  "to_int n = (if n mod 2 ^ 32 < 2 ^ 31 then int (n mod 2 ^ 32) else int (n mod 2 ^ 32) - 2 ^ 32)"


section \<open>Facts\<close>

lemma res_bind_simps [simp]:
  "res_bind (Inl e) f = Inl e"
  "res_bind (Inr x) f = f x"
  by (simp_all add: res_bind_def)

lemma res_bind_eq_Inr:
  "res_bind m f = Inr y \<longleftrightarrow> (\<exists>x. m = Inr x \<and> f x = Inr y)"
  by (cases m) (auto simp: res_bind_def)

lemma res_bind_InrE:
  assumes "res_bind m f = Inr y"
  obtains x where "m = Inr x" and "f x = Inr y"
  using assms by (auto simp: res_bind_eq_Inr)

lemma lcb_assert_simps [simp]:
  "lcb_assert True m = m"
  "lcb_assert False m = Inl AssertFailed"
  by (simp_all add: lcb_assert_def)

lemma lcb_assert_eq_Inr: "lcb_assert b m = Inr y \<longleftrightarrow> b \<and> m = Inr y"
  by (simp add: lcb_assert_def)

lemma runs_simps [simp]:
  "runs E (Inr x) P \<longleftrightarrow> P x"
  "runs E (Inl e) P \<longleftrightarrow> e \<in> E"
  by (simp_all add: runs_def)

lemma runs_bind: "runs E m P \<Longrightarrow> (\<And>x. P x \<Longrightarrow> runs E (f x) Q) \<Longrightarrow> runs E (res_bind m f) Q"
  by (cases m) simp_all

lemma runs_mono: "runs E m P \<Longrightarrow> (\<And>x. P x \<Longrightarrow> Q x) \<Longrightarrow> runs E m Q"
  by (cases m) simp_all

lemma runs_any: "runs {} m P \<Longrightarrow> runs E m P"
  unfolding runs_def by (cases m) auto

lemma runs_total: "runs {} m P \<longleftrightarrow> (\<exists>x. m = Inr x \<and> P x)"
  by (cases m) simp_all

lemma runs_result: "runs E m P \<Longrightarrow> m = Inr x \<Longrightarrow> P x"
  by simp

lemma uadd_nowrap [unsigned_simps]: "a + b < 2 ^ w \<Longrightarrow> uadd w a b = a + b"
  by (simp add: uadd_def)

lemma usub_nowrap [unsigned_simps]: "b \<le> a \<Longrightarrow> a < 2 ^ w \<Longrightarrow> usub w a b = a - b"
proof -
  assume ba: "b \<le> a" and a: "a < 2 ^ w"
  then have "b mod 2 ^ w = b" by simp
  moreover have eq: "a + (2 ^ w - b) = (a - b) + 2 ^ w" using ba a by simp
  ultimately have "usub w a b = ((a - b) + 2 ^ w) mod 2 ^ w" by (simp only: usub_def)
  then show ?thesis using a by simp
qed

lemma umul_nowrap [unsigned_simps]: "a * b < 2 ^ w \<Longrightarrow> umul w a b = a * b"
  by (simp add: umul_def)

lemma to_int_small [unsigned_simps]: "n < 2 ^ 31 \<Longrightarrow> to_int n = int n"
  by (simp add: to_int_def)

lemma unsigned_bounds [simp]: "uadd w a b < 2 ^ w" "usub w a b < 2 ^ w" "umul w a b < 2 ^ w"
  by (simp_all add: uadd_def usub_def umul_def)

lemma mem_read_ok [mem_simps]: "off + n \<le> length m \<Longrightarrow> mem_read m off n = Inr (take n (drop off m))"
  by (simp add: mem_read_def)

lemma mem_write_ok [mem_simps]:
  "off + length bs \<le> length m \<Longrightarrow>
   mem_write m off bs = Inr (take off m @ bs @ drop (off + length bs) m)"
  by (simp add: mem_write_def)

lemma mem_write_length: "mem_write m off bs = Inr m' \<Longrightarrow> length m' = length m"
  by (auto simp: mem_write_def split: if_splits)

lemma zero_malloc_ok [simp]: "malloc_ok zero_malloc"
  by (simp add: malloc_ok_def zero_malloc_def)

lemma zero_calloc_ok [simp]: "calloc_ok zero_malloc"
  by (simp add: calloc_ok_def zero_malloc_def)

lemma calloc_okD: "calloc_ok calloc \<Longrightarrow> calloc n = Some m \<Longrightarrow> m = replicate n 0"
  by (simp add: calloc_ok_def)

text \<open>Gluing bit fields together is addition when the fields do not overlap.\<close>

lemma or_push_bit: "(n::nat) < 2 ^ k \<Longrightarrow> push_bit k m OR n = 2 ^ k * m + n"
proof -
  assume "n < 2 ^ k"
  then have "take_bit k n = n" by (simp add: take_bit_nat_eq_self)
  then have "bit n i \<Longrightarrow> i < k" for i by (metis bit_take_bit_iff)
  then have "push_bit k m + n = push_bit k m OR n"
    by (intro disjunctive_add) (meson bit_push_bit_iff_nat leD)
  then show ?thesis by (simp add: push_bit_eq_mult mult.commute)
qed

lemma unat_push_ucast:
  fixes a :: byte
  assumes "k \<le> 24"
  shows "unat (push_bit k (ucast a) :: 32 word) = push_bit k (unat a)"
proof -
  have "unat a < 2 ^ 8" using unsigned_less [of a] by simp
  moreover have "(2::nat) ^ k \<le> 2 ^ 24" using assms by (intro power_increasing) auto
  ultimately have "unat a * 2 ^ k < 2 ^ 8 * 2 ^ 24" by (intro mult_less_le_imp_less) auto
  moreover have "unat a mod 2 ^ 32 = unat a" using \<open>unat a < 2 ^ 8\<close> by simp
  ultimately show ?thesis
    by (simp only: unsigned_push_bit_eq) (simp add: unsigned_ucast_eq push_bit_eq_mult take_bit_eq_mod)
qed

lemma unat_byte_less: "unat (a::byte) < 256"
  using unsigned_less [of a] by simp

lemma c_strlen_terminated: "0 \<notin> set s \<Longrightarrow> c_strlen (s @ 0 # t) = Inr (length s)"
  by (induction s) auto

lemma malloc_okD: "malloc_ok malloc \<Longrightarrow> malloc n = Some m \<Longrightarrow> length m = n"
  by (simp add: malloc_ok_def)

lemma nth_take_drop: "i < n \<Longrightarrow> off + n \<le> length xs \<Longrightarrow> take n (drop off xs) ! i = xs ! (off + i)"
  by simp

text \<open>Pointwise reading of a list that was patched at an offset.\<close>

lemma nth_patch:
  assumes "off + length bs \<le> length m" and "i < length m"
  shows "(take off m @ bs @ drop (off + length bs) m) ! i =
    (if off \<le> i \<and> i < off + length bs then bs ! (i - off) else m ! i)"
proof (cases "i < off")
  case True
  then show ?thesis using assms by (simp add: nth_append)
next
  case False
  then show ?thesis
    using assms less_diff_conv2 [of off i "length bs"]
    by (cases "i < off + length bs") (simp_all add: nth_append add.commute)
qed

lemma drop_three:
  assumes "i + 3 \<le> length s"
  shows "drop i s = s ! i # s ! (i + 1) # s ! (i + 2) # drop (i + 3) s"
proof -
  have "drop i s = s ! i # drop (Suc i) s" "drop (Suc i) s = s ! Suc i # drop (Suc (Suc i)) s"
    "drop (Suc (Suc i)) s = s ! Suc (Suc i) # drop (Suc (Suc (Suc i))) s"
    using assms by (simp_all add: Cons_nth_drop_Suc)
  then show ?thesis by (simp add: numeral_3_eq_3)
qed

end
