(* ===== verification/Byte_Queue.thy ===== *)
theory Byte_Queue
  imports Prelude
begin

text \<open>
  The contract of a bounded byte queue and what its clients may rely on. A client drives the queue
  with a sequence of appends and reads; the abstract queue is a byte list. The buffer of
  \<open>src/ringbuffer.c\<close> provides the contract.
\<close>

section \<open>The abstract queue\<close>

datatype queue_op = Put "byte list" | Get nat

text \<open>
  The abstract run: \<open>None\<close> as soon as bytes are appended to a queue that is already full. Each
  operation contributes an output, the bytes read or, for an append, the number of bytes taken.
\<close>

fun fifo_run :: "nat \<Rightarrow> byte list \<Rightarrow> queue_op list \<Rightarrow> (byte list \<times> (nat + byte list) list) option" where
  "fifo_run cap xs [] = Some (xs, [])"
| "fifo_run cap xs (Put s # ops) =
     (if cap \<le> length xs \<and> s \<noteq> [] then None
      else case fifo_run cap (xs @ take (cap - length xs) s) ops of
        None \<Rightarrow> None
      | Some (ys, outs) \<Rightarrow> Some (ys, Inl (min (length s) (cap - length xs)) # outs))"
| "fifo_run cap xs (Get n # ops) =
     (case fifo_run cap (drop n xs) ops of
        None \<Rightarrow> None
      | Some (ys, outs) \<Rightarrow> Some (ys, Inr (take n xs) # outs))"

text \<open>The same sequence run on a concrete queue; a fault of an operation is the fault of the run.\<close>

fun queue_run ::
  "('q \<Rightarrow> byte list \<Rightarrow> ('q \<times> nat) res) \<Rightarrow> ('q \<Rightarrow> nat \<Rightarrow> ('q \<times> byte list) res) \<Rightarrow>
   'q \<Rightarrow> queue_op list \<Rightarrow> ('q \<times> (nat + byte list) list) res" where
  "queue_run put get q [] = Inr (q, [])"
| "queue_run put get q (Put s # ops) =
     res_bind (put q s) (\<lambda>(q1, n).
     res_bind (queue_run put get q1 ops) (\<lambda>(q2, outs). Inr (q2, Inl n # outs)))"
| "queue_run put get q (Get n # ops) =
     res_bind (get q n) (\<lambda>(q1, bs).
     res_bind (queue_run put get q1 ops) (\<lambda>(q2, outs). Inr (q2, Inr bs # outs)))"

section \<open>The contract\<close>

locale byte_queue =
  fixes inv :: "'q \<Rightarrow> bool"
    and contents :: "'q \<Rightarrow> byte list"
    and capacity :: "'q \<Rightarrow> nat"
    and put :: "'q \<Rightarrow> byte list \<Rightarrow> ('q \<times> nat) res"
    and get :: "'q \<Rightarrow> nat \<Rightarrow> ('q \<times> byte list) res"
  assumes put_law:
      "inv q \<Longrightarrow> length (contents q) < capacity q \<or> s = [] \<Longrightarrow>
       \<exists>q'. put q s = Inr (q', min (length s) (capacity q - length (contents q))) \<and> inv q' \<and>
         contents q' = contents q @ take (capacity q - length (contents q)) s \<and>
         capacity q' = capacity q"
    and get_law:
      "inv q \<Longrightarrow>
       \<exists>q'. get q n = Inr (q', take n (contents q)) \<and> inv q' \<and> contents q' = drop n (contents q) \<and>
         capacity q' = capacity q"
    and bounded: "inv q \<Longrightarrow> length (contents q) \<le> capacity q"
begin

text \<open>Every run that never appends to a full queue is fault free and agrees with the byte list.\<close>

lemma run_refines:
  assumes "inv q" and "fifo_run (capacity q) (contents q) ops = Some (xs, outs)"
  shows "\<exists>q'. queue_run put get q ops = Inr (q', outs) \<and> inv q' \<and> contents q' = xs \<and>
    capacity q' = capacity q"
  using assms
proof (induction ops arbitrary: q xs outs)
  case Nil
  then show ?case by simp
next
  case (Cons op ops)
  show ?case
  proof (cases op)
    case (Put s)
    with Cons.prems(2) have room: "length (contents q) < capacity q \<or> s = []"
      by (auto split: if_splits)
    obtain q1 where q1: "put q s = Inr (q1, min (length s) (capacity q - length (contents q)))" "inv q1"
        "contents q1 = contents q @ take (capacity q - length (contents q)) s" "capacity q1 = capacity q"
      using put_law [OF Cons.prems(1) room] by blast
    obtain outs1 where "fifo_run (capacity q1) (contents q1) ops = Some (xs, outs1)"
        "outs = Inl (min (length s) (capacity q - length (contents q))) # outs1"
      using Cons.prems(2) room q1(3,4) by (auto simp: Put split: if_splits option.splits)
    with Cons.IH [OF q1(2)] q1 show ?thesis by (force simp: Put)
  next
    case (Get n)
    obtain q1 where q1: "get q n = Inr (q1, take n (contents q))" "inv q1"
        "contents q1 = drop n (contents q)" "capacity q1 = capacity q"
      using get_law [OF Cons.prems(1)] by blast
    obtain outs1 where "fifo_run (capacity q1) (contents q1) ops = Some (xs, outs1)"
        "outs = Inr (take n (contents q)) # outs1"
      using Cons.prems(2) q1(3,4) by (auto simp: Get split: option.splits)
    with Cons.IH [OF q1(2)] q1 show ?thesis by (force simp: Get)
  qed
qed

text \<open>What fits can be written and read back unchanged, behind everything that was there before.\<close>

lemma put_get:
  assumes "inv q" and "s \<noteq> []" and "length (contents q) + length s \<le> capacity q"
  shows "\<exists>q1 q2. put q s = Inr (q1, length s) \<and>
    get q1 (length (contents q) + length s) = Inr (q2, contents q @ s) \<and> inv q2 \<and> contents q2 = []"
proof -
  have room: "length (contents q) < capacity q \<or> s = []" using assms(2,3) by (cases s) auto
  have "length s \<le> capacity q - length (contents q)" using assms(3) by simp
  then obtain q1 where q1: "put q s = Inr (q1, length s)" "inv q1" "contents q1 = contents q @ s"
    using put_law [OF assms(1) room] by (auto simp: min_absorb1)
  obtain q2 where "get q1 (length (contents q) + length s) = Inr (q2, contents q @ s)" "inv q2" "contents q2 = []"
    using get_law [OF q1(2), of "length (contents q) + length s"] q1(3) by auto
  with q1(1) show ?thesis by blast
qed

end

end
