(* ===== verification/Ringbuffer.thy ===== *)
theory Ringbuffer
  imports Byte_Queue
begin

text \<open>
  The circular byte buffer of \<open>src/ringbuffer.c\<close>. The three pointers \<open>root\<close>, \<open>read_head\<close> and
  \<open>write_head\<close> of \<open>ringbuffer_t\<close> become the bytes of the allocated block and two offsets into it;
  \<open>lcb_size_t\<close> arithmetic wraps at 64 bits. The component's contract is the byte queue of the last
  section: a ring buffer in a well-formed state stands for the list of its unread bytes.
\<close>

section \<open>State\<close>

record ringbuffer_t =
  rb_root :: "byte list"
  read_head :: nat
  write_head :: nat
  rb_size :: nat
  rb_nbytes :: nat

datatype ringbuffer_direction_t = RINGBUFFER_READ | RINGBUFFER_WRITE

definition minimum :: "nat \<Rightarrow> nat \<Rightarrow> nat" where
  "minimum a b = (if a < b then a else b)"

section \<open>Operations\<close>

definition ringbuffer_take_buffer :: "byte list \<Rightarrow> nat \<Rightarrow> ringbuffer_t" where
  "ringbuffer_take_buffer buf sz =
     \<lparr>rb_root = buf, read_head = 0, write_head = 0, rb_size = sz, rb_nbytes = 0\<rparr>"

definition ringbuffer_initialize :: "c_malloc \<Rightarrow> nat \<Rightarrow> ringbuffer_t option" where
  "ringbuffer_initialize malloc sz =
     (case malloc sz of None \<Rightarrow> None | Some root \<Rightarrow> Some (ringbuffer_take_buffer root sz))"

definition ringbuffer_destruct :: "ringbuffer_t \<Rightarrow> ringbuffer_t" where
  "ringbuffer_destruct b =
     b\<lparr>rb_root := [], read_head := 0, write_head := 0, rb_size := 0, rb_nbytes := 0\<rparr>"

definition ringbuffer_get_nbytes :: "ringbuffer_t \<Rightarrow> nat" where
  "ringbuffer_get_nbytes b = rb_nbytes b"

definition ringbuffer_get_size :: "ringbuffer_t \<Rightarrow> nat" where
  "ringbuffer_get_size b = rb_size b"

text \<open>
  One contiguous copy into the buffer: the body that both halves of \<open>ringbuffer_write\<close> share.
  \<open>src = None\<close> is the null source with which \<open>ringbuffer_produced\<close> only moves the write head.
\<close>

definition rb_write_chunk :: "ringbuffer_t \<Rightarrow> byte list option \<Rightarrow> nat \<Rightarrow> nat \<Rightarrow> ringbuffer_t res" where
  "rb_write_chunk b src soff toWrite =
     res_bind
       (case src of
          None \<Rightarrow> Inr (rb_root b)
        | Some s \<Rightarrow> res_bind (mem_read s soff toWrite) (mem_write (rb_root b) (write_head b)))
       (\<lambda>m. let wh = write_head b + toWrite in
         Inr (b\<lparr>rb_root := m,
                rb_nbytes := uadd 64 (rb_nbytes b) toWrite,
                write_head := (if wh = rb_size b then 0 else wh)\<rparr>))"

definition rb_write_rest ::
  "ringbuffer_t \<Rightarrow> byte list option \<Rightarrow> nat \<Rightarrow> nat \<Rightarrow> (ringbuffer_t \<times> nat) res" where
  "rb_write_rest b src nw nb =
     (let toWrite = minimum (usub 64 (read_head b) (write_head b)) nb in
      res_bind (rb_write_chunk b src nw toWrite) (\<lambda>b1. Inr (b1, nw + toWrite)))"

definition ringbuffer_write ::
  "ringbuffer_t \<Rightarrow> byte list option \<Rightarrow> nat \<Rightarrow> (ringbuffer_t \<times> nat) res" where
  "ringbuffer_write b src nb =
     (if read_head b \<le> write_head b then
        let toWrite = minimum (usub 64 (rb_size b) (write_head b)) nb in
        res_bind (rb_write_chunk b src 0 toWrite) (\<lambda>b1.
          if toWrite = nb then Inr (b1, toWrite)
          else rb_write_rest b1 src toWrite (nb - toWrite))
      else rb_write_rest b src 0 nb)"

definition maybe_reset :: "ringbuffer_t \<Rightarrow> ringbuffer_t" where
  "maybe_reset b = (if rb_nbytes b = 0 then b\<lparr>write_head := 0, read_head := 0\<rparr> else b)"

text \<open>
  One contiguous copy out of the buffer. \<open>dest\<close> tells whether the destination is not null; the
  bytes copied to it are returned.
\<close>

definition rb_read_chunk :: "ringbuffer_t \<Rightarrow> bool \<Rightarrow> nat \<Rightarrow> (ringbuffer_t \<times> byte list) res" where
  "rb_read_chunk b dest toRead =
     res_bind
       (if dest then mem_read (rb_root b) (read_head b) toRead else Inr [])
       (\<lambda>bytes. let rh = read_head b + toRead in
         Inr (b\<lparr>rb_nbytes := usub 64 (rb_nbytes b) toRead,
                read_head := (if rh = rb_size b then 0 else rh)\<rparr>, bytes))"

definition rb_read_rest ::
  "ringbuffer_t \<Rightarrow> bool \<Rightarrow> byte list \<Rightarrow> nat \<Rightarrow> nat \<Rightarrow> (ringbuffer_t \<times> byte list \<times> nat) res" where
  "rb_read_rest b dest d nr nb =
     (let toRead = minimum (usub 64 (write_head b) (read_head b)) nb in
      res_bind (rb_read_chunk b dest toRead) (\<lambda>(b1, bytes).
        Inr (maybe_reset b1, d @ bytes, nr + toRead)))"

definition ringbuffer_read ::
  "ringbuffer_t \<Rightarrow> bool \<Rightarrow> nat \<Rightarrow> (ringbuffer_t \<times> byte list \<times> nat) res" where
  "ringbuffer_read b dest nb =
     (if rb_nbytes b = 0 then Inr (b, [], 0)
      else if write_head b \<le> read_head b then
        let toRead = minimum (usub 64 (rb_size b) (read_head b)) nb in
        res_bind (rb_read_chunk b dest toRead) (\<lambda>(b1, bytes).
          if toRead = nb then Inr (maybe_reset b1, bytes, toRead)
          else rb_read_rest b1 dest bytes toRead (nb - toRead))
      else rb_read_rest b dest [] 0 nb)"

definition ringbuffer_peek :: "ringbuffer_t \<Rightarrow> bool \<Rightarrow> nat \<Rightarrow> (byte list \<times> nat) res" where
  "ringbuffer_peek b dest nb = res_bind (ringbuffer_read b dest nb) (\<lambda>(_, bytes, n). Inr (bytes, n))"

definition ringbuffer_peek_at :: "ringbuffer_t \<Rightarrow> nat \<Rightarrow> bool \<Rightarrow> nat \<Rightarrow> (byte list \<times> nat) res" where
  "ringbuffer_peek_at b offset dest nb =
     res_bind (ringbuffer_read b False offset) (\<lambda>(copy, _, n).
       if n \<noteq> offset then Inr ([], 2 ^ 64 - 1)
       else res_bind (ringbuffer_read copy dest nb) (\<lambda>(_, bytes, n'). Inr (bytes, n')))"

definition ringbuffer_produced :: "ringbuffer_t \<Rightarrow> nat \<Rightarrow> ringbuffer_t res" where
  "ringbuffer_produced b nb =
     res_bind (ringbuffer_write b None nb) (\<lambda>(b1, n). lcb_assert (n = nb) (Inr b1))"

definition ringbuffer_consumed :: "ringbuffer_t \<Rightarrow> nat \<Rightarrow> ringbuffer_t res" where
  "ringbuffer_consumed b nb =
     res_bind (ringbuffer_read b False nb) (\<lambda>(b1, _, n). lcb_assert (n = nb) (Inr b1))"

definition ringbuffer_reset :: "ringbuffer_t \<Rightarrow> ringbuffer_t res" where
  "ringbuffer_reset b = ringbuffer_consumed b (ringbuffer_get_nbytes b)"

text \<open>The doubling loop of \<open>ringbuffer_ensure_capacity\<close>; \<open>None\<close> is a run that never leaves it.\<close>

partial_function (option) rb_grow :: "nat \<Rightarrow> nat \<Rightarrow> nat \<Rightarrow> nat option" where
  "rb_grow nbytes sz new_size =
     (if usub 64 new_size nbytes < sz then rb_grow nbytes sz (umul 64 new_size 2)
      else Some new_size)"

definition ringbuffer_ensure_capacity ::
  "c_malloc \<Rightarrow> ringbuffer_t \<Rightarrow> nat \<Rightarrow> (ringbuffer_t \<times> bool) res" where
  "ringbuffer_ensure_capacity malloc b sz =
     (let dbl = umul 64 (rb_size b) 2; new_size = (if dbl = 0 then 128 else dbl) in
      if sz < usub 64 (rb_size b) (rb_nbytes b) then Inr (b, True)
      else case rb_grow (rb_nbytes b) sz new_size of
        None \<Rightarrow> Inl Nontermination
      | Some new_size \<Rightarrow>
          (case malloc new_size of
             None \<Rightarrow> Inr (b, False)
           | Some new_root \<Rightarrow>
               res_bind (ringbuffer_read b True (rb_nbytes b)) (\<lambda>(b1, bytes, nr).
               res_bind (mem_write new_root 0 bytes) (\<lambda>root.
               lcb_assert (nr = rb_nbytes b)
                 (Inr (b1\<lparr>rb_size := new_size, rb_root := root, rb_nbytes := rb_nbytes b,
                          read_head := 0, write_head := rb_nbytes b\<rparr>, True))))))"

definition ringbuffer_strcat :: "c_malloc \<Rightarrow> ringbuffer_t \<Rightarrow> byte list \<Rightarrow> (ringbuffer_t \<times> nat) res" where
  "ringbuffer_strcat malloc b str =
     res_bind (ringbuffer_ensure_capacity malloc b (length str)) (\<lambda>(b1, ok).
       if \<not> ok then Inr (b1, 0) else ringbuffer_write b1 (Some str) (length str))"

definition ringbuffer_update ::
  "ringbuffer_t \<Rightarrow> ringbuffer_direction_t \<Rightarrow> byte list \<Rightarrow> nat \<Rightarrow> (ringbuffer_t \<times> nat) res" where
  "ringbuffer_update b direction s nb =
     (case direction of
        RINGBUFFER_READ \<Rightarrow>
          if read_head b \<le> write_head b then
            let nw = minimum nb (rb_nbytes b) in
            res_bind (mem_read s 0 nw) (\<lambda>bs.
            res_bind (mem_write (rb_root b) (read_head b) bs) (\<lambda>m.
              Inr (b\<lparr>rb_root := m\<rparr>, nw)))
          else
            let nw = minimum nb (usub 64 (rb_size b) (read_head b)) in
            res_bind (mem_read s 0 nw) (\<lambda>bs.
            res_bind (mem_write (rb_root b) (read_head b) bs) (\<lambda>m.
            let nb' = nb - nw in
              if nb' \<noteq> 0 then
                let nw' = minimum nb' (write_head b) in
                res_bind (mem_read s nw nw') (\<lambda>bs'.
                res_bind (mem_write m 0 bs') (\<lambda>m'. Inr (b\<lparr>rb_root := m'\<rparr>, nw + nw')))
              else Inr (b\<lparr>rb_root := m\<rparr>, nw)))
      | RINGBUFFER_WRITE \<Rightarrow>
          if read_head b \<le> write_head b then
            let nw = minimum nb (rb_nbytes b) in
            if write_head b < nw then Inl OutOfBounds
            else res_bind (mem_read s 0 nw) (\<lambda>bs.
                 res_bind (mem_write (rb_root b) (write_head b - nw) bs) (\<lambda>m.
                   Inr (b\<lparr>rb_root := m\<rparr>, nw)))
          else
            let nb = minimum nb (rb_nbytes b); nw = minimum nb (write_head b) in
            res_bind (mem_read s (nb - nw) nw) (\<lambda>bs.
            res_bind (mem_write (rb_root b) (write_head b - nw) bs) (\<lambda>m.
            let nb' = nb - nw in
              if nb' \<noteq> 0 then
                let nw' = minimum nb' (usub 64 (rb_size b) (read_head b)) in
                res_bind (mem_read s 0 nw') (\<lambda>bs'.
                res_bind (mem_write m (rb_size b - nw') bs') (\<lambda>m'.
                  Inr (b\<lparr>rb_root := m'\<rparr>, nw + nw')))
              else Inr (b\<lparr>rb_root := m\<rparr>, nw))))"

text \<open>\<open>ringbuffer_get_iov\<close> fills two vectors; each is a pair of an offset from \<open>root\<close> and a length.\<close>

definition ringbuffer_get_iov ::
  "ringbuffer_t \<Rightarrow> ringbuffer_direction_t \<Rightarrow> (nat \<times> nat) \<times> (nat \<times> nat)" where
  "ringbuffer_get_iov b direction =
     (case direction of
        RINGBUFFER_READ \<Rightarrow>
          if write_head b \<le> read_head b then
            let chunk = rb_size b - read_head b in
            if chunk < rb_nbytes b then ((read_head b, chunk), (0, usub 64 (rb_nbytes b) chunk))
            else ((read_head b, rb_nbytes b), (0, 0))
          else ((read_head b, rb_nbytes b), (0, 0))
      | RINGBUFFER_WRITE \<Rightarrow>
          if read_head b \<le> write_head b then
            ((write_head b, rb_size b - write_head b), (0, read_head b))
          else ((write_head b, usub 64 (rb_size b) (rb_nbytes b)), (0, 0)))"

definition ringbuffer_is_continous ::
  "ringbuffer_t \<Rightarrow> ringbuffer_direction_t \<Rightarrow> nat \<Rightarrow> bool" where
  "ringbuffer_is_continous b direction nb =
     (case direction of
        RINGBUFFER_READ \<Rightarrow>
          (if write_head b \<le> read_head b \<and> rb_size b - read_head b < nb then False
           else nb \<le> rb_nbytes b)
      | RINGBUFFER_WRITE \<Rightarrow>
          (if read_head b \<le> write_head b \<and> rb_size b - write_head b < nb then False
           else nb \<le> usub 64 (rb_size b) (rb_nbytes b)))"

text \<open>
  The copy loop of \<open>ringbuffer_append\<close>, with fuel: every round that does not stop consumes at least
  one byte of the source, so one more unit than its byte count is enough.
\<close>

fun rb_append_loop ::
  "c_malloc \<Rightarrow> nat \<Rightarrow> ringbuffer_t \<Rightarrow> ringbuffer_t \<Rightarrow> (ringbuffer_t \<times> ringbuffer_t) res" where
  "rb_append_loop malloc 0 src dest = Inl Nontermination"
| "rb_append_loop malloc (Suc fuel) src dest =
     res_bind (ringbuffer_read src True 1024) (\<lambda>(src1, buffer, nr).
       if nr = 0 then Inr (src1, dest)
       else res_bind (ringbuffer_ensure_capacity malloc dest nr) (\<lambda>(dest1, ok).
            lcb_assert ok
              (res_bind (ringbuffer_write dest1 (Some buffer) nr) (\<lambda>(dest2, nw).
               lcb_assert (nw = nr) (rb_append_loop malloc fuel src1 dest2)))))"

definition ringbuffer_append ::
  "c_malloc \<Rightarrow> ringbuffer_t \<Rightarrow> ringbuffer_t \<Rightarrow> (ringbuffer_t \<times> ringbuffer_t) res" where
  "ringbuffer_append malloc src dest = rb_append_loop malloc (Suc (rb_nbytes src)) src dest"

text \<open>
  The \<open>do ... while\<close> loop of \<open>ringbuffer_memcpy\<close> walks the two vectors of the destination; running
  past them is the failing assertion \<open>ii < 2\<close>.
\<close>

fun rb_memcpy_loop ::
  "(nat \<times> nat) list \<Rightarrow> ringbuffer_t \<Rightarrow> byte list \<Rightarrow> nat \<Rightarrow> nat \<Rightarrow> byte list res" where
  "rb_memcpy_loop [] copy m toread towrite = Inl AssertFailed"
| "rb_memcpy_loop ((base, len) # iov) copy m toread towrite =
     res_bind (ringbuffer_read copy True toread) (\<lambda>(copy1, bytes, nb).
     res_bind (mem_write m base bytes) (\<lambda>m1.
       let toread' = usub 64 toread nb; towrite' = usub 64 towrite nb in
       if 0 < towrite' then rb_memcpy_loop iov copy1 m1 toread' towrite' else Inr m1))"

definition ringbuffer_memcpy ::
  "c_malloc \<Rightarrow> ringbuffer_t \<Rightarrow> ringbuffer_t \<Rightarrow> nat \<Rightarrow> (ringbuffer_t \<times> int) res" where
  "ringbuffer_memcpy malloc dst src nbytes =
     (if ringbuffer_get_nbytes src < nbytes then Inr (dst, -1)
      else res_bind (ringbuffer_ensure_capacity malloc dst nbytes) (\<lambda>(dst1, ok).
        if \<not> ok then Inr (dst1, -1)
        else
          let (iov0, iov1) = ringbuffer_get_iov dst1 RINGBUFFER_WRITE;
              toread = minimum (snd iov0) nbytes in
          res_bind (rb_memcpy_loop [iov0, iov1] src (rb_root dst1) toread nbytes) (\<lambda>m.
          res_bind (ringbuffer_produced (dst1\<lparr>rb_root := m\<rparr>) nbytes) (\<lambda>dst2. Inr (dst2, 0)))))"

text \<open>
  \<open>ringbuffer_ensure_alignment\<close> does something only on platforms with strict alignment
  (\<open>strict\<close>); \<open>base\<close> is the address of \<open>root\<close>.
\<close>

definition ringbuffer_ensure_alignment ::
  "c_malloc \<Rightarrow> bool \<Rightarrow> nat \<Rightarrow> ringbuffer_t \<Rightarrow> (ringbuffer_t \<times> int) res" where
  "ringbuffer_ensure_alignment malloc strict base c =
     (if strict \<and> (base + read_head c) mod 8 \<noteq> 0 then
        (case ringbuffer_initialize malloc (rb_size c) of
           None \<Rightarrow> Inr (c, -1)
         | Some copy \<Rightarrow>
             res_bind (ringbuffer_memcpy malloc copy c (ringbuffer_get_nbytes c)) (\<lambda>(copy1, rc).
               if rc = -1 then Inr (c, -1) else Inr (copy1, 0)))
      else Inr (c, 0))"

section \<open>Invariant and abstraction\<close>

text \<open>
  \<open>rb_wf\<close> is the representation invariant: the block has the recorded size, the byte count fits, and
  the write head is the read head advanced, around the wrap point, by the byte count. \<open>rb_contents\<close>
  is the queue of unread bytes, oldest first.
\<close>

definition rb_wf :: "ringbuffer_t \<Rightarrow> bool" where
  "rb_wf b \<longleftrightarrow> length (rb_root b) = rb_size b \<and> rb_nbytes b \<le> rb_size b \<and> rb_size b < 2 ^ 63 \<and>
     (if rb_size b = 0 then read_head b = 0 \<and> write_head b = 0
      else read_head b < rb_size b \<and> write_head b = (read_head b + rb_nbytes b) mod rb_size b)"

definition rb_contents :: "ringbuffer_t \<Rightarrow> byte list" where
  "rb_contents b = map (\<lambda>i. rb_root b ! ((read_head b + i) mod rb_size b)) [0..<rb_nbytes b]"

definition rb_free :: "ringbuffer_t \<Rightarrow> nat" where
  "rb_free b = rb_size b - rb_nbytes b"

lemma rb_contents_length [simp]: "length (rb_contents b) = rb_nbytes b"
  by (simp add: rb_contents_def)

lemma mod_once: "x < 2 * (n::nat) \<Longrightarrow> x mod n = (if x < n then x else x - n)"
  by (simp add: mod_if)

text \<open>The two shapes of a well-formed buffer: one run of data, or data that wraps.\<close>

lemma rb_wf_linear:
  assumes "rb_wf b" and "read_head b \<le> write_head b" and "rb_nbytes b < rb_size b"
  shows "write_head b = read_head b + rb_nbytes b" and "write_head b < rb_size b"
  using assms
  by (auto simp: rb_wf_def mod_once split: if_splits)

lemma rb_wf_wrapped:
  assumes "rb_wf b" and "write_head b < read_head b"
  shows "write_head b + rb_size b = read_head b + rb_nbytes b" and "read_head b < rb_size b"
  using assms
  by (auto simp: rb_wf_def mod_once split: if_splits)

lemma rb_wf_full:
  assumes "rb_wf b" and "rb_nbytes b = rb_size b"
  shows "write_head b = read_head b"
  using assms by (auto simp: rb_wf_def split: if_splits)

lemma minimum_min [simp]: "minimum a b = min a b"
  by (simp add: minimum_def min_def)

lemma rb_wf_heads: "rb_wf b \<Longrightarrow> read_head b \<le> rb_size b \<and> write_head b \<le> rb_size b"
  by (auto simp: rb_wf_def intro: less_imp_le split: if_splits)

lemma rb_wf_bound: "rb_wf b \<Longrightarrow> rb_size b < 2 ^ 64"
  by (auto simp: rb_wf_def)

lemma rb_usub_size [simp]:
  assumes "rb_wf b"
  shows "usub 64 (rb_size b) (write_head b) = rb_size b - write_head b"
    and "usub 64 (rb_size b) (read_head b) = rb_size b - read_head b"
    and "usub 64 (rb_size b) (rb_nbytes b) = rb_free b"
  using rb_wf_heads [OF assms] rb_wf_bound [OF assms] assms
  by (simp_all add: usub_nowrap rb_wf_def rb_free_def)

section \<open>Copying one chunk\<close>

definition rb_wrote :: "ringbuffer_t \<Rightarrow> ringbuffer_t \<Rightarrow> byte list \<Rightarrow> bool" where
  "rb_wrote b b' s \<longleftrightarrow> rb_wf b' \<and> rb_contents b' = rb_contents b @ s \<and> rb_size b' = rb_size b \<and>
     read_head b' = read_head b"

lemma rb_index_old:
  assumes "rb_wf b" and "i < rb_nbytes b" and "rb_nbytes b + t \<le> rb_size b"
  shows "\<not> (write_head b \<le> (read_head b + i) mod rb_size b \<and>
            (read_head b + i) mod rb_size b < write_head b + t)"
proof -
  have sz: "0 < rb_size b" using assms by (simp add: rb_wf_def)
  then have rh: "read_head b < rb_size b"
    and wh: "write_head b = (read_head b + rb_nbytes b) mod rb_size b"
    using assms(1) by (auto simp: rb_wf_def)
  have "read_head b + i < 2 * rb_size b" "read_head b + rb_nbytes b < 2 * rb_size b"
    using rh assms by auto
  then show ?thesis using rh assms wh by (auto simp: mod_once)
qed

lemma rb_index_new:
  assumes "rb_wf b" and "i < t" and "rb_nbytes b + t \<le> rb_size b" and "write_head b + t \<le> rb_size b"
  shows "(read_head b + (rb_nbytes b + i)) mod rb_size b = write_head b + i"
proof -
  have sz: "0 < rb_size b" using assms by simp
  then have rh: "read_head b < rb_size b"
    and wh: "write_head b = (read_head b + rb_nbytes b) mod rb_size b"
    using assms(1) by (auto simp: rb_wf_def)
  have "(read_head b + (rb_nbytes b + i)) mod rb_size b = (write_head b + i) mod rb_size b"
    unfolding wh by (simp add: mod_add_left_eq add.assoc)
  also have "\<dots> = write_head b + i" using assms by simp
  finally show ?thesis .
qed

lemma rb_write_chunk_state:
  assumes wf: "rb_wf b" and t: "rb_nbytes b + t \<le> rb_size b" and w: "write_head b + t \<le> rb_size b"
    and s: "length s = t"
    and m: "m = take (write_head b) (rb_root b) @ s @ drop (write_head b + t) (rb_root b)"
    and b': "b' = b\<lparr>rb_root := m, rb_nbytes := rb_nbytes b + t,
                    write_head := (if write_head b + t = rb_size b then 0 else write_head b + t)\<rparr>"
  shows "rb_wrote b b' s"
proof -
  have len: "length m = rb_size b" using wf w s m by (simp add: rb_wf_def)
  have whm: "rb_size b \<noteq> 0 \<Longrightarrow> write_head b' = (read_head b + rb_nbytes b') mod rb_size b"
  proof -
    assume "rb_size b \<noteq> 0"
    then have wh: "write_head b = (read_head b + rb_nbytes b) mod rb_size b"
      using wf by (auto simp: rb_wf_def)
    have "(read_head b + rb_nbytes b') mod rb_size b = (write_head b + t) mod rb_size b"
      unfolding wh b' by (simp add: mod_add_left_eq add.assoc)
    then show ?thesis using w b' \<open>rb_size b \<noteq> 0\<close> by auto
  qed
  have wf': "rb_wf b'" using wf whm len t w b' by (auto simp: rb_wf_def)
  have "rb_contents b' = rb_contents b @ s"
  proof (rule nth_equalityI)
    show "length (rb_contents b') = length (rb_contents b @ s)" using s b' by simp
  next
    fix i assume i: "i < length (rb_contents b')"
    let ?ix = "(read_head b + i) mod rb_size b"
    have i': "i < rb_nbytes b + t" using i b' by simp
    have "?ix < rb_size b" using i' t by (intro mod_less_divisor) auto
    then have val: "rb_contents b' ! i =
        (if write_head b \<le> ?ix \<and> ?ix < write_head b + t then s ! (?ix - write_head b)
         else rb_root b ! ?ix)"
      using i' b' m s w wf nth_patch [of "write_head b" s "rb_root b" ?ix]
      by (simp add: rb_contents_def rb_wf_def)
    show "rb_contents b' ! i = (rb_contents b @ s) ! i"
    proof (cases "i < rb_nbytes b")
      case True
      with rb_index_old [OF wf True t] val show ?thesis
        by (auto simp: nth_append rb_contents_def)
    next
      case False
      then obtain j where j: "i = rb_nbytes b + j" "j < t" using i' by (metis add_less_cancel_left le_Suc_ex not_less)
      have "?ix = write_head b + j" using rb_index_new [OF wf j(2) t w] j(1) by (simp add: add.assoc)
      with val j show ?thesis by (simp add: nth_append)
    qed
  qed
  with wf' show ?thesis using b' by (simp add: rb_wrote_def)
qed

lemma rb_write_chunk_ok:
  assumes wf: "rb_wf b" and t: "rb_nbytes b + t \<le> rb_size b" and w: "write_head b + t \<le> rb_size b"
    and s: "soff + t \<le> length s"
  shows "\<exists>b'. rb_write_chunk b (Some s) soff t = Inr b' \<and> rb_wrote b b' (take t (drop soff s)) \<and>
    write_head b' = (if write_head b + t = rb_size b then 0 else write_head b + t)"
proof -
  let ?s = "take t (drop soff s)"
  let ?m = "take (write_head b) (rb_root b) @ ?s @ drop (write_head b + t) (rb_root b)"
  let ?b = "b\<lparr>rb_root := ?m, rb_nbytes := rb_nbytes b + t,
              write_head := (if write_head b + t = rb_size b then 0 else write_head b + t)\<rparr>"
  have len: "length ?s = t" using s by simp
  have "mem_write (rb_root b) (write_head b) ?s = Inr ?m"
    using w wf len by (simp add: mem_write_def rb_wf_def)
  moreover have "uadd 64 (rb_nbytes b) t = rb_nbytes b + t"
    using t rb_wf_bound [OF wf] by (simp add: uadd_nowrap)
  ultimately have "rb_write_chunk b (Some s) soff t = Inr ?b"
    using s by (simp add: rb_write_chunk_def mem_read_ok Let_def)
  moreover have "rb_wrote b ?b ?s"
    by (rule rb_write_chunk_state [OF wf t w len refl refl])
  ultimately show ?thesis by auto
qed

section \<open>Writing\<close>

lemma rb_wrote_trans: "rb_wrote b b1 s \<Longrightarrow> rb_wrote b1 b2 t \<Longrightarrow> rb_wrote b b2 (s @ t)"
  by (simp add: rb_wrote_def)

lemma rb_wrote_nbytes: "rb_wrote b b' s \<Longrightarrow> rb_nbytes b' = rb_nbytes b + length s"
  unfolding rb_wrote_def by (metis length_append rb_contents_length)

lemma rb_write_rest_ok:
  assumes wf: "rb_wf b" and w: "write_head b \<le> read_head b" "read_head b - write_head b = rb_free b"
    and s: "nw + nb \<le> length s"
  shows "\<exists>b'. rb_write_rest b (Some s) nw nb = Inr (b', nw + min nb (rb_free b)) \<and>
    rb_wrote b b' (take (min nb (rb_free b)) (drop nw s))"
proof -
  let ?t = "min nb (rb_free b)"
  have u: "usub 64 (read_head b) (write_head b) = rb_free b"
    using w rb_wf_heads [OF wf] rb_wf_bound [OF wf] by (simp add: usub_nowrap)
  have "rb_nbytes b + ?t \<le> rb_size b" using wf by (auto simp: rb_free_def rb_wf_def)
  moreover have "write_head b + ?t \<le> rb_size b" using w rb_wf_heads [OF wf] by auto
  moreover have "nw + ?t \<le> length s" using s by auto
  ultimately obtain b' where "rb_write_chunk b (Some s) nw ?t = Inr b'"
      "rb_wrote b b' (take ?t (drop nw s))"
    using rb_write_chunk_ok [OF wf] by blast
  then show ?thesis by (simp add: rb_write_rest_def u min.commute Let_def)
qed

lemma ringbuffer_write_correct:
  assumes wf: "rb_wf b" and room: "rb_nbytes b < rb_size b \<or> nb = 0" and s: "nb \<le> length s"
  shows "\<exists>b'. ringbuffer_write b (Some s) nb = Inr (b', min nb (rb_free b)) \<and>
    rb_wrote b b' (take (min nb (rb_free b)) s)"
proof (cases "read_head b \<le> write_head b")
  case True
  let ?sp = "rb_size b - write_head b"
  let ?t = "min ?sp nb"
  have lin: "nb \<noteq> 0 \<Longrightarrow> write_head b = read_head b + rb_nbytes b"
    using rb_wf_linear [OF wf True] room by auto
  have t1: "rb_nbytes b + ?t \<le> rb_size b" using lin wf rb_wf_heads [OF wf] by (cases "nb = 0") (auto simp: rb_wf_def)
  have t2: "write_head b + ?t \<le> rb_size b" using rb_wf_heads [OF wf] by auto
  have sl: "0 + ?t \<le> length s" using s by auto
  obtain b1 where b1: "rb_write_chunk b (Some s) 0 ?t = Inr b1" "rb_wrote b b1 (take ?t s)"
      "write_head b1 = (if write_head b + ?t = rb_size b then 0 else write_head b + ?t)"
    using rb_write_chunk_ok [OF wf t1 t2 sl] by auto
  have nb1: "rb_nbytes b1 = rb_nbytes b + ?t" using rb_wrote_nbytes [OF b1(2)] s by simp
  show ?thesis
  proof (cases "?t = nb")
    case True
    then have "min nb (rb_free b) = nb" using t1 by (auto simp: rb_free_def)
    then show ?thesis
      using True b1 \<open>read_head b \<le> write_head b\<close> wf
      by (simp add: ringbuffer_write_def Let_def)
  next
    case False
    then have sp: "?t = ?sp" "?sp < nb" by auto
    have rh: "read_head b1 = read_head b" "rb_size b1 = rb_size b" "rb_wf b1"
      using b1(2) by (auto simp: rb_wrote_def)
    have wh: "write_head b1 = 0" using b1(3) sp rb_wf_heads [OF wf] by simp
    have linear: "write_head b = read_head b + rb_nbytes b" using lin sp by simp
    have fr: "rb_free b1 = read_head b1" "rb_free b = ?sp + rb_free b1"
      using linear nb1 rh sp t1 rb_wf_heads [OF wf] by (auto simp: rb_free_def)
    obtain b2 where b2: "rb_write_rest b1 (Some s) ?sp (nb - ?sp) =
          Inr (b2, ?sp + min (nb - ?sp) (rb_free b1))"
        "rb_wrote b1 b2 (take (min (nb - ?sp) (rb_free b1)) (drop ?sp s))"
      using rb_write_rest_ok [OF rh(3), of ?sp "nb - ?sp" s] wh fr s sp by auto
    have m: "min nb (rb_free b) = ?sp + min (nb - ?sp) (rb_free b1)" using fr sp by auto
    have "take (min nb (rb_free b)) s =
        take ?sp s @ take (min (nb - ?sp) (rb_free b1)) (drop ?sp s)"
      unfolding m by (rule take_add)
    then have "rb_wrote b b2 (take (min nb (rb_free b)) s)"
      using rb_wrote_trans [OF b1(2)] b2(2) sp by (simp add: min.absorb1)
    moreover have "ringbuffer_write b (Some s) nb = Inr (b2, min nb (rb_free b))"
      using \<open>read_head b \<le> write_head b\<close> wf b1(1) b2(1) sp m
      by (simp add: ringbuffer_write_def Let_def min.absorb1)
    ultimately show ?thesis by blast
  qed
next
  case False
  then have "write_head b \<le> read_head b" and "read_head b - write_head b = rb_free b"
    using rb_wf_wrapped [OF wf] by (auto simp: rb_free_def)
  from rb_write_rest_ok [OF wf this, of 0 nb s] s False show ?thesis
    by (simp add: ringbuffer_write_def)
qed

text \<open>
  Writing from a null source keeps the memory and only moves the write head: it amounts to writing
  the bytes that already are behind the write head.
\<close>

definition rb_window :: "ringbuffer_t \<Rightarrow> nat \<Rightarrow> byte list" where
  "rb_window b n = take n (drop (write_head b) (rb_root b) @ rb_root b)"

lemma patch_self: "off + n \<le> length m \<Longrightarrow> take off m @ take n (drop off m) @ drop (off + n) m = m"
  by (metis add.commute append_take_drop_id drop_drop)

lemma rb_write_chunk_null:
  assumes "rb_wf b" and "write_head b + t \<le> rb_size b"
    and "soff + t \<le> length s" and "take t (drop soff s) = take t (drop (write_head b) (rb_root b))"
  shows "rb_write_chunk b None soff t = rb_write_chunk b (Some s) soff t"
proof -
  have "length (take t (drop soff s)) = t" using assms(3) by simp
  then have "mem_write (rb_root b) (write_head b) (take t (drop soff s)) = Inr (rb_root b)"
    using assms patch_self [of "write_head b" t "rb_root b"] by (simp add: mem_write_def rb_wf_def)
  then show ?thesis using assms(3) by (simp add: rb_write_chunk_def mem_read_ok)
qed

lemma ringbuffer_write_null:
  assumes wf: "rb_wf b" and room: "rb_nbytes b < rb_size b \<or> nb = 0" and fit: "nb \<le> rb_free b"
  shows "ringbuffer_write b None nb = ringbuffer_write b (Some (rb_window b nb)) nb"
proof -
  have len: "length (rb_root b) = rb_size b" using wf by (simp add: rb_wf_def)
  have lw: "length (rb_window b nb) = nb" using fit len by (simp add: rb_window_def rb_free_def)
  let ?sp = "rb_size b - write_head b"
  show ?thesis
  proof (cases "read_head b \<le> write_head b")
    case True
    let ?t = "min ?sp nb"
    have "take ?t (drop 0 (rb_window b nb)) = take ?t (drop (write_head b) (rb_root b))"
      using len by (simp add: rb_window_def min.commute)
    moreover have t2: "write_head b + ?t \<le> rb_size b" using rb_wf_heads [OF wf] by auto
    ultimately have c1: "rb_write_chunk b None 0 ?t = rb_write_chunk b (Some (rb_window b nb)) 0 ?t"
      using rb_write_chunk_null [OF wf t2, of 0 "rb_window b nb"] lw by simp
    show ?thesis
    proof (cases "?t = nb")
      case t: True
      then show ?thesis using c1 True wf by (simp add: ringbuffer_write_def Let_def)
    next
      case False
      then have sp: "?t = ?sp" "?sp < nb" by auto
      then have linear: "write_head b = read_head b + rb_nbytes b"
        using rb_wf_linear [OF wf True] room by auto
      have t1: "rb_nbytes b + ?t \<le> rb_size b" using linear rb_wf_heads [OF wf] by auto
      obtain b1 where b1: "rb_write_chunk b (Some (rb_window b nb)) 0 ?t = Inr b1"
          "rb_wrote b b1 (take ?t (rb_window b nb))" "write_head b1 = 0"
        using rb_write_chunk_ok [OF wf t1 t2, of 0 "rb_window b nb"] lw sp rb_wf_heads [OF wf] by auto
      have root: "rb_root b1 = rb_root b"
        using b1(1) unfolding c1 [symmetric] by (auto simp: rb_write_chunk_def Let_def)
      have rh: "rb_wf b1" "rb_size b1 = rb_size b" "read_head b1 = read_head b"
        using b1(2) by (auto simp: rb_wrote_def)
      let ?t2 = "min (usub 64 (read_head b1) (write_head b1)) (nb - ?sp)"
      have u: "usub 64 (read_head b1) (write_head b1) = read_head b"
        using b1(3) rh rb_wf_heads [OF wf] rb_wf_bound [OF wf] by (simp add: usub_nowrap)
      have "take ?t2 (drop ?sp (rb_window b nb)) = take ?t2 (drop (write_head b1) (rb_root b1))"
        using b1(3) root len sp by (simp add: rb_window_def drop_take)
      then have c2: "rb_write_chunk b1 None ?sp ?t2 = rb_write_chunk b1 (Some (rb_window b nb)) ?sp ?t2"
        using rb_write_chunk_null [OF rh(1), of ?t2 ?sp "rb_window b nb"] lw b1(3) u rh(2)
          rb_wf_heads [OF wf] sp by auto
      show ?thesis
        using True wf sp c1 c2 b1(1)
        by (simp add: ringbuffer_write_def rb_write_rest_def Let_def min.absorb1)
    qed
  next
    case False
    have w: "read_head b - write_head b = rb_free b" "write_head b \<le> read_head b"
      using rb_wf_wrapped [OF wf] False by (auto simp: rb_free_def)
    have u: "usub 64 (read_head b) (write_head b) = rb_free b"
      using w rb_wf_heads [OF wf] rb_wf_bound [OF wf] by (simp add: usub_nowrap)
    have n: "min (rb_free b) nb = nb" using fit by simp
    have le: "write_head b + nb \<le> rb_size b" using w fit rb_wf_heads [OF wf] by auto
    then have "take nb (drop 0 (rb_window b nb)) = take nb (drop (write_head b) (rb_root b))"
      using len by (simp add: rb_window_def)
    from rb_write_chunk_null [OF wf le _ this] lw
    have "rb_write_chunk b None 0 nb = rb_write_chunk b (Some (rb_window b nb)) 0 nb" by simp
    with False u n show ?thesis by (simp add: ringbuffer_write_def rb_write_rest_def Let_def)
  qed
qed

lemma ringbuffer_produced_correct:
  assumes wf: "rb_wf b" and room: "rb_nbytes b < rb_size b \<or> nb = 0" and fit: "nb \<le> rb_free b"
  shows "\<exists>b'. ringbuffer_produced b nb = Inr b' \<and> rb_wrote b b' (rb_window b nb)"
proof -
  have lw: "length (rb_window b nb) = nb"
    using fit wf by (simp add: rb_window_def rb_free_def rb_wf_def)
  then obtain b' where "ringbuffer_write b (Some (rb_window b nb)) nb = Inr (b', min nb (rb_free b))"
      "rb_wrote b b' (take (min nb (rb_free b)) (rb_window b nb))"
    using ringbuffer_write_correct [OF wf room, of "rb_window b nb"] by auto
  then show ?thesis
    using fit lw ringbuffer_write_null [OF wf room fit] by (auto simp: ringbuffer_produced_def)
qed

section \<open>Reading\<close>

definition rb_took :: "ringbuffer_t \<Rightarrow> ringbuffer_t \<Rightarrow> nat \<Rightarrow> bool" where
  "rb_took b b' n \<longleftrightarrow> rb_wf b' \<and> rb_contents b' = drop n (rb_contents b) \<and> rb_size b' = rb_size b \<and>
     rb_root b' = rb_root b"

lemma rb_took_trans: "rb_took b b1 m \<Longrightarrow> rb_took b1 b2 n \<Longrightarrow> rb_took b b2 (m + n)"
  by (simp add: rb_took_def add.commute)

lemma rb_took_nbytes: "rb_took b b' n \<Longrightarrow> rb_nbytes b' = rb_nbytes b - n"
  unfolding rb_took_def by (metis length_drop rb_contents_length)

lemma rb_took_reset: "rb_took b b' n \<Longrightarrow> rb_took b (maybe_reset b') n"
  by (auto simp: rb_took_def maybe_reset_def rb_wf_def rb_contents_def)

lemma rb_contents_prefix:
  assumes "rb_wf b" and "t \<le> rb_nbytes b" and "read_head b + t \<le> rb_size b"
  shows "take t (drop (read_head b) (rb_root b)) = take t (rb_contents b)"
proof (rule nth_equalityI)
  show "length (take t (drop (read_head b) (rb_root b))) = length (take t (rb_contents b))"
    using assms by (auto simp: rb_wf_def)
next
  fix i assume "i < length (take t (drop (read_head b) (rb_root b)))"
  then have "i < t" by simp
  then show "take t (drop (read_head b) (rb_root b)) ! i = take t (rb_contents b) ! i"
    using assms by (simp add: rb_contents_def rb_wf_def)
qed

lemma rb_read_chunk_ok:
  assumes wf: "rb_wf b" and t: "t \<le> rb_nbytes b" "read_head b + t \<le> rb_size b"
  shows "\<exists>b'. rb_read_chunk b dest t = Inr (b', if dest then take t (rb_contents b) else []) \<and>
    rb_took b b' t \<and> write_head b' = write_head b \<and>
    read_head b' = (if read_head b + t = rb_size b then 0 else read_head b + t)"
proof -
  let ?b = "b\<lparr>rb_nbytes := rb_nbytes b - t,
              read_head := (if read_head b + t = rb_size b then 0 else read_head b + t)\<rparr>"
  have "usub 64 (rb_nbytes b) t = rb_nbytes b - t"
    using t wf by (simp add: usub_nowrap rb_wf_def)
  then have "rb_read_chunk b dest t = Inr (?b, if dest then take t (rb_contents b) else [])"
    using t wf rb_contents_prefix [OF wf t]
    by (simp add: rb_read_chunk_def Let_def mem_read_def rb_wf_def)
  moreover have "rb_took b ?b t"
  proof -
    have step: "rb_size b \<noteq> 0 \<Longrightarrow> (read_head ?b + i) mod rb_size b = (read_head b + (t + i)) mod rb_size b" for i
      using t by (auto simp: add.assoc [symmetric])
    have "rb_wf ?b" using wf t step [of "rb_nbytes b - t"] by (auto simp: rb_wf_def)
    moreover have "rb_contents ?b = drop t (rb_contents b)"
    proof (rule nth_equalityI)
      fix i assume "i < length (rb_contents ?b)"
      then have i: "i < rb_nbytes b - t" by simp
      then have "rb_size b \<noteq> 0" "t + i < rb_nbytes b" using wf by (auto simp: rb_wf_def)
      then show "rb_contents ?b ! i = drop t (rb_contents b) ! i"
        using step [of i] i by (simp add: rb_contents_def)
    qed simp
    ultimately show ?thesis by (simp add: rb_took_def)
  qed
  ultimately show ?thesis by auto
qed

lemma rb_read_rest_ok:
  assumes wf: "rb_wf b" and h: "read_head b \<le> write_head b" "write_head b - read_head b = rb_nbytes b"
  shows "\<exists>b'. rb_read_rest b dest d nr nb =
      Inr (b', d @ (if dest then take (min nb (rb_nbytes b)) (rb_contents b) else []),
           nr + min nb (rb_nbytes b)) \<and>
    rb_took b b' (min nb (rb_nbytes b))"
proof -
  let ?t = "min nb (rb_nbytes b)"
  have u: "usub 64 (write_head b) (read_head b) = rb_nbytes b"
    using h rb_wf_heads [OF wf] rb_wf_bound [OF wf] by (simp add: usub_nowrap)
  have "read_head b + ?t \<le> rb_size b" using h rb_wf_heads [OF wf] by auto
  then obtain b' where "rb_read_chunk b dest ?t = Inr (b', if dest then take ?t (rb_contents b) else [])"
      "rb_took b b' ?t"
    using rb_read_chunk_ok [OF wf, of ?t dest] by auto
  then show ?thesis using u rb_took_reset by (auto simp: rb_read_rest_def Let_def min.commute)
qed

lemma ringbuffer_read_correct:
  assumes wf: "rb_wf b"
  shows "\<exists>b'. ringbuffer_read b dest nb =
      Inr (b', if dest then take (min nb (rb_nbytes b)) (rb_contents b) else [], min nb (rb_nbytes b)) \<and>
    rb_took b b' (min nb (rb_nbytes b))"
proof (cases "rb_nbytes b = 0")
  case True
  then show ?thesis using wf by (simp add: ringbuffer_read_def rb_took_def)
next
  case nz: False
  then have sz: "rb_size b \<noteq> 0" "read_head b < rb_size b" using wf by (auto simp: rb_wf_def)
  show ?thesis
  proof (cases "write_head b \<le> read_head b")
    case True
    let ?sp = "rb_size b - read_head b"
    let ?t = "min ?sp nb"
    have wrap: "?sp + write_head b = rb_nbytes b"
    proof (cases "write_head b < read_head b")
      case True
      then show ?thesis using rb_wf_wrapped [OF wf True] by simp
    next
      case False
      with True have "(read_head b + rb_nbytes b) mod rb_size b = read_head b"
        using wf sz by (simp add: rb_wf_def)
      then show ?thesis using nz sz wf True False by (auto simp: mod_once rb_wf_def split: if_splits)
    qed
    have t: "?t \<le> rb_nbytes b" "read_head b + ?t \<le> rb_size b" using wrap sz by auto
    obtain b1 where b1: "rb_read_chunk b dest ?t = Inr (b1, if dest then take ?t (rb_contents b) else [])"
        "rb_took b b1 ?t" "write_head b1 = write_head b"
        "read_head b1 = (if read_head b + ?t = rb_size b then 0 else read_head b + ?t)"
      using rb_read_chunk_ok [OF wf t] by blast
    show ?thesis
    proof (cases "?t = nb")
      case True
      then have "min nb (rb_nbytes b) = nb" using t by simp
      then show ?thesis
        using True b1 nz \<open>write_head b \<le> read_head b\<close> wf rb_took_reset
        by (auto simp: ringbuffer_read_def Let_def)
    next
      case False
      then have sp: "?t = ?sp" "?sp < nb" by auto
      have rh: "read_head b1 = 0" using b1(4) sp sz by simp
      have n1: "rb_nbytes b1 = rb_nbytes b - ?sp" using rb_took_nbytes [OF b1(2)] sp by simp
      have wf1: "rb_wf b1" using b1(2) by (simp add: rb_took_def)
      obtain b2 where b2: "rb_read_rest b1 dest (if dest then take ?sp (rb_contents b) else []) ?sp (nb - ?sp) =
          Inr (b2, (if dest then take ?sp (rb_contents b) else []) @
              (if dest then take (min (nb - ?sp) (rb_nbytes b1)) (rb_contents b1) else []),
            ?sp + min (nb - ?sp) (rb_nbytes b1))"
          "rb_took b1 b2 (min (nb - ?sp) (rb_nbytes b1))"
        using rb_read_rest_ok [OF wf1, of dest _ _ "nb - ?sp"] rh b1(3) n1 wrap by fastforce
      have m: "min nb (rb_nbytes b) = ?sp + min (nb - ?sp) (rb_nbytes b1)" using sp n1 wrap by (auto simp: min_def)
      have "rb_contents b1 = drop ?sp (rb_contents b)" using b1(2) sp by (simp add: rb_took_def)
      then have "take (min nb (rb_nbytes b)) (rb_contents b) =
          take ?sp (rb_contents b) @ take (min (nb - ?sp) (rb_nbytes b1)) (rb_contents b1)"
        unfolding m by (simp only: take_add)
      moreover have "rb_took b b2 (min nb (rb_nbytes b))"
        using rb_took_trans [OF b1(2) b2(2)] sp m by simp
      moreover have "ringbuffer_read b dest nb = rb_read_rest b1 dest
          (if dest then take ?sp (rb_contents b) else []) ?sp (nb - ?sp)"
        using nz True wf b1(1) sp by (simp add: ringbuffer_read_def Let_def min.absorb1)
      ultimately show ?thesis using b2(1) m by (cases dest) auto
    qed
  next
    case False
    then have h: "read_head b \<le> write_head b" by simp
    have "write_head b - read_head b = rb_nbytes b"
    proof (cases "rb_nbytes b < rb_size b")
      case True
      then show ?thesis using rb_wf_linear [OF wf h] by simp
    next
      case f: False
      then have "rb_nbytes b = rb_size b" using wf by (simp add: rb_wf_def)
      then show ?thesis using rb_wf_full [OF wf] False by simp
    qed
    from rb_read_rest_ok [OF wf h this, of dest "[]" 0 nb] nz False show ?thesis
      by (simp add: ringbuffer_read_def)
  qed
qed

lemma ringbuffer_peek_correct:
  assumes "rb_wf b"
  shows "ringbuffer_peek b True nb =
    Inr (take nb (rb_contents b), min nb (rb_nbytes b))"
  using ringbuffer_read_correct [OF assms, of True nb]
  by (auto simp: ringbuffer_peek_def min_def)

lemma ringbuffer_peek_at_correct:
  assumes wf: "rb_wf b" and off: "off \<le> rb_nbytes b"
  shows "ringbuffer_peek_at b off True nb =
    Inr (take nb (drop off (rb_contents b)), min nb (rb_nbytes b - off))"
proof -
  obtain c where c: "ringbuffer_read b False off = Inr (c, [], off)" "rb_took b c off"
    using ringbuffer_read_correct [OF wf, of False off] off by auto
  then have "rb_wf c" "rb_contents c = drop off (rb_contents b)" "rb_nbytes c = rb_nbytes b - off"
    using rb_took_nbytes by (auto simp: rb_took_def)
  with ringbuffer_read_correct [of c True nb] c(1) show ?thesis
    by (auto simp: ringbuffer_peek_at_def min_def)
qed

lemma ringbuffer_consumed_correct:
  assumes wf: "rb_wf b" and n: "nb \<le> rb_nbytes b"
  shows "\<exists>b'. ringbuffer_consumed b nb = Inr b' \<and> rb_took b b' nb"
  using ringbuffer_read_correct [OF wf, of False nb] n by (auto simp: ringbuffer_consumed_def)

lemma ringbuffer_consumed_too_much:
  assumes "rb_wf b" and "rb_nbytes b < nb"
  shows "ringbuffer_consumed b nb = Inl AssertFailed"
  using ringbuffer_read_correct [OF assms(1), of False nb] assms(2)
  by (auto simp: ringbuffer_consumed_def)

lemma ringbuffer_reset_correct:
  assumes "rb_wf b"
  shows "\<exists>b'. ringbuffer_reset b = Inr b' \<and> rb_wf b' \<and> rb_contents b' = []"
  using ringbuffer_consumed_correct [OF assms, of "rb_nbytes b"]
  by (auto simp: ringbuffer_reset_def ringbuffer_get_nbytes_def rb_took_def)

section \<open>Growing\<close>

text \<open>
  The doubling loop returns whenever the bytes held and the bytes asked for together stay below
  \<open>2 ^ 62\<close>, which every real object does; the result holds both.
\<close>

lemma rb_grow_correct:
  assumes "nbytes + sz \<le> 2 ^ 62" and "0 < n" and "nbytes \<le> n" and "n < 2 ^ 63"
  shows "\<exists>n'. rb_grow nbytes sz n = Some n' \<and> n \<le> n' \<and> nbytes + sz \<le> n' \<and> n' < 2 ^ 63 \<and>
    n' \<le> max n (2 * (nbytes + sz))"
  using assms
proof (induction "nbytes + sz - n" arbitrary: n rule: less_induct)
  case less
  have u: "usub 64 n nbytes = n - nbytes" using less.prems by (simp add: usub_nowrap)
  show ?case
  proof (cases "n - nbytes < sz")
    case True
    then have small: "n < nbytes + sz" by simp
    then have d: "umul 64 n 2 = n * 2" using less.prems by (simp add: umul_nowrap)
    have dec: "nbytes + sz - n * 2 < nbytes + sz - n" using small less.prems(2) by linarith
    have dbl: "0 < n * 2" "nbytes \<le> n * 2" "n * 2 < 2 ^ 63" using small less.prems(1,2,3) by auto
    obtain n' where n': "rb_grow nbytes sz (n * 2) = Some n'" "n * 2 \<le> n'"
        "nbytes + sz \<le> n'" "n' < 2 ^ 63" "n' \<le> max (n * 2) (2 * (nbytes + sz))"
      using less.hyps [OF dec less.prems(1) dbl] by auto
    have "rb_grow nbytes sz n = Some n'"
      using n'(1) True u d by (subst rb_grow.simps) simp
    moreover have "n' \<le> max n (2 * (nbytes + sz))" using n'(5) small by auto
    ultimately show ?thesis using n'(2,3,4) by (intro exI [of _ n']) simp
  next
    case False
    then have "rb_grow nbytes sz n = Some n" using u by (subst rb_grow.simps) simp
    moreover have "nbytes + sz \<le> n" using False less.prems(3) by linarith
    ultimately show ?thesis using less.prems(4) by (intro exI [of _ n]) simp
  qed
qed

definition rb_kept :: "ringbuffer_t \<Rightarrow> ringbuffer_t \<Rightarrow> bool" where
  "rb_kept b b' \<longleftrightarrow> rb_wf b' \<and> rb_contents b' = rb_contents b"

lemma ringbuffer_ensure_capacity_correct:
  assumes wf: "rb_wf b" and m: "malloc_ok malloc"
    and bound: "rb_size b < 2 ^ 62" "rb_nbytes b + sz \<le> 2 ^ 62"
  shows "\<exists>b' ok. ringbuffer_ensure_capacity malloc b sz = Inr (b', ok) \<and> rb_kept b b' \<and>
    (ok \<longrightarrow> sz \<le> rb_free b' \<and> rb_nbytes b' < rb_size b' \<and>
       rb_size b' \<le> max (rb_size b) (max 128 (2 * (rb_nbytes b + sz)))) \<and>
    (\<not> ok \<longrightarrow> b' = b \<and> (\<exists>n. malloc n = None))"
proof (cases "sz < rb_free b")
  case True
  then have "ringbuffer_ensure_capacity malloc b sz = Inr (b, True)"
    using wf by (simp add: ringbuffer_ensure_capacity_def)
  then show ?thesis
    using True wf by (intro exI [of _ b] exI [of _ True]) (simp add: rb_kept_def rb_free_def)
next
  case False
  have nle: "rb_nbytes b \<le> rb_size b" using wf by (simp add: rb_wf_def)
  have dbl: "umul 64 (rb_size b) 2 = rb_size b * 2" using bound by (simp add: umul_nowrap)
  define n0 where "n0 = (if rb_size b * 2 = 0 then 128 else rb_size b * 2)"
  have n0: "0 < n0" "rb_nbytes b < n0" "n0 < 2 ^ 63"
    using bound nle by (auto simp: n0_def)
  then obtain n where n: "rb_grow (rb_nbytes b) sz n0 = Some n" "n0 \<le> n" "rb_nbytes b + sz \<le> n"
      "n < 2 ^ 63" "n \<le> max n0 (2 * (rb_nbytes b + sz))"
    using rb_grow_correct [OF bound(2), of n0] by auto
  have code: "ringbuffer_ensure_capacity malloc b sz =
      (case malloc n of None \<Rightarrow> Inr (b, False)
       | Some new_root \<Rightarrow>
           res_bind (ringbuffer_read b True (rb_nbytes b)) (\<lambda>(b1, bytes, nr).
           res_bind (mem_write new_root 0 bytes) (\<lambda>root.
           lcb_assert (nr = rb_nbytes b)
             (Inr (b1\<lparr>rb_size := n, rb_root := root, rb_nbytes := rb_nbytes b,
                      read_head := 0, write_head := rb_nbytes b\<rparr>, True)))))"
    using False wf n(1)
    by (simp add: ringbuffer_ensure_capacity_def Let_def dbl n0_def split: if_splits)
  show ?thesis
  proof (cases "malloc n")
    case None
    then show ?thesis
      using code wf by (intro exI [of _ b] exI [of _ False]) (auto simp: rb_kept_def)
  next
    case (Some new_root)
    then have ln: "length new_root = n" using m by (rule malloc_okD [rotated])
    obtain b1 where b1: "ringbuffer_read b True (rb_nbytes b) = Inr (b1, rb_contents b, rb_nbytes b)"
      using ringbuffer_read_correct [OF wf, of True "rb_nbytes b"] by auto
    let ?root = "rb_contents b @ drop (rb_nbytes b) new_root"
    let ?b = "b1\<lparr>rb_size := n, rb_root := ?root, rb_nbytes := rb_nbytes b,
                 read_head := 0, write_head := rb_nbytes b\<rparr>"
    have "mem_write new_root 0 (rb_contents b) = Inr ?root"
      using n ln by (simp add: mem_write_def)
    then have res: "ringbuffer_ensure_capacity malloc b sz = Inr (?b, True)"
      using code Some b1 by simp
    have lt: "rb_nbytes b < n" using n0 n by simp
    have "rb_wf ?b" using lt n ln by (simp add: rb_wf_def)
    moreover have "rb_contents ?b = rb_contents b"
      using lt by (intro nth_equalityI) (simp_all add: rb_contents_def nth_append)
    moreover have "n \<le> max (rb_size b) (max 128 (2 * (rb_nbytes b + sz)))"
      using n(5) False by (auto simp: n0_def rb_free_def split: if_splits)
    ultimately show ?thesis
      using res lt n(3) by (intro exI [of _ ?b] exI [of _ True]) (simp add: rb_kept_def rb_free_def)
  qed
qed

lemma ringbuffer_strcat_correct:
  assumes wf: "rb_wf b" and m: "malloc_ok malloc"
    and bound: "rb_size b < 2 ^ 62" "rb_nbytes b + length str \<le> 2 ^ 62"
  shows "\<exists>b' n. ringbuffer_strcat malloc b str = Inr (b', n) \<and> rb_wf b' \<and>
    (n = length str \<and> rb_contents b' = rb_contents b @ str \<or> n = 0 \<and> b' = b)"
proof -
  obtain b1 ok where b1: "ringbuffer_ensure_capacity malloc b (length str) = Inr (b1, ok)"
      "rb_kept b b1" "ok \<longrightarrow> length str \<le> rb_free b1 \<and> rb_nbytes b1 < rb_size b1" "\<not> ok \<longrightarrow> b1 = b"
    using ringbuffer_ensure_capacity_correct [OF wf m bound] by blast
  show ?thesis
  proof (cases ok)
    case True
    with b1 obtain b2 where "ringbuffer_write b1 (Some str) (length str) = Inr (b2, length str)"
        "rb_wrote b1 b2 str"
      using ringbuffer_write_correct [of b1 "length str" str] by (auto simp: rb_kept_def)
    then show ?thesis using b1 True by (auto simp: ringbuffer_strcat_def rb_kept_def rb_wrote_def)
  next
    case False
    then show ?thesis using b1 wf by (auto simp: ringbuffer_strcat_def)
  qed
qed

section \<open>Moving data between buffers\<close>

lemma rb_append_loop_correct:
  assumes "malloc_ok malloc" and "\<forall>n. malloc n \<noteq> None"
    and "rb_wf src" and "rb_wf dest" and "rb_size dest < 2 ^ 62"
    and "rb_nbytes src + rb_nbytes dest \<le> 2 ^ 60" and "rb_nbytes src < fuel"
  shows "\<exists>src' dest'. rb_append_loop malloc fuel src dest = Inr (src', dest') \<and>
    rb_wf src' \<and> rb_contents src' = [] \<and> rb_wf dest' \<and>
    rb_contents dest' = rb_contents dest @ rb_contents src"
  using assms
proof (induction fuel arbitrary: src dest)
  case 0
  then show ?case by simp
next
  case (Suc fuel)
  let ?n = "min 1024 (rb_nbytes src)"
  obtain s1 where s1: "ringbuffer_read src True 1024 = Inr (s1, take ?n (rb_contents src), ?n)"
      "rb_took src s1 ?n"
    using ringbuffer_read_correct [OF Suc.prems(3), of True 1024] by auto
  show ?case
  proof (cases "?n = 0")
    case True
    then have "rb_contents src = []" by (simp add: rb_contents_def min_def split: if_splits)
    then show ?thesis using True s1 Suc.prems by (auto simp: rb_took_def)
  next
    case False
    have "rb_nbytes dest + ?n \<le> 2 ^ 62" using Suc.prems(6) by auto
    then obtain d1 ok where d1: "ringbuffer_ensure_capacity malloc dest ?n = Inr (d1, ok)" "rb_kept dest d1"
        "ok \<longrightarrow> ?n \<le> rb_free d1 \<and> rb_nbytes d1 < rb_size d1 \<and>
           rb_size d1 \<le> max (rb_size dest) (max 128 (2 * (rb_nbytes dest + ?n)))"
        "\<not> ok \<longrightarrow> (\<exists>n. malloc n = None)"
      using ringbuffer_ensure_capacity_correct [OF Suc.prems(4,1,5), of ?n] by blast
    then have ok: "ok" using Suc.prems(2) by auto
    obtain d2 where d2: "ringbuffer_write d1 (Some (take ?n (rb_contents src))) ?n = Inr (d2, ?n)"
        "rb_wrote d1 d2 (take ?n (rb_contents src))"
      using ringbuffer_write_correct [of d1 ?n "take ?n (rb_contents src)"] d1 ok
      by (auto simp: rb_kept_def)
    have s1': "rb_wf s1" "rb_contents s1 = drop ?n (rb_contents src)" "rb_nbytes s1 = rb_nbytes src - ?n"
      using s1(2) rb_took_nbytes by (auto simp: rb_took_def)
    have n1: "rb_nbytes d1 = rb_nbytes dest" using d1(2) unfolding rb_kept_def by (metis rb_contents_length)
    have d2': "rb_wf d2" "rb_contents d2 = rb_contents dest @ take ?n (rb_contents src)"
        "rb_nbytes d2 = rb_nbytes dest + ?n" "rb_size d2 = rb_size d1"
      using d2(2) d1(2) n1 rb_wrote_nbytes [OF d2(2)] by (auto simp: rb_wrote_def rb_kept_def)
    have sz: "rb_size d2 < 2 ^ 62" using d1(3) ok d2'(4) Suc.prems(5,6) by auto
    have "rb_nbytes s1 + rb_nbytes d2 \<le> 2 ^ 60" "rb_nbytes s1 < fuel"
      using s1'(3) d2'(3) Suc.prems(6,7) False by auto
    from Suc.IH [OF Suc.prems(1,2) s1'(1) d2'(1) sz this] obtain s' d' where
      "rb_append_loop malloc fuel s1 d2 = Inr (s', d')" "rb_wf s'" "rb_contents s' = []" "rb_wf d'"
      "rb_contents d' = rb_contents d2 @ rb_contents s1"
      by blast
    moreover have "rb_append_loop malloc (Suc fuel) src dest = rb_append_loop malloc fuel s1 d2"
      using s1(1) False d1(1) ok d2(1) by (simp del: min_less_iff_conj add: min_def split: if_splits)
    ultimately show ?thesis using d2'(2) s1'(2) by simp
  qed
qed

lemma ringbuffer_get_iov_read:
  assumes wf: "rb_wf b"
  shows "(case ringbuffer_get_iov b RINGBUFFER_READ of ((p, n), (q, k)) \<Rightarrow>
    take n (drop p (rb_root b)) @ take k (drop q (rb_root b)) = rb_contents b)"
proof (cases "write_head b \<le> read_head b \<and> rb_size b - read_head b < rb_nbytes b")
  case True
  let ?c = "rb_size b - read_head b"
  have u: "usub 64 (rb_nbytes b) ?c = rb_nbytes b - ?c"
    using True wf by (simp add: usub_nowrap rb_wf_def)
  have "drop ?c (rb_contents b) = take (rb_nbytes b - ?c) (rb_root b)"
  proof (rule nth_equalityI)
    fix i assume i: "i < length (drop ?c (rb_contents b))"
    then have i': "?c + i < rb_nbytes b" by simp
    have "read_head b + (?c + i) = rb_size b + i" using rb_wf_heads [OF wf] by simp
    moreover have "i < rb_size b" using i' wf by (simp add: rb_wf_def)
    ultimately show "drop ?c (rb_contents b) ! i = take (rb_nbytes b - ?c) (rb_root b) ! i"
      using i' by (simp add: rb_contents_def)
  qed (use wf in \<open>auto simp: rb_wf_def\<close>)
  moreover have "take ?c (drop (read_head b) (rb_root b)) = take ?c (rb_contents b)"
    using True rb_wf_heads [OF wf] by (intro rb_contents_prefix [OF wf]) auto
  ultimately show ?thesis
    using True u by (simp add: ringbuffer_get_iov_def Let_def) (metis append_take_drop_id)
next
  case False
  have "read_head b + rb_nbytes b \<le> rb_size b"
  proof (cases "write_head b \<le> read_head b")
    case True
    then show ?thesis using False rb_wf_heads [OF wf] by auto
  next
    case w: False
    then have "rb_nbytes b < rb_size b"
      using rb_wf_full [OF wf] wf by (metis le_neq_implies_less order_refl rb_wf_def)
    then show ?thesis using rb_wf_linear [OF wf] w by simp
  qed
  then have "take (rb_nbytes b) (drop (read_head b) (rb_root b)) = rb_contents b"
    using rb_contents_prefix [OF wf order_refl] by simp
  then show ?thesis using False by (auto simp: ringbuffer_get_iov_def Let_def)
qed

lemma ringbuffer_get_iov_write:
  assumes wf: "rb_wf b" and room: "rb_nbytes b < rb_size b"
  shows "(case ringbuffer_get_iov b RINGBUFFER_WRITE of ((p, n), (q, k)) \<Rightarrow>
    p = write_head b \<and> n + k = rb_free b \<and> p + n \<le> rb_size b \<and> q = 0 \<and> k \<le> read_head b)"
  using rb_wf_linear [OF wf _ room] rb_wf_wrapped [OF wf] rb_wf_heads [OF wf] wf
  by (cases "read_head b \<le> write_head b") (auto simp: ringbuffer_get_iov_def rb_free_def)

text \<open>
  \<open>ringbuffer_memcpy\<close> computes how much to read once, from the first free run of the destination.
  It is correct when the bytes fit that run, and its second round reads nothing and then fails the
  assertion when they do not.
\<close>

definition rb_first_run :: "ringbuffer_t \<Rightarrow> nat" where
  "rb_first_run b = snd (fst (ringbuffer_get_iov b RINGBUFFER_WRITE))"

lemma rb_first_run_bounds:
  assumes wf: "rb_wf b" and room: "rb_nbytes b < rb_size b"
  shows "rb_first_run b \<le> rb_free b" "write_head b + rb_first_run b \<le> rb_size b"
  using ringbuffer_get_iov_write [OF wf room]
  by (auto simp: rb_first_run_def split: prod.splits)

lemma rb_iov_write_shape:
  "\<exists>k. ringbuffer_get_iov b RINGBUFFER_WRITE = ((write_head b, rb_first_run b), (0, k))"
  by (simp add: ringbuffer_get_iov_def rb_first_run_def)

lemma ringbuffer_write_one_run:
  assumes wf: "rb_wf b" and room: "rb_nbytes b < rb_size b" and n: "length s = n" "n \<le> rb_first_run b"
    and m: "mem_write (rb_root b) (write_head b) s = Inr m"
  shows "ringbuffer_produced (b\<lparr>rb_root := m\<rparr>) n = res_bind (ringbuffer_write b (Some s) n) (\<lambda>(b', _). Inr b')"
proof (cases "read_head b \<le> write_head b")
  case True
  then have "n \<le> rb_size b - write_head b" using n(2) by (simp add: rb_first_run_def ringbuffer_get_iov_def)
  then show ?thesis
    using True wf n(1) m
    by (simp add: ringbuffer_produced_def ringbuffer_write_def rb_write_chunk_def mem_read_ok Let_def)
next
  case False
  then have "n \<le> rb_free b" using n(2) wf by (simp add: rb_first_run_def ringbuffer_get_iov_def)
  moreover have "usub 64 (read_head b) (write_head b) = rb_free b"
    using rb_wf_wrapped [OF wf] False rb_wf_bound [OF wf] by (simp add: usub_nowrap rb_free_def)
  ultimately show ?thesis
    using False n(1) m
    by (simp add: ringbuffer_produced_def ringbuffer_write_def rb_write_rest_def rb_write_chunk_def
        mem_read_ok Let_def)
qed

lemma ringbuffer_memcpy_fits:
  assumes wf: "rb_wf dst" "rb_wf src" and n: "n \<le> rb_nbytes src"
    and ens: "ringbuffer_ensure_capacity malloc dst n = Inr (dst1, True)"
    and dst1: "rb_kept dst dst1" "rb_nbytes dst1 < rb_size dst1" and run: "n \<le> rb_first_run dst1"
  shows "\<exists>dst'. ringbuffer_memcpy malloc dst src n = Inr (dst', 0) \<and> rb_wf dst' \<and>
    rb_contents dst' = rb_contents dst @ take n (rb_contents src)"
proof -
  let ?s = "take n (rb_contents src)"
  have wf1: "rb_wf dst1" using dst1(1) by (simp add: rb_kept_def)
  have ls: "length ?s = n" using n by simp
  obtain m where m: "mem_write (rb_root dst1) (write_head dst1) ?s = Inr m"
    using rb_first_run_bounds [OF wf1 dst1(2)] run ls wf1 by (auto simp: mem_write_def rb_wf_def)
  have n64: "n < 2 ^ 64" using n wf(2) by (simp add: rb_wf_def)
  obtain c where "ringbuffer_read src True n = Inr (c, ?s, n)"
    using ringbuffer_read_correct [OF wf(2), of True n] n by auto
  then have loop: "rb_memcpy_loop ((write_head dst1, k) # iov) src (rb_root dst1) n n = Inr m" for k iov
    using m n64 by (simp add: usub_nowrap Let_def)
  have "n \<le> rb_free dst1" "n \<le> length ?s" using rb_first_run_bounds [OF wf1 dst1(2)] run ls by auto
  then obtain d where d: "ringbuffer_write dst1 (Some ?s) n = Inr (d, n)" "rb_wrote dst1 d ?s"
    using ringbuffer_write_correct [OF wf1, of n ?s] dst1(2) by (auto simp: min_absorb1)
  have "ringbuffer_produced (dst1\<lparr>rb_root := m\<rparr>) n = Inr d"
    using ringbuffer_write_one_run [OF wf1 dst1(2) ls run m] d(1) by simp
  moreover obtain k where
      "ringbuffer_get_iov dst1 RINGBUFFER_WRITE = ((write_head dst1, rb_first_run dst1), (0, k))"
    using rb_iov_write_shape by blast
  ultimately have "ringbuffer_memcpy malloc dst src n = Inr (d, 0)"
    using n ens loop run by (simp add: ringbuffer_memcpy_def ringbuffer_get_nbytes_def Let_def min_absorb2)
  then show ?thesis using d(2) dst1(1) by (auto simp: rb_wrote_def rb_kept_def)
qed

lemma ringbuffer_memcpy_split:
  assumes wf: "rb_wf dst" "rb_wf src" and n: "n \<le> rb_nbytes src"
    and ens: "ringbuffer_ensure_capacity malloc dst n = Inr (dst1, True)"
    and dst1: "rb_kept dst dst1" "rb_nbytes dst1 < rb_size dst1" and run: "rb_first_run dst1 < n"
  shows "ringbuffer_memcpy malloc dst src n = Inl AssertFailed"
proof -
  let ?k = "rb_first_run dst1"
  let ?s = "take ?k (rb_contents src)"
  have wf1: "rb_wf dst1" using dst1(1) by (simp add: rb_kept_def)
  have n64: "n < 2 ^ 64" using n wf(2) by (simp add: rb_wf_def)
  have "write_head dst1 + length ?s \<le> length (rb_root dst1)"
    using rb_first_run_bounds [OF wf1 dst1(2)] wf1 by (auto simp: rb_wf_def)
  then obtain m where m: "mem_write (rb_root dst1) (write_head dst1) ?s = Inr m"
    by (simp add: mem_write_ok)
  obtain c where c: "ringbuffer_read src True ?k = Inr (c, ?s, ?k)" "rb_took src c ?k"
    using ringbuffer_read_correct [OF wf(2), of True ?k] n run by auto
  then have wfc: "rb_wf c" by (simp add: rb_took_def)
  obtain c2 where c2: "ringbuffer_read c True 0 = Inr (c2, [], 0)"
    using ringbuffer_read_correct [OF wfc, of True 0] by auto
  have u: "usub 64 ?k ?k = 0" "usub 64 n ?k = n - ?k" "usub 64 (n - ?k) 0 = n - ?k" "usub 64 0 0 = 0"
    using n64 run by (simp_all add: usub_nowrap)
  have "mem_write m 0 [] = Inr m" by (simp add: mem_write_def)
  then have loop: "rb_memcpy_loop [(write_head dst1, k), (0, k')] src (rb_root dst1) ?k n = Inl AssertFailed" for k k'
    using c c2 m u run by (simp add: Let_def)
  obtain k where "ringbuffer_get_iov dst1 RINGBUFFER_WRITE = ((write_head dst1, ?k), (0, k))"
    using rb_iov_write_shape by blast
  then show ?thesis
    using n ens loop run by (simp add: ringbuffer_memcpy_def ringbuffer_get_nbytes_def Let_def min_absorb1)
qed

section \<open>Overwriting in place\<close>

lemma rb_patch_contents:
  assumes wf: "rb_wf b" and k: "k + length bs \<le> rb_nbytes b"
    and p: "p = (read_head b + k) mod rb_size b" "p + length bs \<le> rb_size b"
  shows "\<exists>m. mem_write (rb_root b) p bs = Inr m \<and> rb_wf (b\<lparr>rb_root := m\<rparr>) \<and>
    rb_contents (b\<lparr>rb_root := m\<rparr>) = take k (rb_contents b) @ bs @ drop (k + length bs) (rb_contents b)"
proof -
  let ?m = "take p (rb_root b) @ bs @ drop (p + length bs) (rb_root b)"
  have len: "length (rb_root b) = rb_size b" using wf by (simp add: rb_wf_def)
  have wr: "mem_write (rb_root b) p bs = Inr ?m" using p(2) len by (simp add: mem_write_def)
  have wf': "rb_wf (b\<lparr>rb_root := ?m\<rparr>)" using wf p(2) by (simp add: rb_wf_def)
  have "rb_contents (b\<lparr>rb_root := ?m\<rparr>) ! i =
      (take k (rb_contents b) @ bs @ drop (k + length bs) (rb_contents b)) ! i"
    if i: "i < rb_nbytes b" for i
  proof -
    let ?ix = "(read_head b + i) mod rb_size b"
    have sz: "0 < rb_size b" "read_head b < rb_size b" using i wf by (auto simp: rb_wf_def)
    have nle: "rb_nbytes b \<le> rb_size b" using wf by (simp add: rb_wf_def)
    have ix: "?ix < rb_size b" using sz by simp
    have bounds: "read_head b + i < 2 * rb_size b" "read_head b + k < 2 * rb_size b"
      using sz i k nle by auto
    have range: "p \<le> ?ix \<and> ?ix < p + length bs \<longleftrightarrow> k \<le> i \<and> i < k + length bs"
      using bounds p sz i k nle by (auto simp: mod_once split: if_splits)
    have off: "k \<le> i \<Longrightarrow> i < k + length bs \<Longrightarrow> ?ix - p = i - k"
      using bounds p sz i k nle by (auto simp: mod_once split: if_splits)
    have val: "rb_contents (b\<lparr>rb_root := ?m\<rparr>) ! i =
        (if k \<le> i \<and> i < k + length bs then bs ! (i - k) else rb_root b ! ?ix)"
      using i nth_patch [of p bs "rb_root b" ?ix] p(2) len ix range off by (simp add: rb_contents_def)
    have "(take k (rb_contents b) @ bs @ drop (k + length bs) (rb_contents b)) ! i =
        (if k \<le> i \<and> i < k + length bs then bs ! (i - k) else rb_contents b ! i)"
      using nth_patch [of k bs "rb_contents b" i] k i by simp
    with val i show ?thesis by (simp add: rb_contents_def)
  qed
  then have "rb_contents (b\<lparr>rb_root := ?m\<rparr>) =
      take k (rb_contents b) @ bs @ drop (k + length bs) (rb_contents b)"
    using k by (intro nth_equalityI) auto
  with wr wf' show ?thesis by blast
qed

lemma ringbuffer_update_read_correct:
  assumes wf: "rb_wf b" and room: "rb_nbytes b < rb_size b" and s: "min nb (rb_nbytes b) \<le> length s"
  shows "\<exists>b'. ringbuffer_update b RINGBUFFER_READ s nb = Inr (b', min nb (rb_nbytes b)) \<and> rb_wf b' \<and>
    rb_contents b' = take (min nb (rb_nbytes b)) s @ drop (min nb (rb_nbytes b)) (rb_contents b)"
proof (cases "read_head b \<le> write_head b")
  case True
  let ?n = "min nb (rb_nbytes b)"
  have "read_head b + ?n \<le> rb_size b" using rb_wf_linear [OF wf True room] by auto
  moreover have "read_head b = (read_head b + 0) mod rb_size b" using wf room by (simp add: rb_wf_def)
  moreover have "length (take ?n s) = ?n" using s by simp
  ultimately obtain m where "mem_write (rb_root b) (read_head b) (take ?n s) = Inr m"
      "rb_wf (b\<lparr>rb_root := m\<rparr>)"
      "rb_contents (b\<lparr>rb_root := m\<rparr>) = take ?n s @ drop ?n (rb_contents b)"
    using rb_patch_contents [OF wf, of 0 "take ?n s" "read_head b"] by auto
  then show ?thesis using True s by (auto simp: ringbuffer_update_def Let_def mem_read_ok)
next
  case False
  define n where "n = min nb (rb_nbytes b)"
  define sp where "sp = rb_size b - read_head b"
  define k where "k = min nb sp"
  define j where "j = min (nb - k) (write_head b)"
  have w: "write_head b + rb_size b = read_head b + rb_nbytes b" "read_head b < rb_size b"
    using rb_wf_wrapped [OF wf] False by auto
  have us: "usub 64 (rb_size b) (read_head b) = sp" using rb_usub_size [OF wf] by (simp add: sp_def)
  have nn: "k \<le> rb_nbytes b" "read_head b + k \<le> rb_size b" "k + j = n" "n \<le> length s" "n \<le> rb_nbytes b"
      "j \<le> rb_size b"
    using w s False unfolding n_def k_def j_def sp_def by linarith+
  have rd: "mem_read s 0 k = Inr (take k s)" "mem_read s k j = Inr (take j (drop k s))"
    using nn by (simp_all add: mem_read_def)
  have ln: "length (take k s) = k" "length (take j (drop k s)) = j" using nn by simp_all
  have "read_head b = (read_head b + 0) mod rb_size b" using w by simp
  then obtain m where m: "mem_write (rb_root b) (read_head b) (take k s) = Inr m"
      "rb_wf (b\<lparr>rb_root := m\<rparr>)"
      "rb_contents (b\<lparr>rb_root := m\<rparr>) = take k s @ drop k (rb_contents b)"
    using rb_patch_contents [OF wf, of 0 "take k s" "read_head b"] nn(1,2) unfolding ln by auto
  show ?thesis
  proof (cases "nb - k = 0")
    case True
    then have "k = n" using nn(3) by (simp add: j_def)
    moreover have "ringbuffer_update b RINGBUFFER_READ s nb = Inr (b\<lparr>rb_root := m\<rparr>, k)"
      using False True us rd m(1)
      by (simp add: ringbuffer_update_def Let_def flip: n_def k_def)
    ultimately show ?thesis using m(2,3)
      by (intro exI [of _ "b\<lparr>rb_root := m\<rparr>"]) (simp flip: n_def)
  next
    case more: False
    then have ksp: "k = sp" by (simp add: k_def min_def split: if_splits)
    have pos: "0 = (read_head b + k) mod rb_size b" using w unfolding ksp sp_def by simp
    obtain m' where m': "mem_write m 0 (take j (drop k s)) = Inr m'"
        "rb_wf (b\<lparr>rb_root := m'\<rparr>)"
        "rb_contents (b\<lparr>rb_root := m'\<rparr>) = take k (rb_contents (b\<lparr>rb_root := m\<rparr>)) @
           take j (drop k s) @ drop (k + j) (rb_contents (b\<lparr>rb_root := m\<rparr>))"
      using rb_patch_contents [OF m(2), of k "take j (drop k s)" 0] pos nn(3,5,6) unfolding ln by auto
    have "take n s = take k s @ take j (drop k s)" using nn(3) take_add [of k j s] by simp
    then have "rb_contents (b\<lparr>rb_root := m'\<rparr>) = take n s @ drop n (rb_contents b)"
      using m'(3) m(3) ln(1) nn(3) by (simp add: drop_append)
    moreover have "ringbuffer_update b RINGBUFFER_READ s nb = Inr (b\<lparr>rb_root := m'\<rparr>, n)"
      using False more us rd m(1) m'(1) nn(3)
      by (simp add: ringbuffer_update_def Let_def flip: n_def k_def j_def)
    ultimately show ?thesis using m'(2)
      by (intro exI [of _ "b\<lparr>rb_root := m'\<rparr>"]) (simp flip: n_def)
  qed
qed

lemma ringbuffer_update_write_correct:
  assumes wf: "rb_wf b" and room: "rb_nbytes b < rb_size b" and s: "min nb (rb_nbytes b) \<le> length s"
  shows "\<exists>b'. ringbuffer_update b RINGBUFFER_WRITE s nb = Inr (b', min nb (rb_nbytes b)) \<and> rb_wf b' \<and>
    rb_contents b' = take (rb_nbytes b - min nb (rb_nbytes b)) (rb_contents b) @ take (min nb (rb_nbytes b)) s"
proof (cases "read_head b \<le> write_head b")
  case True
  let ?n = "min nb (rb_nbytes b)"
  have lin: "write_head b = read_head b + rb_nbytes b" "write_head b < rb_size b"
    using rb_wf_linear [OF wf True room] by auto
  have ls: "length (take ?n s) = ?n" using s by simp
  have "write_head b - ?n = (read_head b + (rb_nbytes b - ?n)) mod rb_size b" using lin by auto
  then obtain m where "mem_write (rb_root b) (write_head b - ?n) (take ?n s) = Inr m"
      "rb_wf (b\<lparr>rb_root := m\<rparr>)"
      "rb_contents (b\<lparr>rb_root := m\<rparr>) = take (rb_nbytes b - ?n) (rb_contents b) @ take ?n s"
    using rb_patch_contents [OF wf, of "rb_nbytes b - ?n" "take ?n s" "write_head b - ?n"] ls lin by auto
  then show ?thesis using True s lin by (auto simp: ringbuffer_update_def Let_def mem_read_ok)
next
  case False
  define n where "n = min nb (rb_nbytes b)"
  define k where "k = min n (write_head b)"
  define j where "j = n - k"
  define bs where "bs = take k (drop j s)"
  have w: "write_head b + rb_size b = read_head b + rb_nbytes b" "read_head b < rb_size b"
    using rb_wf_wrapped [OF wf] False by auto
  have nn: "n \<le> rb_nbytes b" "k \<le> n" "k \<le> write_head b" "j + k = n" "n \<le> length s"
    using s unfolding n_def k_def j_def by linarith+
  have lb: "length bs = k" "length (take j s) = j" using nn by (simp_all add: bs_def)
  have "read_head b + (rb_nbytes b - k) = rb_size b + (write_head b - k)" using w nn by linarith
  moreover have "write_head b - k < rb_size b" using w False by linarith
  ultimately have pos: "write_head b - k = (read_head b + (rb_nbytes b - k)) mod rb_size b"
    by (metis mod_add_self1 mod_less)
  have fit: "rb_nbytes b - k + length bs \<le> rb_nbytes b" "write_head b - k + length bs \<le> rb_size b"
    "rb_nbytes b - k + length bs = rb_nbytes b"
    unfolding lb using nn w False by linarith+
  obtain m where m: "mem_write (rb_root b) (write_head b - k) bs = Inr m"
      "rb_wf (b\<lparr>rb_root := m\<rparr>)"
      "rb_contents (b\<lparr>rb_root := m\<rparr>) = take (rb_nbytes b - k) (rb_contents b) @ bs @
         drop (rb_nbytes b - k + length bs) (rb_contents b)"
    using rb_patch_contents [OF wf fit(1) pos fit(2)] by blast
  have mc: "rb_contents (b\<lparr>rb_root := m\<rparr>) = take (rb_nbytes b - k) (rb_contents b) @ bs"
    using m(3) unfolding fit(3) by simp
  have rd: "mem_read s j k = Inr bs" "mem_read s 0 j = Inr (take j s)"
    using nn by (simp_all add: mem_read_def bs_def)
  show ?thesis
  proof (cases "j = 0")
    case True
    then have "bs = take n s" "k = n" using nn by (simp_all add: bs_def)
    moreover have "ringbuffer_update b RINGBUFFER_WRITE s nb = Inr (b\<lparr>rb_root := m\<rparr>, n)"
      using False True rd m(1) nn
      by (simp add: ringbuffer_update_def Let_def flip: n_def k_def j_def)
    ultimately show ?thesis using m(2) mc
      by (intro exI [of _ "b\<lparr>rb_root := m\<rparr>"]) (simp flip: n_def)
  next
    case more: False
    then have kw: "k = write_head b" by (simp add: j_def k_def min_def split: if_splits)
    have tail: "rb_nbytes b - n + length (take j s) \<le> rb_nbytes b"
        "rb_size b - j + length (take j s) \<le> rb_size b"
        "read_head b + (rb_nbytes b - n) = rb_size b - j" "rb_size b - j < rb_size b"
        "rb_nbytes b - n + j = rb_nbytes b - k" "j \<le> rb_size b - read_head b"
      unfolding lb using w kw nn more by linarith+
    then have pos': "rb_size b - j = (read_head b + (rb_nbytes b - n)) mod rb_size b" by simp
    obtain m' where m': "mem_write m (rb_size b - j) (take j s) = Inr m'"
        "rb_wf (b\<lparr>rb_root := m'\<rparr>)"
        "rb_contents (b\<lparr>rb_root := m'\<rparr>) =
           take (rb_nbytes b - n) (rb_contents (b\<lparr>rb_root := m\<rparr>)) @ take j s @
           drop (rb_nbytes b - n + length (take j s)) (rb_contents (b\<lparr>rb_root := m\<rparr>))"
      using rb_patch_contents [OF m(2), of "rb_nbytes b - n" "take j s" "rb_size b - j"] tail(1,2) pos'
      by auto
    have lc: "length (rb_contents b) = rb_nbytes b" by simp
    have "take n s = take j s @ bs" using take_add [of j k s] nn by (simp add: bs_def)
    then have "rb_contents (b\<lparr>rb_root := m'\<rparr>) = take (rb_nbytes b - n) (rb_contents b) @ take n s"
      using m'(3) lc nn unfolding lb tail(5) mc by (simp add: min_absorb1)
    moreover have "ringbuffer_update b RINGBUFFER_WRITE s nb = Inr (b\<lparr>rb_root := m'\<rparr>, n)"
      using False more rd m(1) m'(1) nn tail(6) rb_usub_size [OF wf]
      by (simp add: ringbuffer_update_def Let_def min_absorb1 flip: n_def k_def j_def)
    ultimately show ?thesis using m'(2)
      by (intro exI [of _ "b\<lparr>rb_root := m'\<rparr>"]) (simp flip: n_def)
  qed
qed

section \<open>The byte queue contract\<close>

definition rb_put :: "ringbuffer_t \<Rightarrow> byte list \<Rightarrow> (ringbuffer_t \<times> nat) res" where
  "rb_put b s = ringbuffer_write b (Some s) (length s)"

definition rb_get :: "ringbuffer_t \<Rightarrow> nat \<Rightarrow> (ringbuffer_t \<times> byte list) res" where
  "rb_get b n = res_bind (ringbuffer_read b True n) (\<lambda>(b', bs, nr). Inr (b', bs))"

interpretation rbq: byte_queue rb_wf rb_contents rb_size rb_put rb_get
proof unfold_locales
  fix b :: ringbuffer_t and s :: "byte list"
  assume "rb_wf b" "length (rb_contents b) < rb_size b \<or> s = []"
  then show "\<exists>b'. rb_put b s = Inr (b', min (length s) (rb_size b - length (rb_contents b))) \<and>
      rb_wf b' \<and> rb_contents b' = rb_contents b @ take (rb_size b - length (rb_contents b)) s \<and>
      rb_size b' = rb_size b"
    using ringbuffer_write_correct [of b "length s" s]
    by (auto simp: rb_put_def rb_wrote_def rb_free_def min_def split: if_splits)
next
  fix b :: ringbuffer_t and n :: nat
  assume "rb_wf b"
  then show "\<exists>b'. rb_get b n = Inr (b', take n (rb_contents b)) \<and> rb_wf b' \<and>
      rb_contents b' = drop n (rb_contents b) \<and> rb_size b' = rb_size b"
    using ringbuffer_read_correct [of b True n]
    by (auto simp: rb_get_def rb_took_def min_def split: if_splits)
next
  fix b :: ringbuffer_t
  assume "rb_wf b"
  then show "length (rb_contents b) \<le> rb_size b" by (simp add: rb_wf_def)
qed

lemma ringbuffer_take_buffer_wf:
  "length buf = n \<Longrightarrow> 0 < n \<Longrightarrow> n < 2 ^ 63 \<Longrightarrow> rb_wf (ringbuffer_take_buffer buf n)"
  "rb_contents (ringbuffer_take_buffer buf n) = []"
  by (simp_all add: rb_wf_def rb_contents_def ringbuffer_take_buffer_def)

section \<open>Properties\<close>

text \<open>
  \<^bold>\<open>C1\<close>. The ring buffer is a byte queue: after any sequence of writes and reads that never writes to
  a full buffer, the buffer has returned exactly the bytes and counts a plain list queue of the same
  capacity returns, has not faulted, is well formed, and holds the bytes of the list.
\<close>

theorem ringbuffer_refines_fifo:
  assumes "rb_wf b" and "fifo_run (rb_size b) (rb_contents b) ops = Some (xs, outs)"
  shows "\<exists>b'. queue_run rb_put rb_get b ops = Inr (b', outs) \<and> rb_wf b' \<and> rb_contents b' = xs \<and>
    rb_size b' = rb_size b"
  using assms by (rule rbq.run_refines)

definition rb_example :: ringbuffer_t where
  "rb_example = \<lparr>rb_root = [7, 8, 9, 10], read_head = 2, write_head = 1, rb_size = 4, rb_nbytes = 3\<rparr>"

lemma rb_example_facts:
  "rb_wf rb_example" "rb_contents rb_example = [9, 10, 7]" "rb_size rb_example = 4"
  "rb_nbytes rb_example = 3" "rb_free rb_example = 1"
  by (simp_all add: rb_example_def rb_wf_def rb_contents_def rb_free_def upt_rec)

theorem ringbuffer_refines_fifo_witness:
  "\<exists>b'. queue_run rb_put rb_get rb_example [Put [1, 2], Get 2, Put [3]] =
      Inr (b', [Inl 1, Inr [9, 10], Inl 1]) \<and> rb_wf b' \<and> rb_contents b' = [7, 1, 3] \<and> rb_size b' = 4"
  using ringbuffer_refines_fifo [of rb_example "[Put [1, 2], Get 2, Put [3]]" "[7, 1, 3]"
      "[Inl 1, Inr [9, 10], Inl 1]"]
  by (simp add: rb_example_facts)

text \<open>
  \<^bold>\<open>C2\<close>. \<open>ringbuffer_ensure_capacity\<close> always returns for sizes a real object can have; it keeps the
  unread bytes in order. On success the requested number of bytes fits and the buffer is not full,
  and the buffer at most doubles what is needed; it fails only when \<open>malloc\<close> fails, and then changes
  nothing.
\<close>

theorem ringbuffer_ensure_capacity_spec:
  assumes "rb_wf b" and "malloc_ok malloc" and "rb_size b < 2 ^ 62" and "rb_nbytes b + sz \<le> 2 ^ 62"
  shows "\<exists>b' ok. ringbuffer_ensure_capacity malloc b sz = Inr (b', ok) \<and> rb_wf b' \<and>
    rb_contents b' = rb_contents b \<and>
    (ok \<longrightarrow> sz \<le> rb_free b' \<and> rb_nbytes b' < rb_size b' \<and>
       rb_size b' \<le> max (rb_size b) (max 128 (2 * (rb_nbytes b + sz)))) \<and>
    (\<not> ok \<longrightarrow> b' = b \<and> (\<exists>n. malloc n = None))"
  using ringbuffer_ensure_capacity_correct [OF assms] unfolding rb_kept_def by blast

theorem ringbuffer_ensure_capacity_spec_witness:
  "\<exists>b' ok. ringbuffer_ensure_capacity zero_malloc rb_example 20 = Inr (b', ok) \<and> rb_wf b' \<and>
    rb_contents b' = [9, 10, 7] \<and> ok \<and> 20 \<le> rb_free b'"
  using ringbuffer_ensure_capacity_spec [of rb_example zero_malloc 20]
  by (auto simp: rb_example_facts zero_malloc_def)

text \<open>
  \<^bold>\<open>C3\<close>. \<open>ringbuffer_append\<close> returns (the loop ends) and moves every unread byte of the source, in
  order, behind the bytes of the destination, whatever the wrap positions of the two buffers, when
  memory does not run out.
\<close>

theorem ringbuffer_append_moves:
  assumes "malloc_ok malloc" and "\<forall>n. malloc n \<noteq> None" and "rb_wf src" and "rb_wf dest"
    and "rb_size dest < 2 ^ 62" and "rb_nbytes src + rb_nbytes dest \<le> 2 ^ 60"
  shows "\<exists>src' dest'. ringbuffer_append malloc src dest = Inr (src', dest') \<and> rb_wf src' \<and>
    rb_contents src' = [] \<and> rb_wf dest' \<and> rb_contents dest' = rb_contents dest @ rb_contents src"
  unfolding ringbuffer_append_def using assms by (intro rb_append_loop_correct) simp_all

theorem ringbuffer_append_moves_witness:
  "\<exists>src' dest'. ringbuffer_append zero_malloc rb_example rb_example = Inr (src', dest') \<and>
    rb_contents src' = [] \<and> rb_contents dest' = [9, 10, 7, 9, 10, 7]"
  using ringbuffer_append_moves [of zero_malloc rb_example rb_example]
  by (auto simp: rb_example_facts zero_malloc_def)

text \<open>
  \<^bold>\<open>C4\<close>. \<open>ringbuffer_update\<close> on a buffer that is not full overwrites bytes in place: from the read
  side the oldest ones, from the write side the newest ones. It overwrites the number of bytes that was asked for or, when
  the buffer holds fewer, all of them, and returns that number; the source is read no further, and the number of bytes held
  never changes.
\<close>

theorem ringbuffer_update_spec:
  assumes "rb_wf b" and "rb_nbytes b < rb_size b" and "min nb (rb_nbytes b) \<le> length s"
  shows "\<exists>b'. ringbuffer_update b dir s nb = Inr (b', min nb (rb_nbytes b)) \<and> rb_wf b' \<and>
    rb_contents b' = (case dir of
        RINGBUFFER_READ \<Rightarrow> take (min nb (rb_nbytes b)) s @ drop nb (rb_contents b)
      | RINGBUFFER_WRITE \<Rightarrow> take (rb_nbytes b - nb) (rb_contents b) @ take (min nb (rb_nbytes b)) s)"
  using ringbuffer_update_read_correct [OF assms] ringbuffer_update_write_correct [OF assms]
  by (cases dir) (auto simp: min_def)

theorem ringbuffer_update_spec_witness:
  "(\<exists>b'. ringbuffer_update rb_example RINGBUFFER_WRITE [1, 2] 2 = Inr (b', 2) \<and> rb_wf b' \<and> rb_contents b' = [9, 1, 2]) \<and>
   (\<exists>b'. ringbuffer_update rb_example RINGBUFFER_READ [1, 2, 3, 4] 4 = Inr (b', 3) \<and> rb_wf b' \<and> rb_contents b' = [1, 2, 3])"
  using ringbuffer_update_spec [of rb_example 2 "[1, 2]" RINGBUFFER_WRITE]
    ringbuffer_update_spec [of rb_example 4 "[1, 2, 3, 4]" RINGBUFFER_READ]
  by (simp add: rb_example_facts)

text \<open>
  \<^bold>\<open>C5\<close>. \<open>ringbuffer_memcpy\<close> copies when the bytes fit the first free run of the destination, and the
  source is not consumed; when the free space is split at the wrap point and the bytes exceed the
  first run, it does not copy but dies in its assertion, although there is room.
\<close>

theorem ringbuffer_memcpy_exactly:
  assumes "rb_wf dst" and "rb_wf src" and "n \<le> rb_nbytes src" and "n < rb_free dst"
  shows "if n \<le> rb_first_run dst
    then \<exists>dst'. ringbuffer_memcpy malloc dst src n = Inr (dst', 0) \<and> rb_wf dst' \<and>
      rb_contents dst' = rb_contents dst @ take n (rb_contents src)
    else ringbuffer_memcpy malloc dst src n = Inl AssertFailed"
proof -
  have ens: "ringbuffer_ensure_capacity malloc dst n = Inr (dst, True)"
    using assms(1,4) by (simp add: ringbuffer_ensure_capacity_def Let_def)
  have "rb_kept dst dst" "rb_nbytes dst < rb_size dst"
    using assms(1,4) by (simp_all add: rb_kept_def rb_free_def)
  with ringbuffer_memcpy_fits [OF assms(1-3) ens] ringbuffer_memcpy_split [OF assms(1-3) ens]
  show ?thesis by simp
qed

definition rb_split :: ringbuffer_t where
  "rb_split = \<lparr>rb_root = [0, 0, 0, 5, 0], read_head = 3, write_head = 4, rb_size = 5, rb_nbytes = 1\<rparr>"

theorem ringbuffer_memcpy_exactly_witness:
  "ringbuffer_memcpy zero_malloc rb_split rb_example 2 = Inl AssertFailed"
proof -
  have "rb_wf rb_split" "rb_free rb_split = 4" "rb_first_run rb_split = 1"
    by (simp_all add: rb_split_def rb_wf_def rb_free_def rb_first_run_def ringbuffer_get_iov_def)
  then show ?thesis
    using ringbuffer_memcpy_exactly [of rb_split rb_example 2 zero_malloc] by (simp add: rb_example_facts)
qed

end
