(* ===== verification/Base64.thy ===== *)
theory Base64
  imports Prelude
begin

text \<open>
  The base 64 codec of \<open>src/strcodecs/base64.cc\<close>. Buffers are byte lists, input and output pointers
  are offsets into them, and the 24 bit groups are the 32 bit words of the source. The reference
  encoding \<open>b64\<close> is the one of RFC 4648. The decoder hands \<open>isspace\<close> a plain \<open>char\<close>; a negative one, for which the C
  library promises nothing, is taken not to be white space, as common libraries have it in the C locale.
\<close>

section \<open>Encoding\<close>

definition b64_code :: "byte list" where
  "b64_code = map c8 ''ABCDEFGHIJKLMNOPQRSTUVWXYZabcdefghijklmnopqrstuvwxyz0123456789+/''"

definition b64_char :: "32 word \<Rightarrow> byte" where
  "b64_char v = b64_code ! unat (v AND 63)"

definition encode_rest :: "byte list \<Rightarrow> nat \<Rightarrow> byte list \<Rightarrow> nat \<Rightarrow> nat \<Rightarrow> (byte list \<times> int) res" where
  "encode_rest s i d out num =
     (if num = 2 then
        res_bind (mem_get s i) (\<lambda>a.
        res_bind (mem_get s (i + 1)) (\<lambda>b.
          let val = (push_bit 16 (ucast a) OR push_bit 8 (ucast b) :: 32 word) in
          res_bind (mem_write d out
             [b64_char (drop_bit 18 val), b64_char (drop_bit 12 val), b64_char (drop_bit 6 val), c8 CHR ''='']) (\<lambda>d'.
          Inr (d', 0))))
      else if num = 1 then
        res_bind (mem_get s i) (\<lambda>a.
          let val = (push_bit 16 (ucast a) :: 32 word) in
          res_bind (mem_write d out
             [b64_char (drop_bit 18 val), b64_char (drop_bit 12 val), c8 CHR ''='', c8 CHR ''='']) (\<lambda>d'.
          Inr (d', 0)))
      else Inr (d, -1))"

definition encode_triplet :: "byte list \<Rightarrow> nat \<Rightarrow> byte list \<Rightarrow> nat \<Rightarrow> (byte list \<times> int) res" where
  "encode_triplet s i d out =
     res_bind (mem_get s i) (\<lambda>a.
     res_bind (mem_get s (i + 1)) (\<lambda>b.
     res_bind (mem_get s (i + 2)) (\<lambda>c.
       let val = (push_bit 16 (ucast a) OR push_bit 8 (ucast b) OR ucast c :: 32 word) in
       res_bind (mem_write d out
          [b64_char (drop_bit 18 val), b64_char (drop_bit 12 val), b64_char (drop_bit 6 val), b64_char val]) (\<lambda>d'.
       Inr (d', 0)))))"

text \<open>The triplet loop; \<open>n\<close> triplets remain, \<open>i\<close> and \<open>out\<close> are the two pointers.\<close>

fun b64_triplets :: "byte list \<Rightarrow> nat \<Rightarrow> byte list \<Rightarrow> nat \<Rightarrow> nat \<Rightarrow> (byte list \<times> int) res" where
  "b64_triplets s i d out 0 = Inr (d, 0)"
| "b64_triplets s i d out (Suc n) =
     res_bind (encode_triplet s i d out) (\<lambda>(d1, rc).
       if rc \<noteq> 0 then Inr (d1, -1) else b64_triplets s (i + 3) d1 (out + 4) n)"

definition lcb_base64_encode :: "byte list \<Rightarrow> nat \<Rightarrow> byte list \<Rightarrow> nat \<Rightarrow> (byte list \<times> int) res" where
  "lcb_base64_encode src len dst sz =
     (let triplets = len div 3; rest = len mod 3 in
      if sz < (triplets + 1) * 4 then Inr (dst, -1)
      else res_bind (b64_triplets src 0 dst 0 triplets) (\<lambda>(d1, rc).
        if rc \<noteq> 0 then Inr (d1, -1)
        else if 0 < rest then
          res_bind (encode_rest src (3 * triplets) d1 (4 * triplets) rest) (\<lambda>(d2, rc).
            if rc \<noteq> 0 then Inr (d2, -1)
            else res_bind (mem_set d2 (4 * triplets + 4) 0) (\<lambda>d3. Inr (d3, 0)))
        else res_bind (mem_set d1 (4 * triplets) 0) (\<lambda>d3. Inr (d3, 0))))"

text \<open>The result holds the return code and, when it is zero, the buffer and the length stored.\<close>

definition lcb_base64_encode2 :: "c_malloc \<Rightarrow> byte list \<Rightarrow> nat \<Rightarrow> (int \<times> (byte list \<times> nat) option) res" where
  "lcb_base64_encode2 calloc src nsrc =
     (let len = (nsrc div 3 + 1) * 4 + 1 in
      case calloc len of
        None \<Rightarrow> Inl NullPointer
      | Some ptr \<Rightarrow>
          res_bind (lcb_base64_encode src nsrc ptr len) (\<lambda>(p, rc).
            if rc = 0 then res_bind (c_strlen p) (\<lambda>n. Inr (rc, Some (p, n)))
            else Inr (rc, None)))"

text \<open>
  The scatter variant reads its bytes through a cursor \<open>(io, iop)\<close> over the vectors. The cursor moves
  to the next vector when the current one is exhausted, once, without looking at its length.
\<close>

definition iov_fetch :: "byte list list \<Rightarrow> nat \<times> nat \<Rightarrow> (byte \<times> nat \<times> nat) res" where
  "iov_fetch iov pos =
     res_bind (mem_get iov (fst pos)) (\<lambda>v.
       let (io, iop) = (if length v \<le> snd pos then (fst pos + 1, 0) else pos) in
       res_bind (mem_get iov io) (\<lambda>w. res_bind (mem_get w iop) (\<lambda>x. Inr (x, io, iop + 1))))"

fun iov_fetchn :: "byte list list \<Rightarrow> nat \<times> nat \<Rightarrow> nat \<Rightarrow> (byte list \<times> nat \<times> nat) res" where
  "iov_fetchn iov pos 0 = Inr ([], pos)"
| "iov_fetchn iov pos (Suc n) =
     res_bind (iov_fetch iov pos) (\<lambda>(x, pos1).
     res_bind (iov_fetchn iov pos1 n) (\<lambda>(xs, pos2). Inr (x # xs, pos2)))"

fun iov_triplets :: "byte list list \<Rightarrow> nat \<times> nat \<Rightarrow> byte list \<Rightarrow> nat \<Rightarrow> nat \<Rightarrow> (byte list \<times> nat \<times> nat) res" where
  "iov_triplets iov pos d out 0 = Inr (d, pos)"
| "iov_triplets iov pos d out (Suc n) =
     res_bind (iov_fetchn iov pos 3) (\<lambda>(triplet, pos1).
     res_bind (encode_triplet triplet 0 d out) (\<lambda>(d1, rc). iov_triplets iov pos1 d1 (out + 4) n))"

text \<open>The results are the buffer and the length, which is narrowed from \<open>size_t\<close> to \<open>int\<close>.\<close>

definition lcb_base64_encode_iov :: "c_malloc \<Rightarrow> byte list list \<Rightarrow> nat \<Rightarrow> (byte list \<times> int) res" where
  "lcb_base64_encode_iov calloc iov nb =
     (let total = sum_list (map length iov) mod 2 ^ 64; nsrc = (if nb < total then nb else total);
          len = (nsrc div 3 + 1) * 4 + 1; triplets = nsrc div 3; rest = nsrc mod 3 in
      case calloc len of
        None \<Rightarrow> Inl NullPointer
      | Some ptr \<Rightarrow>
          res_bind (iov_triplets iov (0, 0) ptr 0 triplets) (\<lambda>(d1, pos).
          res_bind
            (if 0 < rest then
               res_bind (iov_fetchn iov pos rest) (\<lambda>(xs, pos').
               res_bind (encode_rest (xs @ replicate (3 - rest) 0) 0 d1 (4 * triplets) rest) (\<lambda>(d2, rc). Inr d2))
             else Inr d1) (\<lambda>d2.
          res_bind (mem_set d2 (4 * triplets) 0) (\<lambda>d3.
          res_bind (c_strlen d3) (\<lambda>n. Inr (d3, to_int n))))))"

section \<open>Decoding\<close>

definition code2val :: "byte \<Rightarrow> int" where
  "code2val c =
     (if c8 CHR ''A'' \<le> c \<and> c \<le> c8 CHR ''Z'' then uint c - uint (c8 CHR ''A'')
      else if c8 CHR ''a'' \<le> c \<and> c \<le> c8 CHR ''z'' then uint c - uint (c8 CHR ''a'') + 26
      else if c8 CHR ''0'' \<le> c \<and> c \<le> c8 CHR ''9'' then uint c - uint (c8 CHR ''0'') + 52
      else if c = c8 CHR ''+'' then 62
      else if c = c8 CHR ''/'' then 63
      else -1)"

text \<open>
  One group of four characters: \<open>None\<close> when it is malformed, otherwise the 24 bit value and the
  number of bytes it stands for.
\<close>

definition b64_group :: "byte \<Rightarrow> byte \<Rightarrow> byte \<Rightarrow> byte \<Rightarrow> (32 word \<times> nat) option" where
  "b64_group c0 c1 c2 c3 =
     (if code2val c0 < 0 \<or> code2val c1 < 0 then None
      else
        let value = push_bit 18 (word_of_int (code2val c0)) OR push_bit 12 (word_of_int (code2val c1)) in
        if c2 = c8 CHR ''='' then Some (value, 1)
        else if code2val c2 < 0 then None
        else
          let value = value OR push_bit 6 (word_of_int (code2val c2)) in
          if c3 = c8 CHR ''='' then Some (value, 2)
          else if code2val c3 < 0 then None
          else Some (value OR word_of_int (code2val c3), 3))"

text \<open>
  Storing the bytes of a group one by one, with the bound test before each of them; the index is
  \<open>None\<close> when the test fails.
\<close>

fun b64_store :: "byte list \<Rightarrow> nat \<Rightarrow> nat \<Rightarrow> byte list \<Rightarrow> (byte list \<times> nat option) res" where
  "b64_store dst ndst idx [] = Inr (dst, Some idx)"
| "b64_store dst ndst idx (b # bs) =
     (if ndst \<le> idx then Inr (dst, None)
      else res_bind (mem_set dst idx b) (\<lambda>d. b64_store d ndst (idx + 1) bs))"

definition b64_bytes :: "32 word \<Rightarrow> nat \<Rightarrow> byte list" where
  "b64_bytes value ins = take ins [ucast (drop_bit 16 value), ucast (drop_bit 8 value), ucast value]"

text \<open>The decoding loop returns the buffer and the final index, \<open>None\<close> for the early \<open>return -1\<close>.\<close>

function b64_decode_loop ::
  "byte list \<Rightarrow> nat \<Rightarrow> nat \<Rightarrow> byte list \<Rightarrow> nat \<Rightarrow> nat \<Rightarrow> (byte list \<times> nat option) res" where
  "b64_decode_loop src nsrc offset dst ndst idx =
     (if nsrc \<le> offset then Inr (dst, Some idx)
      else res_bind (mem_get src offset) (\<lambda>c0.
        if c_isspace c0 then b64_decode_loop src nsrc (offset + 1) dst ndst idx
        else if nsrc < offset + 4 then Inr (dst, None)
        else res_bind (mem_get src (offset + 1)) (\<lambda>c1.
             res_bind (mem_get src (offset + 2)) (\<lambda>c2.
             res_bind (mem_get src (offset + 3)) (\<lambda>c3.
               case b64_group c0 c1 c2 c3 of
                 None \<Rightarrow> Inr (dst, None)
               | Some (value, ins) \<Rightarrow>
                   res_bind (b64_store dst ndst idx (b64_bytes value ins)) (\<lambda>(d, r).
                     case r of
                       None \<Rightarrow> Inr (d, None)
                     | Some idx' \<Rightarrow> b64_decode_loop src nsrc (offset + 4) d ndst idx'))))))"
  by pat_completeness auto
termination
  by (relation "measure (\<lambda>(src, nsrc, offset, dst, ndst, idx). nsrc - offset)") auto

declare b64_decode_loop.simps [simp del]

definition lcb_base64_decode :: "byte list \<Rightarrow> nat \<Rightarrow> byte list \<Rightarrow> nat \<Rightarrow> (byte list \<times> int) res" where
  "lcb_base64_decode src nsrc dst ndst =
     (if nsrc = 0 then res_bind (mem_set dst 0 0) (\<lambda>d. Inr (d, 0))
      else res_bind (b64_decode_loop src nsrc 0 dst ndst 0) (\<lambda>(d, r).
        case r of
          None \<Rightarrow> Inr (d, -1)
        | Some idx \<Rightarrow> res_bind (mem_set d (idx + 1) 0) (\<lambda>d'. Inr (d', int idx))))"

definition lcb_base64_decode2 :: "c_malloc \<Rightarrow> byte list \<Rightarrow> nat \<Rightarrow> (int \<times> (byte list \<times> nat) option) res" where
  "lcb_base64_decode2 calloc src nsrc =
     (let len = nsrc * 3 div 4 + 3 in
      case calloc len of
        None \<Rightarrow> Inl NullPointer
      | Some ptr \<Rightarrow>
          res_bind (lcb_base64_decode src nsrc ptr len) (\<lambda>(p, rc).
            if rc < 0 then Inr (rc, None) else Inr (rc, Some (p, nat rc))))"

section \<open>The reference encoding\<close>

definition b64_digit :: "nat \<Rightarrow> byte" where
  "b64_digit n = b64_code ! (n mod 64)"

fun b64 :: "byte list \<Rightarrow> byte list" where
  "b64 [] = []"
| "b64 [a] =
     (let n = 65536 * unat a in [b64_digit (n div 262144), b64_digit (n div 4096), 61, 61])"
| "b64 [a, b] =
     (let n = 65536 * unat a + 256 * unat b in
      [b64_digit (n div 262144), b64_digit (n div 4096), b64_digit (n div 64), 61])"
| "b64 (a # b # c # s) =
     (let n = 65536 * unat a + 256 * unat b + unat c in
      [b64_digit (n div 262144), b64_digit (n div 4096), b64_digit (n div 64), b64_digit n]) @ b64 s"

lemma b64_char_digit: "b64_char (drop_bit k v) = b64_digit (unat v div 2 ^ k)"
proof -
  have "drop_bit k v AND 63 = take_bit 6 (drop_bit k v)" by (simp add: take_bit_eq_mask mask_eq_exp_minus_1)
  moreover have "unat v < 2 ^ 32" using unsigned_less [of v] by simp
  ultimately have "unat (drop_bit k v AND 63) = unat v div 2 ^ k mod 64"
    by (simp only: unsigned_take_bit_eq unsigned_drop_bit_eq) (simp add: drop_bit_eq_div take_bit_eq_mod)
  then show ?thesis by (simp add: b64_char_def b64_digit_def)
qed

lemma b64_char_digit0: "b64_char v = b64_digit (unat v)"
  using b64_char_digit [of 0 v] by simp

lemma b64_pack:
  fixes a b c :: byte
  shows "unat (push_bit 16 (ucast a) OR push_bit 8 (ucast b) OR ucast c :: 32 word) =
    65536 * unat a + 256 * unat b + unat c"
proof -
  have "unat (ucast c :: 32 word) = unat c" using unat_push_ucast [of 0 c] by simp
  then show ?thesis using unat_byte_less [of b] unat_byte_less [of c]
    by (simp add: unsigned_or_eq unat_push_ucast or_push_bit)
qed

lemma b64_pack2:
  fixes a b :: byte
  shows "unat (push_bit 16 (ucast a) OR push_bit 8 (ucast b) :: 32 word) = 65536 * unat a + 256 * unat b"
  using b64_pack [of a b 0] by simp

lemma b64_pack1: "unat (push_bit 16 (ucast (a::byte)) :: 32 word) = 65536 * unat a"
  using b64_pack [of a 0 0] by simp

lemma b64_code_bytes:
  "b64_code = [65, 66, 67, 68, 69, 70, 71, 72, 73, 74, 75, 76, 77, 78, 79, 80, 81, 82, 83, 84, 85, 86, 87, 88,
     89, 90, 97, 98, 99, 100, 101, 102, 103, 104, 105, 106, 107, 108, 109, 110, 111, 112, 113, 114,
     115, 116, 117, 118, 119, 120, 121, 122, 48, 49, 50, 51, 52, 53, 54, 55, 56, 57, 43, 47]"
  by (simp add: b64_code_def c8_def)

lemma b64_code_values: "map code2val b64_code = map int [0..<64]"
  by (simp add: b64_code_bytes code2val_def c8_def upt_rec)

lemma b64_code_chars: "list_all (\<lambda>c. c \<noteq> 61 \<and> c \<noteq> 0 \<and> \<not> c_isspace c) b64_code"
  by (simp add: b64_code_bytes c_isspace_def)

lemma b64_digit_facts [simp]:
  "code2val (b64_digit n) = int (n mod 64)" "b64_digit n \<noteq> 61" "b64_digit n \<noteq> 0" "0 \<noteq> b64_digit n"
  "\<not> c_isspace (b64_digit n)"
proof -
  have len: "length b64_code = 64" by (simp add: b64_code_bytes)
  have "code2val (b64_code ! (n mod 64)) = map code2val b64_code ! (n mod 64)" using len by simp
  then show "code2val (b64_digit n) = int (n mod 64)" by (simp add: b64_digit_def b64_code_values)
  have "b64_digit n \<in> set b64_code" using len by (simp add: b64_digit_def)
  then show "b64_digit n \<noteq> 61" "b64_digit n \<noteq> 0" "0 \<noteq> b64_digit n" "\<not> c_isspace (b64_digit n)"
    using b64_code_chars by (auto simp: list_all_iff)
qed

section \<open>Encoding produces the reference encoding\<close>

lemma b64_groups:
  fixes a b c :: byte
  shows "(let val = (push_bit 16 (ucast a) OR push_bit 8 (ucast b) OR ucast c :: 32 word) in
      [b64_char (drop_bit 18 val), b64_char (drop_bit 12 val), b64_char (drop_bit 6 val), b64_char val]) =
      b64 [a, b, c]"
    and "(let val = (push_bit 16 (ucast a) OR push_bit 8 (ucast b) :: 32 word) in
      [b64_char (drop_bit 18 val), b64_char (drop_bit 12 val), b64_char (drop_bit 6 val), c8 CHR ''='']) =
      b64 [a, b]"
    and "(let val = (push_bit 16 (ucast a) :: 32 word) in
      [b64_char (drop_bit 18 val), b64_char (drop_bit 12 val), c8 CHR ''='', c8 CHR ''='']) = b64 [a]"
  unfolding Let_def b64_char_digit
  unfolding b64_char_digit0 b64_pack b64_pack2 b64_pack1 b64.simps append_Nil2
  by (simp_all add: c8_def Let_def)

lemma encode_triplet_ok:
  assumes "i + 3 \<le> length s" and "out + 4 \<le> length d"
  shows "encode_triplet s i d out =
    Inr (take out d @ b64 [s ! i, s ! (i + 1), s ! (i + 2)] @ drop (out + 4) d, 0)"
proof -
  have get: "mem_get s i = Inr (s ! i)" "mem_get s (i + 1) = Inr (s ! (i + 1))"
      "mem_get s (i + 2) = Inr (s ! (i + 2))"
    using assms(1) by (simp_all add: mem_get_def)
  have "length (b64 [a, b, c]) = 4" for a b c by (simp add: Let_def)
  then show ?thesis unfolding encode_triplet_def get res_bind_simps b64_groups [unfolded Let_def] Let_def
    using assms(2) by (simp add: mem_write_def del: b64.simps)
qed

lemma encode_rest_ok:
  assumes "out + 4 \<le> length d" and "i + num \<le> length s" and "num = 1 \<or> num = 2"
  shows "encode_rest s i d out num = Inr (take out d @ b64 (take num (drop i s)) @ drop (out + 4) d, 0)"
proof -
  have get: "mem_get s i = Inr (s ! i)" "num = 2 \<Longrightarrow> mem_get s (i + 1) = Inr (s ! (i + 1))"
    using assms(2,3) by (auto simp: mem_get_def)
  have "length (b64 [a]) = 4" "length (b64 [a, b]) = 4" for a b by (simp_all add: Let_def)
  moreover have "take 1 (drop i s) = [s ! i]" if "num = 1"
    using that assms(2) by (simp add: take_Suc_conv_app_nth)
  moreover have "take 2 (drop i s) = [s ! i, s ! (i + 1)]" if "num = 2"
    using that assms(2) by (simp add: numeral_2_eq_2 take_Suc_conv_app_nth)
  ultimately show ?thesis
    using assms(1,3) get unfolding encode_rest_def b64_groups [unfolded Let_def] Let_def
    by (auto simp: mem_write_def simp del: b64.simps)
qed

lemma b64_append: "length xs mod 3 = 0 \<Longrightarrow> b64 (xs @ ys) = b64 xs @ b64 ys"
proof (induction xs rule: b64.induct)
  case (4 a b c s)
  then show ?case by (simp add: Let_def mod_Suc split: if_splits)
qed simp_all

lemma b64_length: "length (b64 s) = 4 * ((length s + 2) div 3)"
proof (induction s rule: b64.induct)
  case (4 a b c s)
  have "(5 + length s) div 3 = Suc (Suc (Suc (length s)) div 3)" by presburger
  with 4 show ?case by (simp add: Let_def)
qed (simp_all add: Let_def)

lemma b64_no_nul: "0 \<notin> set (b64 s)"
  by (induction s rule: b64.induct) (auto simp: Let_def)

lemma b64_triplets_ok:
  assumes "i + 3 * n \<le> length s" and "out + 4 * n \<le> length d"
  shows "b64_triplets s i d out n =
    Inr (take out d @ b64 (take (3 * n) (drop i s)) @ drop (out + 4 * n) d, 0)"
  using assms
proof (induction n arbitrary: i d out)
  case 0
  then show ?case by simp
next
  case (Suc n)
  let ?q = "b64 [s ! i, s ! (i + 1), s ! (i + 2)]"
  let ?d = "take out d @ ?q @ drop (out + 4) d"
  have lq: "length ?q = 4" by (simp add: Let_def)
  have tr: "encode_triplet s i d out = Inr (?d, 0)" using Suc.prems by (intro encode_triplet_ok) auto
  have ih: "b64_triplets s (i + 3) ?d (out + 4) n =
      Inr (take (out + 4) ?d @ b64 (take (3 * n) (drop (i + 3) s)) @ drop (out + 4 + 4 * n) ?d, 0)"
    using Suc.prems lq by (intro Suc.IH) auto
  have e: "out + 4 * Suc n = out + 4 + 4 * n" by simp
  have td: "take (out + 4) ?d = take out d @ ?q" "drop (out + 4 + 4 * n) ?d = drop (out + 4 * Suc n) d"
    unfolding e using Suc.prems lq by (simp_all del: b64.simps add: add.commute [of "4 * n"])
  have tk: "take (3 * Suc n) (drop i s) = [s ! i, s ! (i + 1), s ! (i + 2)] @ take (3 * n) (drop (i + 3) s)"
  proof -
    have "3 * Suc n = Suc (Suc (Suc (3 * n)))" by simp
    then show ?thesis using drop_three [of i s] Suc.prems(1) by (simp only: take_Suc_Cons append.simps)
  qed
  have bq: "b64 (take (3 * Suc n) (drop i s)) = ?q @ b64 (take (3 * n) (drop (i + 3) s))"
    unfolding tk by (rule b64_append) simp
  show ?case unfolding b64_triplets.simps tr res_bind_simps prod.case ih td bq by (simp del: b64.simps)
qed

lemma mem_set_at: "i = length xs \<Longrightarrow> mem_set (xs @ y # ys) i x = Inr (xs @ x # ys)"
  by (simp add: mem_set_def)

lemma lcb_base64_encode_ok:
  assumes len: "len \<le> length src" and room: "4 * ((len + 2) div 3) < length dst"
    and sz: "(len div 3 + 1) * 4 \<le> sz"
  shows "lcb_base64_encode src len dst sz =
    Inr (b64 (take len src) @ 0 # drop (4 * ((len + 2) div 3) + 1) dst, 0)"
proof -
  define t where "t = len div 3"
  define r where "r = len mod 3"
  define x where "x = take (3 * t) src"
  define y where "y = take r (drop (3 * t) src)"
  have lt: "3 * t + r = len" "r < 3" by (simp_all add: t_def r_def)
  have len2: "(len + 2) div 3 = (if r = 0 then t else t + 1)" using lt by auto
  have lx: "length x = 3 * t" "length y = r" using len lt by (simp_all add: x_def y_def)
  have la: "length (b64 x) = 4 * t" using lx by (simp add: b64_length)
  have whole: "b64 (take len src) = b64 x @ b64 y"
    using take_add [of "3 * t" r src] lt(1) lx(1) by (simp add: x_def y_def b64_append)
  have dt: "4 * t \<le> length dst" using room len2 by (simp split: if_splits)
  have tr: "b64_triplets src 0 dst 0 t = Inr (b64 x @ drop (4 * t) dst, 0)"
    using b64_triplets_ok [of 0 t src 0 dst] len lt dt by (simp add: x_def)
  show ?thesis
  proof (cases "r = 0")
    case True
    then have "drop (4 * t) dst = dst ! (4 * t) # drop (4 * t + 1) dst"
      using room len2 by (simp add: Cons_nth_drop_Suc)
    moreover have "mem_set (b64 x @ z # zs) (4 * t) 0 = Inr (b64 x @ 0 # zs)" for z zs
      using la by (simp add: mem_set_at)
    moreover have "b64 y = []" using True lx by simp
    ultimately show ?thesis using tr sz True whole len2
      unfolding lcb_base64_encode_def t_def [symmetric] r_def [symmetric] Let_def by simp
  next
    case False
    then have r: "r = 1 \<or> r = 2" using lt(2) by linarith
    have lb: "length (b64 y) = 4" using r lx(2) by (auto simp: b64_length)
    have room': "4 * t + 4 < length dst" using room len2 False by simp
    define zs where "zs = drop (Suc (4 * t + 4)) dst"
    define z where "z = dst ! (4 * t + 4)"
    have nx: "drop (4 * t + 4) dst = z # zs"
      unfolding zs_def z_def using room' by (simp only: Cons_nth_drop_Suc)
    have cut: "drop (4 * t + 4) (b64 x @ drop (4 * t) dst) = drop (4 * t + 4) dst"
      "take (4 * t) (b64 x @ drop (4 * t) dst) = b64 x"
      using la by (simp_all add: add.commute)
    have fits: "4 * t + 4 \<le> length (b64 x @ drop (4 * t) dst)" "3 * t + r \<le> length src"
      using la room' lt len by simp_all
    have rest: "encode_rest src (3 * t) (b64 x @ drop (4 * t) dst) (4 * t) r =
        Inr (b64 x @ b64 y @ z # zs, 0)"
      using encode_rest_ok [OF fits r] unfolding cut nx y_def .
    have fin: "mem_set (b64 x @ b64 y @ z # zs) (4 * t + 4) 0 = Inr (b64 x @ b64 y @ 0 # zs)"
      using mem_set_at [of "4 * t + 4" "b64 x @ b64 y" z zs 0] la lb by simp
    have e: "4 * ((len + 2) div 3) + 1 = Suc (4 * t + 4)" using len2 False by simp
    have "\<not> sz < (t + 1) * 4" using sz by (simp add: t_def)
    then show ?thesis
      unfolding lcb_base64_encode_def t_def [symmetric] r_def [symmetric] Let_def e whole zs_def [symmetric]
      using False by (simp add: tr rest fin)
  qed
qed

section \<open>Decoding inverts the reference encoding\<close>

lemma unat_push_small:
  assumes "a < 64" and "k \<le> 18"
  shows "unat (push_bit k (word_of_nat a) :: 32 word) = push_bit k a"
proof -
  have "(2::nat) ^ k \<le> 2 ^ 18" using assms(2) by (intro power_increasing) auto
  with assms(1) have "a * 2 ^ k < 64 * 2 ^ 18" by (intro mult_less_le_imp_less) auto
  moreover have "unat (word_of_nat a :: 32 word) = a"
    using assms(1) by (simp add: unsigned_of_nat take_bit_eq_mod)
  ultimately show ?thesis
    by (simp only: unsigned_push_bit_eq) (simp add: push_bit_eq_mult take_bit_eq_mod)
qed

lemma b64_value:
  assumes "a < 64" and "b < 64" and "c < 64" and "d < 64"
  shows "unat (((push_bit 18 (word_of_nat a) OR push_bit 12 (word_of_nat b)) OR
      push_bit 6 (word_of_nat c)) OR word_of_nat d :: 32 word) =
    262144 * a + 4096 * b + 64 * c + d"
proof -
  have "unat (word_of_nat d :: 32 word) = d" using unat_push_small [of d 0] assms(4) by simp
  with assms show ?thesis
    by (simp add: or.assoc unsigned_or_eq unat_push_small or_push_bit)
qed

lemma base64_digits:
  fixes n :: nat
  assumes "n < 64 * 262144"
  shows "262144 * (n div 2 ^ 18 mod 64) + 4096 * (n div 2 ^ 12 mod 64) + 64 * (n div 2 ^ 6 mod 64) + n mod 64 = n"
proof -
  define p where "p = n div 64"
  define q where "q = p div 64"
  define r where "r = q div 64"
  have "n div 2 ^ 6 = p" "n div 2 ^ 12 = q" "n div 2 ^ 18 = r"
    by (simp_all add: p_def q_def r_def flip: div_mult2_eq)
  moreover have "n = 64 * p + n mod 64" "p = 64 * q + p mod 64" "q = 64 * r + q mod 64"
    by (simp_all add: p_def q_def r_def)
  moreover have "r < 64" using assms by (simp add: r_def q_def p_def less_mult_imp_div_less flip: div_mult2_eq)
  ultimately show ?thesis by simp
qed

lemma b64_unpack:
  fixes v :: "32 word" and a b c :: byte
  assumes "unat v = 65536 * unat a + 256 * unat b + unat c"
  shows "ucast (drop_bit 16 v) = a" "ucast (drop_bit 8 v) = b" "ucast v = c"
proof -
  have l: "unat a < 256" "unat b < 256" "unat c < 256" "unat v < 2 ^ 32"
    using unat_byte_less unsigned_less [of v] by simp_all
  have un: "unat (ucast (drop_bit k v) :: byte) = unat v div 2 ^ k mod 256" for k
    using l(4) by (simp only: unsigned_ucast_eq unsigned_drop_bit_eq)
      (simp add: drop_bit_eq_div take_bit_eq_mod)
  have "unat (ucast (drop_bit 16 v) :: byte) = unat a" unfolding un assms using l by simp
  then show "ucast (drop_bit 16 v) = a" by (rule word_unat_eq_iff [THEN iffD2])
  have "(65536 * unat a + 256 * unat b + unat c) div 2 ^ 8 = 256 * unat a + unat b"
    by (rule div_nat_eqI) (use l in auto)
  then have "unat (ucast (drop_bit 8 v) :: byte) = unat b" unfolding un assms using l by simp
  then show "ucast (drop_bit 8 v) = b" by (rule word_unat_eq_iff [THEN iffD2])
  have "(65536 * unat a + 256 * unat b + unat c) = unat c + 256 * (256 * unat a + unat b)" by simp
  then have "(65536 * unat a + 256 * unat b + unat c) mod 256 = unat c" using l by (simp only: mod_mult_self2) simp
  then have "unat (ucast v :: byte) = unat c" using un [of 0] assms by simp
  then show "ucast v = c" by (rule word_unat_eq_iff [THEN iffD2])
qed

text \<open>What one group of four characters of the reference encoding decodes to.\<close>

lemma b64_group_full:
  fixes a b c :: byte
  defines "n \<equiv> 65536 * unat a + 256 * unat b + unat c"
  shows "\<exists>v. b64_group (b64_digit (n div 262144)) (b64_digit (n div 4096)) (b64_digit (n div 64)) (b64_digit n) =
    Some (v, 3) \<and> b64_bytes v 3 = [a, b, c]"
proof -
  let ?w = "\<lambda>k. word_of_nat (n div 2 ^ k mod 64) :: 32 word"
  let ?v = "((push_bit 18 (?w 18) OR push_bit 12 (?w 12)) OR push_bit 6 (?w 6)) OR ?w 0"
  have lt: "n < 64 * 262144" using unat_byte_less [of a] unat_byte_less [of b] unat_byte_less [of c]
    by (simp add: n_def)
  have "unat ?v = 262144 * (n div 2 ^ 18 mod 64) + 4096 * (n div 2 ^ 12 mod 64) +
      64 * (n div 2 ^ 6 mod 64) + n div 2 ^ 0 mod 64"
    by (rule b64_value) simp_all
  also have "\<dots> = n" using base64_digits [OF lt] by (simp only: power_0 div_by_1)
  finally have "unat ?v = 65536 * unat a + 256 * unat b + unat c" by (simp add: n_def)
  from b64_unpack [OF this] have "b64_bytes ?v 3 = [a, b, c]" by (simp add: b64_bytes_def)
  moreover have "b64_group (b64_digit (n div 262144)) (b64_digit (n div 4096)) (b64_digit (n div 64))
      (b64_digit n) = Some (?v, 3)"
    by (simp add: b64_group_def Let_def c8_def)
  ultimately show ?thesis by blast
qed

lemma b64_group_two:
  fixes a b :: byte
  defines "n \<equiv> 65536 * unat a + 256 * unat b"
  shows "\<exists>v. b64_group (b64_digit (n div 262144)) (b64_digit (n div 4096)) (b64_digit (n div 64)) 61 =
    Some (v, 2) \<and> b64_bytes v 2 = [a, b]"
proof -
  let ?w = "\<lambda>k. word_of_nat (n div 2 ^ k mod 64) :: 32 word"
  let ?v = "(push_bit 18 (?w 18) OR push_bit 12 (?w 12)) OR push_bit 6 (?w 6)"
  have lt: "n < 64 * 262144" "n mod 64 = 0" using unat_byte_less [of a] unat_byte_less [of b]
    by (simp_all add: n_def)
  have "unat (?v OR word_of_nat 0) = 262144 * (n div 2 ^ 18 mod 64) + 4096 * (n div 2 ^ 12 mod 64) +
      64 * (n div 2 ^ 6 mod 64) + 0"
    by (rule b64_value) simp_all
  also have "\<dots> = n" using base64_digits [OF lt(1)] unfolding lt(2) .
  finally have "unat ?v = 65536 * unat a + 256 * unat b + unat (0 :: byte)" by (simp add: n_def)
  from b64_unpack [OF this] have "b64_bytes ?v 2 = [a, b]" by (simp add: b64_bytes_def)
  moreover have "b64_group (b64_digit (n div 262144)) (b64_digit (n div 4096)) (b64_digit (n div 64)) 61 =
      Some (?v, 2)"
    by (simp add: b64_group_def Let_def c8_def)
  ultimately show ?thesis by blast
qed

lemma b64_group_one:
  fixes a :: byte
  defines "n \<equiv> 65536 * unat a"
  shows "\<exists>v. b64_group (b64_digit (n div 262144)) (b64_digit (n div 4096)) 61 61 = Some (v, 1) \<and>
    b64_bytes v 1 = [a]"
proof -
  let ?w = "\<lambda>k. word_of_nat (n div 2 ^ k mod 64) :: 32 word"
  let ?v = "push_bit 18 (?w 18) OR push_bit 12 (?w 12)"
  have "n = 64 * (1024 * unat a)" "n = 64 * 64 * (16 * unat a)" by (simp_all add: n_def)
  then have lt: "n < 64 * 262144" "n mod 64 = 0" "n div 2 ^ 6 mod 64 = 0"
    using unat_byte_less [of a] by simp_all
  have "unat ((?v OR push_bit 6 (word_of_nat 0)) OR word_of_nat 0) =
      262144 * (n div 2 ^ 18 mod 64) + 4096 * (n div 2 ^ 12 mod 64) + 64 * 0 + 0"
    by (rule b64_value) simp_all
  also have "\<dots> = n" using base64_digits [OF lt(1)] unfolding lt(2,3) .
  finally have "unat ?v = 65536 * unat a + 256 * unat (0 :: byte) + unat (0 :: byte)" by (simp add: n_def)
  from b64_unpack [OF this] have "b64_bytes ?v 1 = [a]" by (simp add: b64_bytes_def)
  moreover have "b64_group (b64_digit (n div 262144)) (b64_digit (n div 4096)) 61 61 = Some (?v, 1)"
    by (simp add: b64_group_def Let_def c8_def)
  ultimately show ?thesis by blast
qed

lemma b64_store_ok:
  assumes "idx + length bs \<le> ndst" and "ndst \<le> length dst"
  shows "b64_store dst ndst idx bs = Inr (take idx dst @ bs @ drop (idx + length bs) dst, Some (idx + length bs))"
  using assms
proof (induction bs arbitrary: dst idx)
  case (Cons b bs)
  have "b64_store (dst[idx := b]) ndst (idx + 1) bs =
      Inr (take (idx + 1) (dst[idx := b]) @ bs @ drop (idx + 1 + length bs) (dst[idx := b]), Some (idx + 1 + length bs))"
    using Cons.prems by (intro Cons.IH) auto
  moreover have "take (idx + 1) (dst[idx := b]) = take idx dst @ [b]"
    using Cons.prems by (simp add: take_Suc_conv_app_nth)
  ultimately show ?case using Cons.prems by (simp add: mem_set_def)
qed simp

lemma b64_decode_group:
  assumes "b64_group c0 c1 c2 c3 = Some (v, k)" and "b64_bytes v k = bs" and "\<not> c_isspace c0"
    and "take 4 (drop off src) = [c0, c1, c2, c3]" and "off + 4 \<le> nsrc" and "nsrc \<le> length src"
    and "idx + length bs \<le> ndst" and "ndst \<le> length dst"
  shows "b64_decode_loop src nsrc off dst ndst idx =
    b64_decode_loop src nsrc (off + 4) (take idx dst @ bs @ drop (idx + length bs) dst) ndst (idx + length bs)"
proof -
  have "take 4 (drop off src) ! i = src ! (off + i)" if "i < 4" for i
    using that assms(5,6) by simp
  from this [of 0] this [of 1] this [of 2] this [of 3]
  have "src ! off = c0" "src ! (off + 1) = c1" "src ! (off + 2) = c2" "src ! (off + 3) = c3"
    unfolding assms(4) by simp_all
  then have "mem_get src off = Inr c0" "mem_get src (off + 1) = Inr c1" "mem_get src (off + 2) = Inr c2"
      "mem_get src (off + 3) = Inr c3"
    using assms(5,6) by (simp_all add: mem_get_def)
  then show ?thesis
    using assms(1-3,5) b64_store_ok [OF assms(7,8)]
    by (subst b64_decode_loop.simps) simp
qed

lemma b64_decode_ok:
  assumes "src = p @ b64 s @ u" and "off = length p" and "nsrc = length p + length (b64 s)"
    and "idx + length s \<le> ndst" and "ndst \<le> length dst"
  shows "b64_decode_loop src nsrc off dst ndst idx =
    Inr (take idx dst @ s @ drop (idx + length s) dst, Some (idx + length s))"
  using assms
proof (induction s arbitrary: p off dst idx rule: b64.induct)
  case 1
  then show ?case by (simp add: b64_decode_loop.simps)
next
  case (2 a)
  then show ?case using b64_group_one [of a]
    by (auto simp: Let_def b64_decode_group [where bs = "[a]"] b64_decode_loop.simps [of _ _ "length p + 4"])
next
  case (3 a b)
  then show ?case using b64_group_two [of a b]
    by (auto simp: Let_def b64_decode_group [where bs = "[a, b]"] b64_decode_loop.simps [of _ _ "length p + 4"])
next
  case (4 a b c s)
  let ?n = "65536 * unat a + 256 * unat b + unat c"
  let ?q = "[b64_digit (?n div 262144), b64_digit (?n div 4096), b64_digit (?n div 64), b64_digit ?n]"
  let ?dst = "take idx dst @ [a, b, c] @ drop (idx + length [a, b, c]) dst"
  have q: "b64 (a # b # c # s) = ?q @ b64 s" by (simp add: Let_def)
  obtain v where v: "b64_group (b64_digit (?n div 262144)) (b64_digit (?n div 4096)) (b64_digit (?n div 64))
      (b64_digit ?n) = Some (v, 3)" "b64_bytes v 3 = [a, b, c]"
    using b64_group_full [of a b c] by blast
  have "b64_decode_loop src nsrc off dst ndst idx =
      b64_decode_loop src nsrc (off + 4) ?dst ndst (idx + length [a, b, c])"
    using "4.prems" q by (intro b64_decode_group [OF v]) auto
  also have "\<dots> = Inr (take (idx + length [a, b, c]) ?dst @ s @ drop (idx + length [a, b, c] + length s) ?dst,
      Some (idx + length [a, b, c] + length s))"
    using "4.prems" q by (intro "4.IH" [of "p @ ?q"]) auto
  also have "take (idx + length [a, b, c]) ?dst = take idx dst @ [a, b, c]"
    using "4.prems"(4,5) by simp
  also have "drop (idx + length [a, b, c] + length s) ?dst = drop (length s) (drop (idx + length [a, b, c]) ?dst)"
    by (simp only: drop_drop add.commute)
  also have "drop (idx + length [a, b, c]) ?dst = drop (idx + length [a, b, c]) dst"
    using "4.prems"(4,5) by simp
  finally show ?case by (simp only: drop_drop) (simp add: add.commute)
qed

lemma lcb_base64_decode_ok:
  assumes "s \<noteq> []" and "length s + 1 < ndst" and "ndst = length dst"
  shows "lcb_base64_decode (b64 s @ u) (length (b64 s)) dst ndst =
    Inr ((s @ drop (length s) dst)[length s + 1 := 0], int (length s))"
proof -
  have "length (b64 s) \<noteq> 0" using assms(1) by (cases s) (simp_all add: b64_length)
  then show ?thesis
    using b64_decode_ok [of "b64 s @ u" "[]" s u 0 "length (b64 s)" 0 ndst dst] assms
    by (simp add: lcb_base64_decode_def mem_set_def)
qed

lemma b64_length_room: "length s + 1 < length (b64 s) * 3 div 4 + 3"
  unfolding b64_length by presburger

lemma lcb_base64_encode2_ok:
  assumes "calloc_ok calloc" and "calloc ((length s div 3 + 1) * 4 + 1) \<noteq> None"
  shows "\<exists>u. lcb_base64_encode2 calloc s (length s) = Inr (0, Some (b64 s @ 0 # u, length (b64 s)))"
proof -
  let ?len = "(length s div 3 + 1) * 4 + 1"
  have c: "calloc ?len = Some (replicate ?len 0)" using assms by (auto dest: calloc_okD)
  have "4 * ((length s + 2) div 3) < ?len" by presburger
  then have "lcb_base64_encode s (length s) (replicate ?len 0) ?len =
      Inr (b64 s @ 0 # drop (4 * ((length s + 2) div 3) + 1) (replicate ?len 0), 0)"
    using lcb_base64_encode_ok [of "length s" s "replicate ?len 0" ?len] by (simp del: replicate.simps)
  then show ?thesis
    unfolding lcb_base64_encode2_def Let_def c
    by (simp add: c_strlen_terminated b64_no_nul del: replicate.simps)
qed

lemma lcb_base64_decode2_ok:
  assumes "calloc_ok calloc" and "\<forall>n. calloc n \<noteq> None"
  shows "\<exists>q. lcb_base64_decode2 calloc (b64 s @ u) (length (b64 s)) = Inr (int (length s), Some (q, length s)) \<and>
    take (length s) q = s"
proof -
  define len where "len = length (b64 s) * 3 div 4 + 3"
  have c: "calloc len = Some (replicate len 0)" using assms by (auto dest: calloc_okD)
  have room: "length s + 1 < len" unfolding len_def by (rule b64_length_room)
  show ?thesis
  proof (cases "s = []")
    case True
    then show ?thesis using c room
      by (simp add: lcb_base64_decode2_def lcb_base64_decode_def mem_set_def Let_def len_def)
  next
    case False
    have "lcb_base64_decode (b64 s @ u) (length (b64 s)) (replicate len 0) len =
        Inr ((s @ drop (length s) (replicate len 0))[length s + 1 := 0], int (length s))"
      using lcb_base64_decode_ok [OF False, of len "replicate len 0" u] room by simp
    then show ?thesis using c unfolding lcb_base64_decode2_def len_def [symmetric] Let_def by simp
  qed
qed

section \<open>The scatter variant\<close>

text \<open>The bytes a cursor has in front of it.\<close>

definition iov_at :: "byte list list \<Rightarrow> nat \<times> nat \<Rightarrow> byte list \<Rightarrow> bool" where
  "iov_at iov pos r \<longleftrightarrow> fst pos < length iov \<and> snd pos \<le> length (iov ! fst pos) \<and>
     r = drop (snd pos) (iov ! fst pos) @ concat (drop (Suc (fst pos)) iov)"

lemma iov_fetch_ok:
  assumes "iov_at iov pos (x # r)" and "[] \<notin> set iov"
  shows "\<exists>pos'. iov_fetch iov pos = Inr (x, pos') \<and> iov_at iov pos' r"
proof -
  obtain io iop where pos: "pos = (io, iop)" by fastforce
  have at: "io < length iov" "iop \<le> length (iov ! io)" "x # r = drop iop (iov ! io) @ concat (drop (Suc io) iov)"
    using assms(1) by (simp_all add: pos iov_at_def)
  show ?thesis
  proof (cases "length (iov ! io) \<le> iop")
    case True
    then have xr: "concat (drop (Suc io) iov) = x # r" using at by simp
    then have io: "Suc io < length iov" by (cases "Suc io < length iov") auto
    then have dr: "drop (Suc io) iov = iov ! Suc io # drop (Suc (Suc io)) iov" by (simp add: Cons_nth_drop_Suc)
    have "iov ! Suc io \<noteq> []" using assms(2) io by (metis nth_mem)
    then obtain ys where ys: "iov ! Suc io = x # ys" "r = ys @ concat (drop (Suc (Suc io)) iov)"
      using xr dr by (cases "iov ! Suc io") auto
    then have "iov_at iov (Suc io, 1) r" "mem_get (iov ! Suc io) 0 = Inr x"
      using io by (simp_all add: iov_at_def mem_get_def)
    then show ?thesis using at(1) io True by (auto simp: iov_fetch_def pos mem_get_def)
  next
    case False
    then have "drop iop (iov ! io) = iov ! io ! iop # drop (Suc iop) (iov ! io)" by (simp add: Cons_nth_drop_Suc)
    then have "x = iov ! io ! iop" "iov_at iov (io, iop + 1) r" using at False by (simp_all add: iov_at_def)
    then show ?thesis using at False by (auto simp: iov_fetch_def pos mem_get_def)
  qed
qed

lemma iov_fetchn_ok:
  assumes "iov_at iov pos r" and "n \<le> length r" and "[] \<notin> set iov"
  shows "\<exists>pos'. iov_fetchn iov pos n = Inr (take n r, pos') \<and> iov_at iov pos' (drop n r)"
  using assms
proof (induction n arbitrary: pos r)
  case (Suc n)
  obtain x r' where r: "r = x # r'" using Suc.prems(2) by (cases r) auto
  obtain pos1 where p1: "iov_fetch iov pos = Inr (x, pos1)" "iov_at iov pos1 r'"
    using iov_fetch_ok [of iov pos x r'] Suc.prems r by blast
  obtain pos2 where "iov_fetchn iov pos1 n = Inr (take n r', pos2)" "iov_at iov pos2 (drop n r')"
    using Suc.IH [OF p1(2)] Suc.prems r by auto
  then show ?case using p1(1) r by auto
qed simp

lemma iov_triplets_ok:
  assumes "iov_at iov pos r" and "3 * n \<le> length r" and "[] \<notin> set iov" and "out + 4 * n \<le> length d"
  shows "\<exists>pos'. iov_triplets iov pos d out n =
      Inr (take out d @ b64 (take (3 * n) r) @ drop (out + 4 * n) d, pos') \<and> iov_at iov pos' (drop (3 * n) r)"
  using assms
proof (induction n arbitrary: pos r d out)
  case (Suc n)
  obtain x y z r' where r: "r = [x, y, z] @ r'"
    using Suc.prems(2) by (cases r; cases "tl r"; cases "tl (tl r)") auto
  obtain pos1 where p1: "iov_fetchn iov pos 3 = Inr ([x, y, z], pos1)" "iov_at iov pos1 r'"
    using iov_fetchn_ok [of iov pos r 3] Suc.prems r by auto
  let ?q = "b64 [x, y, z]"
  let ?d = "take out d @ ?q @ drop (out + 4) d"
  have lq: "length ?q = 4" by (simp add: Let_def)
  have tr: "encode_triplet [x, y, z] 0 d out = Inr (?d, 0)"
    using encode_triplet_ok [of 0 "[x, y, z]" out d] Suc.prems(4) by (simp del: b64.simps)
  have fit: "3 * n \<le> length r'" "out + 4 + 4 * n \<le> length ?d"
    using Suc.prems(2,4) r lq by (simp_all del: b64.simps)
  obtain pos2 where p2: "iov_triplets iov pos1 ?d (out + 4) n =
      Inr (take (out + 4) ?d @ b64 (take (3 * n) r') @ drop (out + 4 + 4 * n) ?d, pos2)"
      "iov_at iov pos2 (drop (3 * n) r')"
    using Suc.IH [OF p1(2) fit(1) Suc.prems(3) fit(2)] by blast
  have e: "out + 4 * Suc n = out + 4 + 4 * n" by simp
  have td: "take (out + 4) ?d = take out d @ ?q" "drop (out + 4 + 4 * n) ?d = drop (out + 4 * Suc n) d"
    unfolding e using Suc.prems lq by (simp_all del: b64.simps add: add.commute [of "4 * n"])
  have s3: "3 * Suc n = Suc (Suc (Suc (3 * n)))" by simp
  have tk: "take (3 * Suc n) r = [x, y, z] @ take (3 * n) r'" "drop (3 * Suc n) r = drop (3 * n) r'"
    unfolding r s3 by (simp_all only: append.simps take_Suc_Cons drop_Suc_Cons)
  have bq: "b64 (take (3 * Suc n) r) = ?q @ b64 (take (3 * n) r')"
    unfolding tk by (rule b64_append) simp
  show ?case
    unfolding iov_triplets.simps p1 tr res_bind_simps prod.case p2(1) td bq tk(2)
    using p2(2) by (simp del: b64.simps)
qed simp

lemma lcb_base64_encode_iov_ok:
  assumes "calloc_ok calloc" and avail: "calloc ((n + 1) * 4 + 1) \<noteq> None" and ne: "[] \<notin> set iov"
    and total: "length (concat iov) < 2 ^ 64" and n_def: "n = min nb (length (concat iov)) div 3"
  shows "\<exists>p. lcb_base64_encode_iov calloc iov nb = Inr (p, to_int (length (b64 (take (3 * n) (concat iov))))) \<and>
    take (length (b64 (take (3 * n) (concat iov)))) p = b64 (take (3 * n) (concat iov))"
proof (cases "iov = []")
  case True
  then have "calloc 5 \<noteq> None" using avail by (simp add: n_def)
  then have "calloc 5 = Some [0, 0, 0, 0, 0]"
    using assms(1) calloc_okD [of calloc 5] by (auto simp: eval_nat_numeral)
  then show ?thesis using True by (simp add: lcb_base64_encode_iov_def Let_def n_def mem_set_def)
next
  case False
  define nsrc where "nsrc = min nb (length (concat iov))"
  define len where "len = (nsrc div 3 + 1) * 4 + 1"
  let ?s = "concat iov" and ?r = "nsrc mod 3"
  let ?b = "b64 (take (3 * n) ?s)"
  have n: "n = nsrc div 3" by (simp add: n_def nsrc_def)
  have ns: "nsrc \<le> length ?s" "3 * n + ?r = nsrc" by (simp_all add: nsrc_def n)
  have c: "calloc len = Some (replicate len 0)" using assms(1,2) by (auto simp: len_def n dest: calloc_okD)
  have lb: "length ?b = 4 * n" using ns by (simp add: b64_length)
  have at: "iov_at iov (0, 0) ?s" using False by (cases iov) (simp_all add: iov_at_def)
  have fit: "3 * n \<le> length ?s" "0 + 4 * n \<le> length (replicate len (0::byte))"
    using ns by (simp_all add: len_def n)
  obtain pos where tr: "iov_triplets iov (0, 0) (replicate len 0) 0 n = Inr (?b @ replicate (len - 4 * n) 0, pos)"
      "iov_at iov pos (drop (3 * n) ?s)"
    using iov_triplets_ok [OF at fit(1) ne fit(2)] by auto
  let ?d = "?b @ replicate (len - 4 * n) 0"
  let ?tail = "if 0 < ?r
      then res_bind (iov_fetchn iov pos ?r) (\<lambda>(xs, pos').
        res_bind (encode_rest (xs @ replicate (3 - ?r) 0) 0 ?d (4 * n) ?r) (\<lambda>(d2, rc). Inr d2))
      else Inr ?d"
  have "\<exists>u z. ?tail = Inr (?b @ z # u)"
  proof (cases "0 < ?r")
    case True
    then have r: "?r = 1 \<or> ?r = 2" by linarith
    have rl: "?r \<le> length (drop (3 * n) ?s)" unfolding length_drop using ns by linarith
    then obtain pos' where f: "iov_fetchn iov pos ?r = Inr (take ?r (drop (3 * n) ?s), pos')"
      using iov_fetchn_ok [OF tr(2) _ ne, of ?r] by blast
    let ?xs = "take ?r (drop (3 * n) ?s) @ replicate (3 - ?r) 0"
    have "4 * n + 4 \<le> length ?d" unfolding length_append lb by (simp add: len_def n)
    moreover have xs: "0 + ?r \<le> length ?xs"
      unfolding length_append length_take using min_absorb2 [OF rl] by simp
    ultimately have "encode_rest ?xs 0 ?d (4 * n) ?r =
        Inr (take (4 * n) ?d @ b64 (take ?r (drop 0 ?xs)) @ drop (4 * n + 4) ?d, 0)"
      by (rule encode_rest_ok [OF _ _ r])
    moreover have "take (4 * n) ?d = ?b" using lb by simp
    moreover obtain z u where "b64 (take ?r (drop 0 ?xs)) = z # u"
    proof -
      have "length (take ?r (drop 0 ?xs)) = ?r" 
        unfolding drop_0 length_take using xs by (simp only: add_0 min_absorb2)
      then have "length (b64 (take ?r (drop 0 ?xs))) = 4 * ((?r + 2) div 3)" by (simp only: b64_length)
      then have "b64 (take ?r (drop 0 ?xs)) \<noteq> []" using r by auto
      then show thesis using that by (cases "b64 (take ?r (drop 0 ?xs))") blast+
    qed
    ultimately have "encode_rest ?xs 0 ?d (4 * n) ?r = Inr (?b @ z # (u @ drop (4 * n + 4) ?d), 0)"
      by (simp only: append.simps)
    then have "?tail = Inr (?b @ z # (u @ drop (4 * n + 4) ?d))"
      unfolding f res_bind_simps prod.case using True by (simp only: res_bind_simps prod.case if_True)
    then show ?thesis by blast
  next
    case False
    have "len - 4 * n = Suc 4" by (simp add: len_def n)
    then have "?d = ?b @ 0 # replicate 4 0" by (simp only: replicate_Suc)
    then show ?thesis using False by simp
  qed
  then obtain u z where tl: "?tail = Inr (?b @ z # u)" by blast
  have st: "mem_set (?b @ z # u) (4 * n) 0 = Inr (?b @ 0 # u)" using lb by (simp add: mem_set_at)
  have tot: "sum_list (map length iov) mod 2 ^ 64 = length ?s" using total by (simp add: length_concat)
  have src: "(if nb < length ?s then nb else length ?s) = nsrc" by (simp add: nsrc_def min_def)
  have ln: "(n + 1) * 4 + 1 = len" by (simp add: len_def n)
  have "lcb_base64_encode_iov calloc iov nb = Inr (?b @ 0 # u, to_int (length ?b))"
    unfolding lcb_base64_encode_iov_def Let_def tot src n [symmetric] ln c option.case tr(1)
      res_bind_simps prod.case tl st
    by (simp add: c_strlen_terminated b64_no_nul)
  then show ?thesis by simp
qed

lemma lcb_base64_encode_overrun:
  assumes len: "len \<le> length src" and r: "len mod 3 \<noteq> 0" and dst: "length dst = (len div 3 + 1) * 4"
  shows "lcb_base64_encode src len dst (length dst) = Inl OutOfBounds"
proof -
  let ?t = "len div 3" and ?r = "len mod 3"
  have r12: "?r = 1 \<or> ?r = 2" using r by linarith
  have lt: "3 * ?t + ?r = len" by simp
  have "3 * ?t \<le> length src" "?r \<le> length src - 3 * ?t" using len lt by linarith+
  then have "length (take (3 * ?t) src) = 3 * ?t" "length (take ?r (drop (3 * ?t) src)) = ?r"
    by (simp_all only: length_take length_drop min_absorb2)
  then have lb: "length (b64 (take (3 * ?t) src)) = 4 * ?t" "length (b64 (take ?r (drop (3 * ?t) src))) = 4"
    unfolding b64_length using r12 by auto
  obtain d1 where d1: "b64_triplets src 0 dst 0 ?t = Inr (d1, 0)" "length d1 = length dst"
    using b64_triplets_ok [of 0 ?t src 0 dst] len lt lb dst by auto
  obtain d2 where d2: "encode_rest src (3 * ?t) d1 (4 * ?t) ?r = Inr (d2, 0)" "length d2 = length dst"
    using encode_rest_ok [of "4 * ?t" d1 "3 * ?t" ?r src, OF _ _ r12] d1(2) dst len lb lt by auto
  have "mem_set d2 (4 * ?t + 4) 0 = Inl OutOfBounds" using d2(2) dst by (simp add: mem_set_def)
  then show ?thesis using r d1(1) d2(1) dst unfolding lcb_base64_encode_def Let_def by simp
qed

section \<open>Properties\<close>



text \<open>
  \<^bold>\<open>C7\<close>. \<open>lcb_base64_encode\<close> on a destination of \<open>sz\<close> bytes has exactly three outcomes: it refuses when
  \<open>sz\<close> is below four bytes for each started triplet; it writes its terminator one byte behind the
  destination when \<open>sz\<close> is exactly that and the input is not a multiple of three; otherwise it stores
  the reference encoding and a terminator and leaves the rest of the destination alone.
\<close>

theorem lcb_base64_encode_outcomes:
  assumes "len \<le> length src"
  shows "lcb_base64_encode src len dst (length dst) =
    (if length dst < (len div 3 + 1) * 4 then Inr (dst, -1)
     else if len mod 3 \<noteq> 0 \<and> length dst = (len div 3 + 1) * 4 then Inl OutOfBounds
     else Inr (b64 (take len src) @ 0 # drop (length (b64 (take len src)) + 1) dst, 0))"
proof -
  have l: "length (b64 (take len src)) = 4 * ((len + 2) div 3)" using assms by (simp add: b64_length min_absorb2)
  consider "length dst < (len div 3 + 1) * 4" | "len mod 3 \<noteq> 0" "length dst = (len div 3 + 1) * 4"
    | "(len div 3 + 1) * 4 \<le> length dst" "len mod 3 = 0 \<or> (len div 3 + 1) * 4 < length dst"
    by linarith
  then show ?thesis
  proof cases
    case 1
    then show ?thesis by (simp add: lcb_base64_encode_def)
  next
    case 2
    then show ?thesis using lcb_base64_encode_overrun [OF assms] by simp
  next
    case 3
    have "(len + 2) div 3 \<le> (if len mod 3 = 0 then len div 3 else len div 3 + 1)" by presburger
    with 3 have "4 * ((len + 2) div 3) < length dst" by (auto split: if_splits)
    from lcb_base64_encode_ok [OF assms this 3(1)] show ?thesis unfolding l using 3 by auto
  qed
qed

theorem lcb_base64_encode_outcomes_witness:
  "lcb_base64_encode [1] 1 [0, 0, 0, 0] 4 = Inl OutOfBounds"
  using lcb_base64_encode_outcomes [of 1 "[1]" "[0, 0, 0, 0]"] by (simp flip: numeral_2_eq_2)

text \<open>
  \<^bold>\<open>C8\<close>. \<open>lcb_base64_encode_iov\<close>, for vectors none of which is empty and which together have fewer than \<open>2 ^ 64\<close> bytes,
  produces the reference encoding of the whole triplets only: the one or two bytes behind the last full triplet, which its
  last step encodes, are cut off again by the terminator. The length it reports is that of the encoding, narrowed to \<open>int\<close>:
  it is right up to \<open>2 ^ 31 - 1\<close> and wraps around beyond. When there is no memory for the result it writes through a null pointer.
\<close>

theorem lcb_base64_encode_iov_whole_triplets:
  assumes "calloc_ok calloc" and "[] \<notin> set iov" and "length (concat iov) < 2 ^ 64"
    and "n = min nb (length (concat iov)) div 3" and "text = b64 (take (3 * n) (concat iov))"
  shows "if calloc ((n + 1) * 4 + 1) = None then lcb_base64_encode_iov calloc iov nb = Inl NullPointer
    else \<exists>p. lcb_base64_encode_iov calloc iov nb = Inr (p, to_int (length text)) \<and> take (length text) p = text"
proof -
  have tot: "sum_list (map length iov) mod 2 ^ 64 = length (concat iov)" using assms(3) by (simp add: length_concat)
  have src: "(if nb < length (concat iov) then nb else length (concat iov)) = min nb (length (concat iov))" by (simp add: min_def)
  have "lcb_base64_encode_iov calloc iov nb = Inl NullPointer" if "calloc ((n + 1) * 4 + 1) = None"
    unfolding lcb_base64_encode_iov_def Let_def tot src assms(4) [symmetric] that by simp
  then show ?thesis using lcb_base64_encode_iov_ok [OF assms(1) _ assms(2,3,4)] assms(5) by auto
qed

theorem lcb_base64_encode_iov_whole_triplets_witness:
  "(\<exists>p. lcb_base64_encode_iov zero_malloc [[1, 2], [3, 4]] 9 = Inr (p, 4) \<and> take 4 p = b64 [1, 2, 3]) \<and>
   lcb_base64_encode_iov (\<lambda>n. None) [[1, 2], [3, 4]] 9 = Inl NullPointer"
  using lcb_base64_encode_iov_whole_triplets [of zero_malloc "[[1, 2], [3, 4]]" 1 9 "b64 [1, 2, 3]"]
    lcb_base64_encode_iov_whole_triplets [of "\<lambda>n. None" "[[1, 2], [3, 4]]" 1 9 "b64 [1, 2, 3]"]
  by (auto simp: zero_malloc_def Let_def to_int_def calloc_ok_def simp flip: numeral_2_eq_2)

end
