(* ===== verification/Urlcodec.thy ===== *)
theory Urlcodec
  imports Prelude
begin

text \<open>
  The percent codec of \<open>src/strcodecs/strcodecs.h\<close>. The decoder takes an iterator range as the list of the bytes in
  front of the iterator; a decoder that writes over its own input works on one buffer with a read and
  a write position. The encoder walks with a position over the object its range lies in, so that an iterator that has
  passed the end of the range goes on in that object and faults behind it. Two functions of the C library are modelled with it: \<open>sscanf\<close> with format
  \<open>%2X\<close>, which skips white space and takes a sign, and \<open>sprintf\<close> with \<open>%%%02X\<close>.
  The encoder hands \<open>isxdigit\<close> a plain \<open>char\<close>, for which the C library promises nothing when it is negative; the model takes such a
  character not to be a digit, as common libraries do in the C locale.
\<close>

section \<open>Library functions\<close>

definition hexval :: "byte \<Rightarrow> nat" where
  "hexval c =
     (if c_isdigit c then unat c - 48
      else if 65 \<le> c \<and> c \<le> 70 then unat c - 55
      else unat c - 87)"

definition hexdigit :: "nat \<Rightarrow> byte" where
  "hexdigit n = (if n < 10 then word_of_nat (48 + n) else word_of_nat (55 + n))"

definition sscanf_2X :: "byte list \<Rightarrow> nat option" where
  "sscanf_2X buf =
     (case dropWhile c_isspace (takeWhile (\<lambda>c. c \<noteq> 0) buf) of
        [] \<Rightarrow> None
      | [c] \<Rightarrow> if c_isxdigit c then Some (hexval c) else None
      | c # d # s \<Rightarrow>
          if c = c8 CHR ''0'' \<and> (d = c8 CHR ''x'' \<or> d = c8 CHR ''X'') then None
          else if c_isxdigit c then
            Some (if c_isxdigit d then 16 * hexval c + hexval d else hexval c)
          else if c = c8 CHR ''+'' \<and> c_isxdigit d then Some (hexval d)
          else if c = c8 CHR ''-'' \<and> c_isxdigit d then Some (usub 32 0 (hexval d))
          else None)"

definition sprintf_02X :: "byte \<Rightarrow> byte list" where
  "sprintf_02X c = [c8 CHR ''%'', hexdigit (unat c div 16), hexdigit (unat c mod 16)]"

section \<open>Decoding\<close>

text \<open>The output written, and the value returned.\<close>

fun urldecode :: "byte list \<Rightarrow> byte list \<times> bool" where
  "urldecode [] = ([], True)"
| "urldecode (c # s) =
     (if c = 0 then ([], True)
      else if c = c8 CHR ''%'' then
        (case s of
           a # b # s' \<Rightarrow>
             (case sscanf_2X [a, b] of
                None \<Rightarrow> ([], False)
              | Some octet \<Rightarrow> (word_of_nat octet # fst (urldecode s'), snd (urldecode s')))
         | _ \<Rightarrow> ([], False))
      else (c # fst (urldecode s), snd (urldecode s)))"

text \<open>
  The same loop when the output iterator walks over the input: \<open>i\<close> reads, \<open>out\<close> writes, both in \<open>buf\<close>.
  The result is the buffer, the number of bytes written, and the value returned.
\<close>

function urldecode_over :: "byte list \<Rightarrow> nat \<Rightarrow> nat \<Rightarrow> byte list \<times> nat \<times> bool" where
  "urldecode_over buf i out =
     (if length buf \<le> i \<or> buf ! i = 0 then (buf, out, True)
      else if buf ! i = c8 CHR ''%'' then
        if length buf < i + 3 then (buf, out, False)
        else
          (case sscanf_2X [buf ! (i + 1), buf ! (i + 2)] of
             None \<Rightarrow> (buf, out, False)
           | Some octet \<Rightarrow> urldecode_over (buf[out := word_of_nat octet]) (i + 3) (out + 1))
      else urldecode_over (buf[out := buf ! i]) (i + 1) (out + 1))"
  by pat_completeness auto
termination
  by (relation "measure (\<lambda>(buf, i, out). length buf - i)") auto

declare urldecode_over.simps [simp del]

text \<open>Decoding a string into itself: on success the string is cut to the bytes written.\<close>

definition urldecode_string :: "byte list \<Rightarrow> byte list \<times> bool" where
  "urldecode_string s =
     (case urldecode_over s 0 0 of (buf, n, ok) \<Rightarrow> if ok then (take n buf, True) else (buf, False))"

section \<open>Encoding\<close>

definition is_legal_urichar :: "byte \<Rightarrow> bool" where
  "is_legal_urichar c \<longleftrightarrow> c_isalpha c \<or> c_isdigit c \<or> c \<in> set (map c8 ''-_.~!*'') \<or> c = 39 \<or>
     c \<in> set (map c8 ''();:@&=+$,/?#[]'')"

text \<open>
  The iterator \<open>last\<close> of the source is the position \<open>endp\<close>. Up to two characters in front of it are looked at, the first one at
  position \<open>i\<close>.
\<close>

fun escape_digits :: "byte list \<Rightarrow> nat \<Rightarrow> nat \<Rightarrow> nat \<Rightarrow> bool res" where
  "escape_digits buf endp i 0 = Inr True"
| "escape_digits buf endp i (Suc n) =
     (if i = endp then Inr False
      else res_bind (mem_get buf i) (\<lambda>c. if \<not> c_isxdigit c then Inr False else escape_digits buf endp (i + 1) n))"

definition is_already_escape :: "byte list \<Rightarrow> nat \<Rightarrow> nat \<Rightarrow> bool res" where
  "is_already_escape buf endp i = escape_digits buf endp (i + 1) 2"

definition utf8_bytes :: "byte \<Rightarrow> nat option" where
  "utf8_bytes c =
     (if c AND 0x80 = 0 then Some 1
      else if c AND 0xE0 = 0xC0 then Some 2
      else if c AND 0xF0 = 0xE0 then Some 3
      else if c AND 0xF8 = 0xF0 then Some 4
      else None)"

text \<open>
  The \<open>do ... while\<close> loop at position \<open>i\<close>, with the bytes that are left behind the first one: its output, and the number of
  increments of the iterator. It stops early when the iterator has become \<open>endp\<close>.
\<close>

fun escape_loop :: "byte list \<Rightarrow> nat \<Rightarrow> nat \<Rightarrow> nat \<Rightarrow> (byte list \<times> nat) res" where
  "escape_loop buf endp i 0 = res_bind (mem_get buf i) (\<lambda>c. Inr (sprintf_02X c, 0))"
| "escape_loop buf endp i (Suc n) =
     res_bind (mem_get buf i) (\<lambda>c.
       if i + 1 = endp then Inr (sprintf_02X c, 1)
       else res_bind (escape_loop buf endp (i + 1) n) (\<lambda>(o1, k). Inr (sprintf_02X c @ o1, k + 1)))"

text \<open>The output appended, and the value returned.\<close>

function urlencode_from :: "byte list \<Rightarrow> nat \<Rightarrow> bool \<Rightarrow> bool \<Rightarrow> nat \<Rightarrow> (byte list \<times> bool) res" where
  "urlencode_from buf endp check_encoded skip_encoding i =
     (if i = endp then Inr ([], True)
      else case mem_get buf i of
        Inl e \<Rightarrow> Inl e
      | Inr c \<Rightarrow>
          (case (if \<not> skip_encoding \<and> check_encoded then
                   if c = c8 CHR ''%'' then is_already_escape buf endp i
                   else Inr (if c = c8 CHR ''+'' then True else skip_encoding)
                 else Inr skip_encoding) of
             Inl e \<Rightarrow> Inl e
           | Inr skip \<Rightarrow>
               if skip \<or> is_legal_urichar c then
                 if skip \<and> c \<noteq> c8 CHR ''%'' \<and> \<not> is_legal_urichar c then Inr ([], False)
                 else res_bind (urlencode_from buf endp check_encoded skip (i + 1)) (\<lambda>(o1, ok). Inr (c # o1, ok))
               else
                 (case utf8_bytes c of
                    None \<Rightarrow> Inr ([], False)
                  | Some numbytes \<Rightarrow>
                      (case escape_loop buf endp i (numbytes - 1) of
                         Inl e \<Rightarrow> Inl e
                       | Inr (o1, k) \<Rightarrow>
                           res_bind (urlencode_from buf endp check_encoded skip (i + k + 1)) (\<lambda>(o2, ok). Inr (o1 @ o2, ok))))))"
  by pat_completeness auto
termination
  by (relation "measure (\<lambda>(buf, endp, check, skip, i). length buf - i)") (auto simp: mem_get_def split: if_splits)

declare urlencode_from.simps [simp del]

text \<open>The range is the first \<open>endp\<close> bytes of an object; a container is the object and the range.\<close>

definition urlencode_range :: "byte list \<Rightarrow> nat \<Rightarrow> bool \<Rightarrow> (byte list \<times> bool) res" where
  "urlencode_range buf endp check_encoded = urlencode_from buf endp check_encoded False 0"

definition urlencode :: "byte list \<Rightarrow> (byte list \<times> bool) res" where
  "urlencode s = urlencode_range s (length s) True"

section \<open>The encoder on a list\<close>

text \<open>
  What the encoder does when the object ends with the range or one byte behind it, written over the list of bytes that are
  left: a multi-byte sequence that is cut off by the end of the range is an access outside the object.
\<close>

definition escaped :: "byte list \<Rightarrow> bool" where
  "escaped s = (case tl s of a # b # s' \<Rightarrow> c_isxdigit a \<and> c_isxdigit b | _ \<Rightarrow> False)"

function urlencode_loop :: "bool \<Rightarrow> bool \<Rightarrow> byte list \<Rightarrow> (byte list \<times> bool) res" where
  "urlencode_loop check_encoded skip_encoding [] = Inr ([], True)"
| "urlencode_loop check_encoded skip_encoding (c # s) =
     (let skip = (if \<not> skip_encoding \<and> check_encoded then
                    (if c = c8 CHR ''%'' then escaped (c # s)
                     else if c = c8 CHR ''+'' then True
                     else skip_encoding)
                  else skip_encoding) in
      if skip \<or> is_legal_urichar c then
        if skip \<and> c \<noteq> c8 CHR ''%'' \<and> \<not> is_legal_urichar c then Inr ([], False)
        else res_bind (urlencode_loop check_encoded skip s) (\<lambda>(o1, ok). Inr (c # o1, ok))
      else
        (case utf8_bytes c of
           None \<Rightarrow> Inr ([], False)
         | Some numbytes \<Rightarrow>
             if length (c # s) < numbytes then Inl OutOfBounds
             else res_bind (urlencode_loop check_encoded skip (drop (numbytes - 1) s)) (\<lambda>(o1, ok).
                    Inr (concat (map sprintf_02X (take numbytes (c # s))) @ o1, ok))))"
  by pat_completeness auto
termination
  by (relation "measure (\<lambda>(ce, sk, s). length s)") auto

lemma escape_digits_list:
  assumes "i \<le> endp" and "endp \<le> length buf"
  shows "escape_digits buf endp i n = Inr (n \<le> endp - i \<and> (\<forall>c \<in> set (take n (drop i buf)). c_isxdigit c))"
  using assms
proof (induction n arbitrary: i)
  case (Suc n)
  show ?case
  proof (cases "i = endp")
    case False
    then have "i < length buf" "i < endp" using Suc.prems by simp_all
    then show ?thesis using Suc by (auto simp: mem_get_def Cons_nth_drop_Suc [symmetric])
  qed (use Suc.prems in simp)
qed simp

lemma is_already_escape_list:
  assumes "i < endp" and "endp \<le> length buf"
  shows "is_already_escape buf endp i = Inr (escaped (drop i (take endp buf)))"
proof -
  have tl: "tl (drop i (take endp buf)) = drop (i + 1) (take endp buf)" by (simp add: tl_drop drop_Suc)
  have "(2 \<le> endp - (i + 1) \<and> (\<forall>c \<in> set (take 2 (drop (i + 1) buf)). c_isxdigit c)) =
      escaped (drop i (take endp buf))"
  proof (cases "2 \<le> endp - (i + 1)")
    case True
    then have "drop (i + 1) (take endp buf) = buf ! (i + 1) # buf ! (i + 2) # drop (i + 3) (take endp buf)"
      using assms drop_three [of i "take endp buf"] by (simp add: Cons_nth_drop_Suc [symmetric] eval_nat_numeral)
    moreover have "take 2 (drop (i + 1) buf) = [buf ! (i + 1), buf ! (i + 2)]"
      using True assms by (simp add: eval_nat_numeral Cons_nth_drop_Suc [symmetric])
    ultimately show ?thesis using True by (simp add: escaped_def tl)
  next
    case False
    then have "length (drop (i + 1) (take endp buf)) < 2" using assms by simp
    moreover have "length d < 2 \<Longrightarrow> \<not> (case d of a # b # s' \<Rightarrow> c_isxdigit a \<and> c_isxdigit b | _ \<Rightarrow> False)" for d :: "byte list"
      by (cases d; cases "tl d") simp_all
    ultimately have "\<not> escaped (drop i (take endp buf))" unfolding escaped_def tl by blast
    then show ?thesis using False by simp
  qed
  then show ?thesis using escape_digits_list [of "i + 1" endp buf 2] assms by (simp add: is_already_escape_def)
qed

lemma escape_loop_list:
  assumes "i < endp" and "endp \<le> length buf"
  shows "escape_loop buf endp i n =
    Inr (concat (map sprintf_02X (take (n + 1) (drop i (take endp buf)))), min n (endp - i))"
  using assms
proof (induction n arbitrary: i)
  case 0
  then show ?case by (simp add: mem_get_def Cons_nth_drop_Suc [symmetric])
next
  case (Suc n)
  have "drop i (take endp buf) = buf ! i # drop (i + 1) (take endp buf)" using Suc.prems by (simp add: Cons_nth_drop_Suc [symmetric])
  then show ?case using Suc by (cases "i + 1 = endp") (auto simp: mem_get_def)
qed

lemma urlencode_from_list:
  assumes "i \<le> endp" and "endp \<le> length buf" and "length buf \<le> endp + 1"
  shows "urlencode_from buf endp check skip i = urlencode_loop check skip (drop i (take endp buf))"
  using assms(1)
proof (induction "endp - i" arbitrary: i skip rule: less_induct)
  case less
  show ?case
  proof (cases "i = endp")
    case True
    then show ?thesis by (subst urlencode_from.simps) simp
  next
    case False
    then have i: "i < endp" using less.prems by simp
    define c where "c = buf ! i"
    define t where "t = drop (i + 1) (take endp buf)"
    have d: "drop i (take endp buf) = c # t" using i assms(2) by (simp add: c_def t_def Cons_nth_drop_Suc [symmetric])
    have g: "mem_get buf i = Inr c" using i assms(2) by (simp add: mem_get_def c_def)
    have lt: "length t = endp - (i + 1)" using assms(2) by (simp add: t_def)
    define sk where "sk = (if \<not> skip \<and> check then (if c = c8 CHR ''%'' then escaped (c # t)
                     else if c = c8 CHR ''+'' then True else skip) else skip)"
    have sk: "(if \<not> skip \<and> check then if c = c8 CHR ''%'' then is_already_escape buf endp i
                   else Inr (if c = c8 CHR ''+'' then True else skip) else Inr skip) = Inr sk"
      using is_already_escape_list [OF i assms(2)] d by (simp add: sk_def)
    have next1: "urlencode_from buf endp check sk (i + 1) = urlencode_loop check sk t"
      using less.hyps [of "i + 1" sk] i by (simp add: t_def)
    have out: "urlencode_from buf endp check sk (endp + 1) = Inl OutOfBounds"
      using assms(3) by (subst urlencode_from.simps) (simp add: mem_get_def)
    have multi: "urlencode_from buf endp check sk (i + min (n - 1) (endp - i) + 1) =
        (if length (c # t) < n then Inl OutOfBounds else urlencode_loop check sk (drop (n - 1) t))" if n: "0 < n" for n
    proof (cases "length (c # t) < n")
      case True
      then have "i + min (n - 1) (endp - i) + 1 = endp + 1" using lt i by simp
      then show ?thesis using out True by simp
    next
      case False
      then have le: "i + min (n - 1) (endp - i) + 1 = i + n" "i + n \<le> endp" using lt i n by simp_all
      have "urlencode_from buf endp check sk (i + n) = urlencode_loop check sk (drop (i + n) (take endp buf))"
        using le(2) n i by (intro less.hyps) auto
      moreover have "drop (i + n) (take endp buf) = drop (n - 1) t" using n by (simp add: t_def add.commute)
      ultimately show ?thesis using False le(1) by simp
    qed
    have pos: "utf8_bytes c = Some n \<Longrightarrow> 0 < n" for n by (auto simp: utf8_bytes_def split: if_splits)
    have esc: "escape_loop buf endp i (n - 1) = Inr (concat (map sprintf_02X (take n (c # t))), min (n - 1) (endp - i))" if "0 < n" for n
      using escape_loop_list [OF i assms(2), of "n - 1"] d that by simp
    have step: "urlencode_from buf endp check skip i =
      (if sk \<or> is_legal_urichar c then
         if sk \<and> c \<noteq> c8 CHR ''%'' \<and> \<not> is_legal_urichar c then Inr ([], False)
         else res_bind (urlencode_loop check sk t) (\<lambda>(o1, ok). Inr (c # o1, ok))
       else case utf8_bytes c of None \<Rightarrow> Inr ([], False) | Some n \<Rightarrow>
         (case escape_loop buf endp i (n - 1) of Inl e \<Rightarrow> Inl e
          | Inr (o1, k) \<Rightarrow> res_bind (urlencode_from buf endp check sk (i + k + 1)) (\<lambda>(o2, ok). Inr (o1 @ o2, ok))))"
      by (subst urlencode_from.simps) (simp only: False if_False g sum.case sk next1)
    show ?thesis
    proof (cases "utf8_bytes c")
      case None
      then show ?thesis unfolding d urlencode_loop.simps Let_def sk_def [symmetric] step by simp
    next
      case (Some n)
      show ?thesis unfolding d urlencode_loop.simps Let_def sk_def [symmetric] step Some option.case esc [OF pos [OF Some]]
          sum.case prod.case multi [OF pos [OF Some]] by simp
    qed
  qed
qed

lemma urlencode_range_list: "urlencode_range s (length s) check = urlencode_loop check False s"
  using urlencode_from_list [of 0 "length s" s] by (simp add: urlencode_range_def)

section \<open>Escapes\<close>

lemmas char_simps = c8_def c_isdigit_def c_isalpha_def c_isxdigit_def c_isspace_def

lemma hexdigit_facts:
  assumes "n < 16"
  shows "c_isxdigit (hexdigit n)" "hexval (hexdigit n) = n" "\<not> c_isspace (hexdigit n)" "hexdigit n \<noteq> 0"
    "hexdigit n \<noteq> 120" "hexdigit n \<noteq> 88" "is_legal_urichar (hexdigit n)" "hexdigit n \<noteq> 37" "hexdigit n \<noteq> 43"
proof -
  have "\<forall>n\<in>set [0..<16]. c_isxdigit (hexdigit n) \<and> hexval (hexdigit n) = n \<and> \<not> c_isspace (hexdigit n) \<and>
      hexdigit n \<noteq> 0 \<and> hexdigit n \<noteq> 120 \<and> hexdigit n \<noteq> 88 \<and> is_legal_urichar (hexdigit n) \<and>
      hexdigit n \<noteq> 37 \<and> hexdigit n \<noteq> 43"
    by (simp add: upt_rec hexdigit_def hexval_def char_simps is_legal_urichar_def)
  with assms show "c_isxdigit (hexdigit n)" "hexval (hexdigit n) = n" "\<not> c_isspace (hexdigit n)"
    "hexdigit n \<noteq> 0" "hexdigit n \<noteq> 120" "hexdigit n \<noteq> 88" "is_legal_urichar (hexdigit n)"
    "hexdigit n \<noteq> 37" "hexdigit n \<noteq> 43"
    by auto
qed

lemma nibbles: "unat (c::byte) div 16 < 16" "unat (c::byte) mod 16 < 16"
  using unat_byte_less [of c] by simp_all

lemma sscanf_sprintf:
  "sscanf_2X [hexdigit (unat (c::byte) div 16), hexdigit (unat c mod 16)] = Some (unat c)"
  using hexdigit_facts [OF nibbles(1) [of c]] hexdigit_facts [OF nibbles(2) [of c]]
  by (simp add: sscanf_2X_def c8_def)

lemma urldecode_sprintf:
  "urldecode (sprintf_02X c @ s) = (c # fst (urldecode s), snd (urldecode s))"
  using sscanf_sprintf [of c] by (simp add: sprintf_02X_def c8_def)

lemma urldecode_sprintfs:
  "urldecode (concat (map sprintf_02X t) @ s) = (t @ fst (urldecode s), snd (urldecode s))"
  by (induction t) (simp_all add: urldecode_sprintf)

lemma legal_not_special: "is_legal_urichar c \<Longrightarrow> c \<noteq> 0 \<and> c \<noteq> 37"
  by (auto simp: is_legal_urichar_def char_simps)

lemma urldecode_encoded:
  assumes "urlencode_loop check skip s = Inr (o1, True)" and "check \<or> skip \<longrightarrow> 37 \<notin> set s"
  shows "urldecode o1 = (s, True)"
  using assms
proof (induction check skip s arbitrary: o1 rule: urlencode_loop.induct)
  case (1 check skip)
  then show ?case by simp
next
  case (2 check skip0 c s)
  define skip where "skip = (if \<not> skip0 \<and> check then (if c = c8 CHR ''%'' then escaped (c # s)
                     else if c = c8 CHR ''+'' then True else skip0) else skip0)"
  have no: "check \<or> skip \<longrightarrow> 37 \<notin> set s \<and> c \<noteq> 37"
    using "2.prems"(2) by (auto simp: skip_def split: if_splits)
  show ?case
  proof (cases "skip \<or> is_legal_urichar c")
    case True
    with "2.prems"(1) no obtain o2 where o2: "urlencode_loop check skip s = Inr (o2, True)" "o1 = c # o2"
        "is_legal_urichar c"
      by (auto simp: res_bind_eq_Inr c8_def Let_def split: if_splits simp flip: skip_def)
    have "urldecode o2 = (s, True)"
      using True no o2 by (intro "2.IH"(1) [OF skip_def]) (auto simp: c8_def)
    then show ?thesis using o2 legal_not_special [OF o2(3)] by (simp add: c8_def)
  next
    case False
    with "2.prems"(1) obtain n o2 where n: "utf8_bytes c = Some n" "n \<le> length (c # s)"
        "urlencode_loop check skip (drop (n - 1) s) = Inr (o2, True)"
        "o1 = concat (map sprintf_02X (take n (c # s))) @ o2"
      by (auto simp: res_bind_eq_Inr Let_def split: if_splits option.splits simp flip: skip_def)
    have "0 < n" using n(1) by (auto simp: utf8_bytes_def split: if_splits)
    have "urldecode o2 = (drop (n - 1) s, True)"
      using False no n by (intro "2.IH"(2) [OF skip_def]) (auto dest: in_set_dropD)
    then have "urldecode o1 = (take n (c # s) @ drop (n - 1) s, True)"
      unfolding n(4) urldecode_sprintfs by simp
    moreover have "take n (c # s) @ drop (n - 1) s = c # s" using \<open>0 < n\<close> by (cases n) simp_all
    ultimately show ?thesis by simp
  qed
qed

section \<open>Encoding twice\<close>

abbreviation url_safe :: "byte \<Rightarrow> bool" where
  "url_safe c \<equiv> c = 37 \<or> is_legal_urichar c"

lemma urlencode_skips: "list_all url_safe s \<Longrightarrow> urlencode_loop check True s = Inr (s, True)"
  by (induction s) (auto simp: c8_def)

lemma sprintf_safe: "list_all url_safe (sprintf_02X c)"
  using hexdigit_facts(7) [OF nibbles(1) [of c]] hexdigit_facts(7) [OF nibbles(2) [of c]]
  by (simp add: sprintf_02X_def c8_def)

lemma urlencode_safe:
  assumes "urlencode_loop check skip s = Inr (o1, ok)"
  shows "list_all url_safe o1"
  using assms
proof (induction check skip s arbitrary: o1 rule: urlencode_loop.induct)
  case (2 check skip0 c s)
  have sp: "list_all url_safe (concat (map sprintf_02X t))" for t
    using sprintf_safe by (induction t) auto
  define skip where "skip = (if \<not> skip0 \<and> check then (if c = c8 CHR ''%'' then escaped (c # s)
                     else if c = c8 CHR ''+'' then True else skip0) else skip0)"
  show ?case
  proof (cases "skip \<or> is_legal_urichar c")
    case True
    with "2.prems" show ?thesis using "2.IH"(1) [OF skip_def]
      by (auto simp: res_bind_eq_Inr c8_def Let_def split: if_splits simp flip: skip_def)
  next
    case False
    with "2.prems" show ?thesis using "2.IH"(2) [OF skip_def] sp
      by (auto simp: res_bind_eq_Inr Let_def split: if_splits option.splits simp flip: skip_def)
  qed
qed simp

lemma escaped_sprintf: "escaped (sprintf_02X c @ s)"
  using hexdigit_facts(1) [OF nibbles(1) [of c]] hexdigit_facts(1) [OF nibbles(2) [of c]]
  by (simp add: escaped_def sprintf_02X_def)

lemma urlencode_escape_first:
  assumes "escaped (37 # s)" and "list_all url_safe s"
  shows "urlencode_loop True False (37 # s) = Inr (37 # s, True)"
  using assms urlencode_skips [of s True] by (simp add: c8_def)

lemma urlencode_again:
  assumes "urlencode_loop True False s = Inr (o1, True)"
  shows "urlencode_loop True False o1 = Inr (o1, True)"
  using assms
proof (induction s arbitrary: o1)
  case (Cons c s)
  have safe: "list_all url_safe o1" by (rule urlencode_safe [OF Cons.prems])
  consider "c = 37" "escaped (c # s)" | "c = 43" | "c \<noteq> 37" "c \<noteq> 43" "is_legal_urichar c"
    | "c \<noteq> 43" "\<not> is_legal_urichar c" "c = 37 \<longrightarrow> \<not> escaped (c # s)"
    using legal_not_special by blast
  then show ?case
  proof cases
    case 1
    then obtain o2 where o2: "urlencode_loop True True s = Inr (o2, True)" "o1 = c # o2"
      using Cons.prems by (auto simp: res_bind_eq_Inr c8_def)
    have "o2 = s" if "urlencode_loop True True s = Inr (o2, True)" for o2
      using that by (induction s arbitrary: o2) (auto simp: res_bind_eq_Inr c8_def split: if_splits)
    with o2 1 safe show ?thesis using urlencode_escape_first [of s] by simp
  next
    case 2
    then obtain o2 where "o1 = c # o2" using Cons.prems by (auto simp: res_bind_eq_Inr c8_def split: if_splits)
    then show ?thesis using 2 safe urlencode_skips [of o2 True]
      by (simp add: c8_def is_legal_urichar_def)
  next
    case 3
    then obtain o2 where "urlencode_loop True False s = Inr (o2, True)" "o1 = c # o2"
      using Cons.prems by (auto simp: res_bind_eq_Inr c8_def)
    then show ?thesis using 3 Cons.IH by (simp add: c8_def)
  next
    case 4
    then obtain n o2 where "utf8_bytes c = Some n" "o1 = concat (map sprintf_02X (take n (c # s))) @ o2"
      using Cons.prems by (auto simp: res_bind_eq_Inr c8_def split: if_splits option.splits)
    moreover from this have "n \<noteq> 0" by (auto simp: utf8_bytes_def split: if_splits)
    ultimately obtain o3 where o3: "o1 = sprintf_02X c @ o3" by (cases n) auto
    then obtain o4 where "o1 = 37 # o4" by (simp add: sprintf_02X_def c8_def)
    moreover have "escaped o1" unfolding o3 by (rule escaped_sprintf)
    ultimately show ?thesis using safe urlencode_escape_first [of o4] by simp
  qed
qed simp

section \<open>Decoding a buffer into itself\<close>

lemma patch_step:
  assumes "out < length buf"
  shows "take (Suc out) (buf[out := x]) @ o1 @ drop (Suc out + length o1) (buf[out := x]) =
    take out buf @ (x # o1) @ drop (out + length (x # o1)) buf"
  using assms by (simp add: take_Suc_conv_app_nth)

lemma urldecode_over_eq:
  assumes "out \<le> i" and "urldecode (drop i buf) = (o1, ok)"
  shows "urldecode_over buf i out = (take out buf @ o1 @ drop (out + length o1) buf, out + length o1, ok)"
  using assms
proof (induction buf i out arbitrary: o1 rule: urldecode_over.induct)
  case (1 buf i out)
  show ?case
  proof (cases "length buf \<le> i \<or> buf ! i = 0")
    case True
    then have "o1 = [] \<and> ok"
    proof
      assume "buf ! i = 0"
      then show ?thesis using "1.prems"(2) by (cases "i < length buf") (auto simp flip: Cons_nth_drop_Suc)
    qed (use "1.prems"(2) in auto)
    then show ?thesis using True by (simp add: urldecode_over.simps)
  next
    case False
    then have i: "i < length buf" "buf ! i \<noteq> 0" by auto
    have dr: "drop i buf = buf ! i # drop (i + 1) buf" using i(1) by (simp add: Cons_nth_drop_Suc)
    have over: "drop k (buf[out := x]) = drop k buf" if "out < k" for k x using that by simp
    show ?thesis
    proof (cases "buf ! i = c8 CHR ''%''")
      case pc: True
      show ?thesis
      proof (cases "length buf < i + 3")
        case True
        then have "o1 = [] \<and> \<not> ok"
          using "1.prems"(2) dr pc i by (auto split: list.splits dest: arg_cong [where f = length])
        then show ?thesis using pc i True by (simp add: urldecode_over.simps)
      next
        case long: False
        have "drop (i + 1) buf = buf ! (i + 1) # buf ! (i + 2) # drop (i + 3) buf"
          using drop_three [of i buf] long dr by simp
        then have d: "urldecode (drop i buf) = (case sscanf_2X [buf ! (i + 1), buf ! (i + 2)] of
            None \<Rightarrow> ([], False)
          | Some octet \<Rightarrow> (word_of_nat octet # fst (urldecode (drop (i + 3) buf)), snd (urldecode (drop (i + 3) buf))))"
          using dr pc i by simp
        show ?thesis
        proof (cases "sscanf_2X [buf ! (i + 1), buf ! (i + 2)]")
          case None
          then show ?thesis using d "1.prems"(2) pc i long by (simp add: urldecode_over.simps)
        next
          case (Some octet)
          then obtain o2 where o2: "o1 = word_of_nat octet # o2" "urldecode (drop (i + 3) buf) = (o2, ok)"
            using d "1.prems"(2) by (cases "urldecode (drop (i + 3) buf)") auto
          have "urldecode_over (buf[out := word_of_nat octet]) (i + 3) (out + 1) = (take (Suc out) (buf[out := word_of_nat octet]) @ o2 @
              drop (Suc out + length o2) (buf[out := word_of_nat octet]), Suc out + length o2, ok)"
            using "1.IH"(1) [OF False pc long Some, of o2] o2(2) "1.prems"(1) over by simp
          then show ?thesis
            using pc i long Some o2(1) patch_step [of out buf "word_of_nat octet" o2] "1.prems"(1)
            by (subst urldecode_over.simps) simp
        qed
      qed
    next
      case pc: False
      obtain o2 where o2: "o1 = buf ! i # o2" "urldecode (drop (i + 1) buf) = (o2, ok)"
        using "1.prems"(2) dr pc i by (cases "urldecode (drop (i + 1) buf)") auto
      have "urldecode_over (buf[out := buf ! i]) (i + 1) (out + 1) = (take (Suc out) (buf[out := buf ! i]) @ o2 @
          drop (Suc out + length o2) (buf[out := buf ! i]), Suc out + length o2, ok)"
        using "1.IH"(2) [OF False pc, of o2] o2(2) "1.prems"(1) over by simp
      then show ?thesis
        using pc i o2(1) patch_step [of out buf "buf ! i" o2] "1.prems"(1)
        by (subst urldecode_over.simps) simp
    qed
  qed
qed

lemma urldecode_string_eq:
  "snd (urldecode s) \<Longrightarrow> urldecode_string s = urldecode s"
  using urldecode_over_eq [of 0 0 s "fst (urldecode s)" "snd (urldecode s)"]
  by (cases "urldecode s") (simp add: urldecode_string_def)

section \<open>Sequences that are cut off\<close>

lemma lead_byte:
  assumes "utf8_bytes c = Some n" and "1 < n"
  shows "\<not> is_legal_urichar c" "c \<noteq> 37" "c \<noteq> 43"
proof -
  have "c AND 0x80 \<noteq> 0" using assms by (auto simp: utf8_bytes_def split: if_splits)
  moreover have "c AND 0x80 = 0" if "is_legal_urichar c \<or> c = 37 \<or> c = 43"
  proof -
    have "c < 0x80" using that by (auto simp: is_legal_urichar_def char_simps elim!: le_less_trans)
    then have "unat c < 128" by (simp add: word_less_nat_alt)
    then have "\<not> bit (unat c) 7" by (simp add: bit_iff_odd)
    then have "\<not> bit c 7" by (simp add: bit_unsigned_iff)
    moreover have "(0x80 :: byte) = 2 ^ 7" by simp
    ultimately show ?thesis by (simp only: and_exp_eq_0_iff_not_bit) simp
  qed
  ultimately show "\<not> is_legal_urichar c" "c \<noteq> 37" "c \<noteq> 43" by blast+
qed

text \<open>What is encoded first does not depend on what follows.\<close>

lemma urlencode_append:
  assumes "urlencode_loop True False p = Inr (o1, True)" and "37 \<notin> set p" and "43 \<notin> set p"
  shows "urlencode_loop True False (p @ r) = res_bind (urlencode_loop True False r) (\<lambda>(o2, ok). Inr (o1 @ o2, ok))"
  using assms
proof (induction "length p" arbitrary: p o1 rule: less_induct)
  case less
  show ?case
  proof (cases p)
    case Nil
    then show ?thesis using less.prems(1) by (cases "urlencode_loop True False r") auto
  next
    case (Cons c s)
    have c: "c \<noteq> 37" "c \<noteq> 43" "37 \<notin> set s" "43 \<notin> set s" using less.prems(2,3) Cons by auto
    show ?thesis
    proof (cases "is_legal_urichar c")
      case True
      then obtain o2 where o2: "urlencode_loop True False s = Inr (o2, True)" "o1 = c # o2"
        using less.prems(1) c Cons by (auto simp: res_bind_eq_Inr c8_def)
      have "urlencode_loop True False (s @ r) = res_bind (urlencode_loop True False r) (\<lambda>(o3, ok). Inr (o2 @ o3, ok))"
        using Cons o2 c by (intro less.hyps) auto
      then show ?thesis using True c o2(2) Cons by (cases "urlencode_loop True False r") (auto simp: c8_def)
    next
      case False
      then obtain n o2 where n: "utf8_bytes c = Some n" "n \<le> Suc (length s)"
          "urlencode_loop True False (drop (n - 1) s) = Inr (o2, True)" "o1 = concat (map sprintf_02X (take n (c # s))) @ o2"
        using less.prems(1) c Cons by (auto simp: res_bind_eq_Inr c8_def split: if_splits option.splits)
      have pos: "0 < n" using n(1) by (auto simp: utf8_bytes_def split: if_splits)
      have "urlencode_loop True False (drop (n - 1) s @ r) = res_bind (urlencode_loop True False r) (\<lambda>(o3, ok). Inr (o2 @ o3, ok))"
        using Cons n c by (intro less.hyps) (auto dest: in_set_dropD)
      moreover have "drop (n - 1) (s @ r) = drop (n - 1) s @ r" "take n (c # s @ r) = take n (c # s)" using n(2) pos by (cases n; simp)+
      ultimately show ?thesis using False c n Cons by (cases "urlencode_loop True False r") (auto simp: c8_def simp del: take_Suc_Cons)
    qed
  qed
qed

section \<open>Properties\<close>

text \<open>
  \<^bold>\<open>C9\<close>. Round trip: when \<open>urlencode\<close> succeeds on a string without a percent sign, decoding the
  result, also in place over the encoded string itself, gives the string back; so it does with the
  detection of existing escapes turned off, for strings with percent signs too.
\<close>

theorem urlcodec_round_trip:
  assumes "urlencode_range s (length s) check_encoded = Inr (out, True)" and "check_encoded \<longrightarrow> 37 \<notin> set s"
  shows "urldecode out = (s, True) \<and> urldecode_string out = (s, True)"
  using urldecode_encoded [OF assms(1) [unfolded urlencode_range_list]] assms(2) urldecode_string_eq [of out] by simp

theorem urlcodec_round_trip_witness:
  "urlencode_range [97, 37, 32] 3 False = Inr ([97, 37, 50, 53, 37, 50, 48], True) \<and>
   urldecode [97, 37, 50, 53, 37, 50, 48] = ([97, 37, 32], True)"
proof -
  have enc: "urlencode_range [97, 37, 32] (length [97 :: byte, 37, 32]) False = Inr ([97, 37, 50, 53, 37, 50, 48], True)"
    unfolding urlencode_range_list by (simp add: is_legal_urichar_def char_simps utf8_bytes_def sprintf_02X_def hexdigit_def)
  with urlcodec_round_trip [OF enc] show ?thesis by (simp add: eval_nat_numeral)
qed

text \<open>
  \<^bold>\<open>C10\<close>. Encoding is idempotent: with the detection of escapes on, as every caller has it, encoding
  the output of a successful call changes nothing.
\<close>

theorem urlencode_idempotent:
  assumes "urlencode s = Inr (out, True)"
  shows "urlencode out = Inr (out, True)"
  using urlencode_again assms unfolding urlencode_def urlencode_range_list .

theorem urlencode_idempotent_witness:
  "urlencode [97, 32] = Inr ([97, 37, 50, 48], True) \<and>
   urlencode [97, 37, 50, 48] = Inr ([97, 37, 50, 48], True)"
proof -
  have enc: "urlencode [97, 32] = Inr ([97, 37, 50, 48], True)"
    unfolding urlencode_def urlencode_range_list by (simp add: is_legal_urichar_def char_simps utf8_bytes_def sprintf_02X_def hexdigit_def)
  with urlencode_idempotent [OF enc] show ?thesis by simp
qed

text \<open>
  \<^bold>\<open>C11\<close>. A multi-byte UTF-8 sequence that is cut off by the end of the range makes \<open>urlencode\<close> run past that end, when
  what comes before it encodes and has neither a percent nor a plus sign: the inner loop stops with the iterator at \<open>last\<close>, the
  outer one steps over it and goes on behind the range. In an object that ends with the range, or with the terminator of a
  string behind it, this is an access outside the object.
\<close>

theorem urlencode_reads_past_end:
  assumes "urlencode p = Inr (out, True)" and "37 \<notin> set p" and "43 \<notin> set p"
    and "utf8_bytes c = Some n" and "length (c # t) < n" and "behind = [] \<or> behind = [0]"
  shows "urlencode_range (p @ c # t @ behind) (length (p @ c # t)) True = Inl OutOfBounds"
proof -
  have n: "1 < n" using assms(5) by simp
  have "urlencode_loop True False (c # t) = Inl OutOfBounds" using lead_byte [OF assms(4) n] assms(4,5) by (simp add: c8_def)
  moreover have "urlencode_range (p @ c # t @ behind) (length (p @ c # t)) True = urlencode_loop True False (p @ c # t)"
    using urlencode_from_list [of 0 "length (p @ c # t)" "p @ c # t @ behind"] assms(6) by (auto simp: urlencode_range_def)
  ultimately show ?thesis
    using urlencode_append [OF assms(1) [unfolded urlencode_def urlencode_range_list] assms(2,3), of "c # t"] by simp
qed

theorem urlencode_reads_past_end_witness:
  "urlencode_range [97, 32, 0xC3, 0] 3 True = Inl OutOfBounds"
proof -
  have "urlencode [97, 32] = Inr ([97, 37, 50, 48], True)"
    unfolding urlencode_def urlencode_range_list by (simp add: is_legal_urichar_def char_simps utf8_bytes_def sprintf_02X_def hexdigit_def)
  from urlencode_reads_past_end [OF this, of "0xC3" 2 "[]" "[0]"] show ?thesis by (simp add: utf8_bytes_def numeral_3_eq_3)
qed

end
