(* ===== verification/Node_Seq.thy ===== *)
theory Node_Seq
  imports Prelude
begin

text \<open>
  The contract of an intrusive list: a heap represents, under a root, the sequence of the nodes linked
  into it. Nodes are addresses. The singly linked list of \<open>src/sllist-inl.h\<close> and the circular list of
  \<open>src/list.c\<close> both provide the queue part; only the circular
  list provides insertion at the front under the same conditions.
\<close>

type_synonym addr = nat

text \<open>
  Following a pointer faults on \<open>NULL\<close>. A loop over a list may not end when the heap is not a list:
  \<open>walk_result\<close> turns such a run, which is \<open>None\<close>, into a fault.
\<close>

definition deref :: "addr option \<Rightarrow> (addr \<Rightarrow> 'a res) \<Rightarrow> 'a res" where
  "deref p f = (case p of None \<Rightarrow> Inl NullPointer | Some a \<Rightarrow> f a)"

definition walk_result :: "'a res option \<Rightarrow> 'a res" where
  "walk_result r = (case r of None \<Rightarrow> Inl Nontermination | Some x \<Rightarrow> x)"

lemma deref_simps [simp]: "deref None f = Inl NullPointer" "deref (Some a) f = f a"
  by (simp_all add: deref_def)

datatype seq_op = Append addr | Prepend addr | Remove addr

text \<open>
  The abstract sequence of a client's operations: a node may be linked only when it is not linked
  already and only a linked node may be removed.
\<close>

fun seq_run :: "addr list \<Rightarrow> seq_op list \<Rightarrow> addr list option" where
  "seq_run xs [] = Some xs"
| "seq_run xs (Append n # ops) = (if n \<in> set xs then None else seq_run (xs @ [n]) ops)"
| "seq_run xs (Prepend n # ops) = (if n \<in> set xs then None else seq_run (n # xs) ops)"
| "seq_run xs (Remove n # ops) = (if n \<in> set xs then seq_run (remove1 n xs) ops else None)"

fun heap_run ::
  "('h \<Rightarrow> addr \<Rightarrow> 'h res) \<Rightarrow> ('h \<Rightarrow> addr \<Rightarrow> 'h res) \<Rightarrow> ('h \<Rightarrow> addr \<Rightarrow> 'h res) \<Rightarrow>
   'h \<Rightarrow> seq_op list \<Rightarrow> 'h res" where
  "heap_run app pre rem h [] = Inr h"
| "heap_run app pre rem h (Append n # ops) = res_bind (app h n) (\<lambda>h'. heap_run app pre rem h' ops)"
| "heap_run app pre rem h (Prepend n # ops) = res_bind (pre h n) (\<lambda>h'. heap_run app pre rem h' ops)"
| "heap_run app pre rem h (Remove n # ops) = res_bind (rem h n) (\<lambda>h'. heap_run app pre rem h' ops)"

fun op_node :: "seq_op \<Rightarrow> addr" where
  "op_node (Append n) = n"
| "op_node (Prepend n) = n"
| "op_node (Remove n) = n"

fun no_prepend :: "seq_op \<Rightarrow> bool" where
  "no_prepend (Prepend n) \<longleftrightarrow> False"
| "no_prepend _ \<longleftrightarrow> True"

text \<open>A list to whose end nodes can be linked, and from which any linked node can be removed.\<close>

locale node_queue =
  fixes rep :: "'h \<Rightarrow> addr list \<Rightarrow> bool"
    and node :: "addr \<Rightarrow> bool"
    and app :: "'h \<Rightarrow> addr \<Rightarrow> 'h res"
    and rem :: "'h \<Rightarrow> addr \<Rightarrow> 'h res"
  assumes app_law: "rep h xs \<Longrightarrow> node n \<Longrightarrow> n \<notin> set xs \<Longrightarrow> \<exists>h'. app h n = Inr h' \<and> rep h' (xs @ [n])"
    and rem_law: "rep h xs \<Longrightarrow> n \<in> set xs \<Longrightarrow> \<exists>h'. rem h n = Inr h' \<and> rep h' (remove1 n xs)"
begin

text \<open>Every legal sequence of appends and removals runs without a fault and keeps the representation.\<close>

lemma queue_refines:
  assumes "rep h xs" and "seq_run xs ops = Some ys" and "\<forall>p\<in>set ops. node (op_node p) \<and> no_prepend p"
  shows "\<exists>h'. heap_run app pre rem h ops = Inr h' \<and> rep h' ys"
  using assms
proof (induction ops arbitrary: h xs)
  case (Cons p ops)
  show ?case
  proof (cases p)
    case (Append n)
    with Cons.prems obtain h' where "app h n = Inr h'" "rep h' (xs @ [n])"
      using app_law [of h xs n] by (auto split: if_splits)
    with Cons.IH [of h' "xs @ [n]"] Cons.prems Append show ?thesis by (auto split: if_splits)
  next
    case (Remove n)
    with Cons.prems obtain h' where "rem h n = Inr h'" "rep h' (remove1 n xs)"
      using rem_law [of h xs n] by (auto split: if_splits)
    with Cons.IH [of h' "remove1 n xs"] Cons.prems Remove show ?thesis by (auto split: if_splits)
  qed (use Cons.prems in auto)
qed simp

end

text \<open>A list that can be extended at both ends.\<close>

locale node_seq = node_queue rep node app rem
  for rep :: "'h \<Rightarrow> addr list \<Rightarrow> bool"
    and node :: "addr \<Rightarrow> bool"
    and app :: "'h \<Rightarrow> addr \<Rightarrow> 'h res"
    and rem :: "'h \<Rightarrow> addr \<Rightarrow> 'h res" +
  fixes pre :: "'h \<Rightarrow> addr \<Rightarrow> 'h res"
  assumes pre_law: "rep h xs \<Longrightarrow> node n \<Longrightarrow> n \<notin> set xs \<Longrightarrow> \<exists>h'. pre h n = Inr h' \<and> rep h' (n # xs)"
begin

lemma run_refines:
  assumes "rep h xs" and "seq_run xs ops = Some ys" and "\<forall>p\<in>set ops. node (op_node p)"
  shows "\<exists>h'. heap_run app pre rem h ops = Inr h' \<and> rep h' ys"
  using assms
proof (induction ops arbitrary: h xs)
  case (Cons p ops)
  show ?case
  proof (cases p)
    case (Append n)
    with Cons.prems obtain h' where "app h n = Inr h'" "rep h' (xs @ [n])"
      using app_law [of h xs n] by (auto split: if_splits)
    with Cons.IH [of h' "xs @ [n]"] Cons.prems Append show ?thesis by (auto split: if_splits)
  next
    case (Prepend n)
    with Cons.prems obtain h' where "pre h n = Inr h'" "rep h' (n # xs)"
      using pre_law [of h xs n] by (auto split: if_splits)
    with Cons.IH [of h' "n # xs"] Cons.prems Prepend show ?thesis by (auto split: if_splits)
  next
    case (Remove n)
    with Cons.prems obtain h' where "rem h n = Inr h'" "rep h' (remove1 n xs)"
      using rem_law [of h xs n] by (auto split: if_splits)
    with Cons.IH [of h' "remove1 n xs"] Cons.prems Remove show ?thesis by (auto split: if_splits)
  qed
qed simp

end

end
