(* ===== verification/Lcb_List.thy ===== *)
theory Lcb_List
  imports Node_Seq
begin

text \<open>
  The circular doubly linked list of \<open>src/list.c\<close>. The heap gives the two pointers of every node;
  \<open>None\<close> is \<open>NULL\<close>, and following it is a fault. A counted list (\<open>lcb_clist_t\<close>) adds a size field to its
  root. The list that a root stands for is the sequence of the nodes between it and itself.
\<close>

section \<open>State\<close>

record lcb_list_t =
  l_next :: "addr \<Rightarrow> addr option"
  l_prev :: "addr \<Rightarrow> addr option"
  cl_size :: "addr \<Rightarrow> nat"

section \<open>Operations\<close>

definition lcb_list_init :: "lcb_list_t \<Rightarrow> addr \<Rightarrow> lcb_list_t" where
  "lcb_list_init h lst = h\<lparr>l_next := (l_next h)(lst := Some lst), l_prev := (l_prev h)(lst := Some lst)\<rparr>"

definition list_insert :: "lcb_list_t \<Rightarrow> addr \<Rightarrow> addr \<Rightarrow> addr \<Rightarrow> lcb_list_t" where
  "list_insert h prev next item =
     (let h1 = h\<lparr>l_next := (l_next h)(item := Some next)\<rparr>;
          h2 = h1\<lparr>l_prev := (l_prev h1)(item := Some prev)\<rparr>;
          h3 = h2\<lparr>l_prev := (l_prev h2)(next := Some item)\<rparr> in
      h3\<lparr>l_next := (l_next h3)(prev := Some item)\<rparr>)"

definition lcb_list_prepend :: "addr \<Rightarrow> lcb_list_t \<Rightarrow> addr \<Rightarrow> lcb_list_t res" where
  "lcb_list_prepend lst h item = deref (l_next h lst) (\<lambda>n. Inr (list_insert h lst n item))"

definition lcb_list_append :: "addr \<Rightarrow> lcb_list_t \<Rightarrow> addr \<Rightarrow> lcb_list_t res" where
  "lcb_list_append lst h item = deref (l_prev h lst) (\<lambda>p. Inr (list_insert h p lst item))"

definition list_eject :: "lcb_list_t \<Rightarrow> addr \<Rightarrow> addr \<Rightarrow> lcb_list_t" where
  "list_eject h prev next =
     (let h1 = h\<lparr>l_prev := (l_prev h)(next := Some prev)\<rparr> in
      h1\<lparr>l_next := (l_next h1)(prev := Some next)\<rparr>)"

definition lcb_list_delete :: "lcb_list_t \<Rightarrow> addr \<Rightarrow> lcb_list_t res" where
  "lcb_list_delete h item =
     deref (l_prev h item) (\<lambda>p. deref (l_next h item) (\<lambda>n.
       let h1 = list_eject h p n in
       Inr (h1\<lparr>l_next := (l_next h1)(item := None), l_prev := (l_prev h1)(item := None)\<rparr>)))"

definition LCB_LIST_IS_EMPTY :: "lcb_list_t \<Rightarrow> addr \<Rightarrow> bool" where
  "LCB_LIST_IS_EMPTY h lst \<longleftrightarrow> l_next h lst = Some lst \<and> l_prev h lst = Some lst"

definition lcb_list_shift :: "lcb_list_t \<Rightarrow> addr \<Rightarrow> (lcb_list_t \<times> addr option) res" where
  "lcb_list_shift h lst =
     (if LCB_LIST_IS_EMPTY h lst then Inr (h, None)
      else deref (l_next h lst) (\<lambda>item.
        res_bind (lcb_list_delete h item) (\<lambda>h'. Inr (h', Some item))))"

definition lcb_list_pop :: "lcb_list_t \<Rightarrow> addr \<Rightarrow> (lcb_list_t \<times> addr option) res" where
  "lcb_list_pop h lst =
     (if LCB_LIST_IS_EMPTY h lst then Inr (h, None)
      else deref (l_prev h lst) (\<lambda>item.
        res_bind (lcb_list_delete h item) (\<lambda>h'. Inr (h', Some item))))"

text \<open>
  The two loops that walk a list stop at a node given by a test. \<open>None\<close> is a walk that never ends;
  reaching a null pointer is a fault.
\<close>

partial_function (option) list_walk :: "lcb_list_t \<Rightarrow> (addr \<Rightarrow> bool) \<Rightarrow> addr option \<Rightarrow> addr res option" where
  "list_walk h stop p =
     (case p of
        None \<Rightarrow> Some (Inl NullPointer)
      | Some a \<Rightarrow> if stop a then Some (Inr a) else list_walk h stop (l_next h a))"

definition lcb_list_contains :: "lcb_list_t \<Rightarrow> addr \<Rightarrow> addr \<Rightarrow> bool res" where
  "lcb_list_contains h lst item =
     res_bind (walk_result (list_walk h (\<lambda>p. p = lst \<or> p = item) (l_next h lst))) (\<lambda>p. Inr (p = item))"

definition lcb_list_add_sorted ::
  "lcb_list_t \<Rightarrow> addr \<Rightarrow> addr \<Rightarrow> (addr \<Rightarrow> addr \<Rightarrow> int) \<Rightarrow> lcb_list_t res" where
  "lcb_list_add_sorted h lst item cmp =
     (if LCB_LIST_IS_EMPTY h lst then deref (l_prev h lst) (\<lambda>p. Inr (list_insert h p lst item))
      else
        res_bind (walk_result (list_walk h (\<lambda>p. p = lst \<or> cmp item p < 0) (l_next h lst))) (\<lambda>p.
          deref (l_prev h p) (\<lambda>q. Inr (list_insert h q p item))))"

text \<open>The counted list; its size is an unsigned 64 bit field of the root.\<close>

definition lcb_clist_init :: "lcb_list_t \<Rightarrow> addr \<Rightarrow> lcb_list_t" where
  "lcb_clist_init h cl = (let h1 = lcb_list_init h cl in h1\<lparr>cl_size := (cl_size h1)(cl := 0)\<rparr>)"

definition lcb_clist_append :: "lcb_list_t \<Rightarrow> addr \<Rightarrow> addr \<Rightarrow> lcb_list_t res" where
  "lcb_clist_append h cl item =
     res_bind (lcb_list_append cl h item) (\<lambda>h1. Inr (h1\<lparr>cl_size := (cl_size h1)(cl := uadd 64 (cl_size h1 cl) 1)\<rparr>))"

definition lcb_clist_prepend :: "lcb_list_t \<Rightarrow> addr \<Rightarrow> addr \<Rightarrow> lcb_list_t res" where
  "lcb_clist_prepend h cl item =
     res_bind (lcb_list_prepend cl h item) (\<lambda>h1. Inr (h1\<lparr>cl_size := (cl_size h1)(cl := uadd 64 (cl_size h1 cl) 1)\<rparr>))"

definition lcb_clist_delete :: "lcb_list_t \<Rightarrow> addr \<Rightarrow> addr \<Rightarrow> lcb_list_t res" where
  "lcb_clist_delete h cl item =
     res_bind (lcb_list_delete h item) (\<lambda>h1. Inr (h1\<lparr>cl_size := (cl_size h1)(cl := usub 64 (cl_size h1 cl) 1)\<rparr>))"

definition lcb_clist_pop :: "lcb_list_t \<Rightarrow> addr \<Rightarrow> (lcb_list_t \<times> addr option) res" where
  "lcb_clist_pop h cl =
     res_bind (lcb_list_pop h cl) (\<lambda>(h1, ret).
       if ret \<noteq> None then Inr (h1\<lparr>cl_size := (cl_size h1)(cl := usub 64 (cl_size h1 cl) 1)\<rparr>, ret)
       else Inr (h1, ret))"

definition lcb_clist_shift :: "lcb_list_t \<Rightarrow> addr \<Rightarrow> (lcb_list_t \<times> addr option) res" where
  "lcb_clist_shift h cl =
     res_bind (lcb_list_shift h cl) (\<lambda>(h1, ret).
       if ret \<noteq> None then Inr (h1\<lparr>cl_size := (cl_size h1)(cl := usub 64 (cl_size h1 cl) 1)\<rparr>, ret)
       else Inr (h1, ret))"

section \<open>Abstraction\<close>

fun dseg :: "lcb_list_t \<Rightarrow> addr \<Rightarrow> addr list \<Rightarrow> addr \<Rightarrow> bool" where
  "dseg h a [] b \<longleftrightarrow> l_next h a = Some b \<and> l_prev h b = Some a"
| "dseg h a (x # xs) b \<longleftrightarrow> l_next h a = Some x \<and> l_prev h x = Some a \<and> dseg h x xs b"

definition dlist :: "addr \<Rightarrow> lcb_list_t \<Rightarrow> addr list \<Rightarrow> bool" where
  "dlist lst h xs \<longleftrightarrow> dseg h lst xs lst \<and> distinct (lst # xs)"

lemma dseg_append: "dseg h a (xs @ y # ys) b \<longleftrightarrow> dseg h a xs y \<and> dseg h y ys b"
  by (induction xs arbitrary: a) auto

lemma dseg_frame:
  assumes "\<forall>x\<in>set (a # xs). l_next h' x = l_next h x" and "\<forall>x\<in>set (xs @ [b]). l_prev h' x = l_prev h x"
  shows "dseg h' a xs b = dseg h a xs b"
  using assms by (induction xs arbitrary: a) auto

lemma dseg_first: "dseg h a xs b \<Longrightarrow> l_next h a = Some (hd (xs @ [b]))"
  by (cases xs) auto

lemma dseg_last: "dseg h a xs b \<Longrightarrow> l_prev h b = Some (last (a # xs))"
  by (induction xs arbitrary: a) auto

lemma dlist_empty_iff: "dlist lst h xs \<Longrightarrow> LCB_LIST_IS_EMPTY h lst \<longleftrightarrow> xs = []"
  by (cases xs) (auto simp: dlist_def LCB_LIST_IS_EMPTY_def)

section \<open>Inserting and deleting\<close>

lemma dseg_insert:
  assumes "dseg h a (xs @ ys) b" and "distinct (xs @ ys)" and "a \<notin> set (xs @ ys)" and "b \<notin> set (xs @ ys)"
    and "y \<notin> set (a # b # xs @ ys)"
  shows "dseg (list_insert h (last (a # xs)) (hd (ys @ [b])) y) a (xs @ y # ys) b"
  using assms
proof (induction xs arbitrary: a)
  case Nil
  show ?case
  proof (cases ys)
    case Nil
    with Nil.prems show ?thesis by (simp add: list_insert_def Let_def)
  next
    case (Cons n ys')
    then have "dseg (list_insert h a n y) n ys' b = dseg h n ys' b"
      using Nil.prems by (intro dseg_frame) (auto simp: list_insert_def Let_def)
    with Cons Nil.prems show ?thesis by (simp add: list_insert_def Let_def)
  qed
next
  case (Cons x xs)
  let ?h = "list_insert h (last (x # xs)) (hd (ys @ [b])) y"
  have "last (x # xs) \<noteq> a" using Cons.prems(3) last_in_set [of "x # xs"] by auto
  moreover have "hd (ys @ [b]) \<noteq> x" using Cons.prems(2,4) by (cases ys) auto
  ultimately have "l_next ?h a = l_next h a" "l_prev ?h x = l_prev h x"
    using Cons.prems(5) by (auto simp: list_insert_def Let_def)
  moreover have "dseg ?h x (xs @ y # ys) b" using Cons.prems by (intro Cons.IH) auto
  ultimately show ?case using Cons.prems(1) by simp
qed

lemma dlist_insert:
  assumes "dlist lst h (xs @ ys)" and "y \<notin> set (lst # xs @ ys)"
  shows "dlist lst (list_insert h (last (lst # xs)) (hd (ys @ [lst])) y) (xs @ y # ys)"
  using dseg_insert [of h lst xs ys lst y] assms by (auto simp: dlist_def)

abbreviation unlinked :: "lcb_list_t \<Rightarrow> addr \<Rightarrow> lcb_list_t" where
  "unlinked h y \<equiv> h\<lparr>l_next := (l_next h)(y := None), l_prev := (l_prev h)(y := None)\<rparr>"

lemma dseg_delete:
  assumes "dseg h a (xs @ y # ys) b" and "distinct (xs @ y # ys)" and "a \<notin> set (xs @ y # ys)"
    and "b \<notin> set (xs @ y # ys)"
  shows "dseg (unlinked (list_eject h (last (a # xs)) (hd (ys @ [b]))) y) a (xs @ ys) b"
  using assms
proof (induction xs arbitrary: a)
  case Nil
  show ?case
  proof (cases ys)
    case Nil
    with Nil.prems show ?thesis by (auto simp: list_eject_def Let_def)
  next
    case (Cons n ys')
    then have "dseg (unlinked (list_eject h a n) y) n ys' b = dseg h n ys' b"
      using Nil.prems by (intro dseg_frame) (auto simp: list_eject_def Let_def)
    moreover have "l_next (unlinked (list_eject h a n) y) a = Some n"
        "l_prev (unlinked (list_eject h a n) y) n = Some a"
      using Cons Nil.prems by (auto simp: list_eject_def Let_def)
    ultimately show ?thesis using Cons Nil.prems(1) by (simp only: append_Nil append_Cons dseg.simps list.sel last.simps simp_thms if_True)
  qed
next
  case (Cons x xs)
  define g where "g = unlinked (list_eject h (last (x # xs)) (hd (ys @ [b]))) y"
  have "last (x # xs) \<noteq> a" using Cons.prems(3) last_in_set [of "x # xs"] by auto
  moreover have "hd (ys @ [b]) \<noteq> x" using Cons.prems(2,4) by (cases ys) auto
  ultimately have "l_next g a = l_next h a" "l_prev g x = l_prev h x"
    using Cons.prems(2,3) by (auto simp: g_def list_eject_def Let_def)
  moreover have "dseg g x (xs @ ys) b" unfolding g_def using Cons.prems by (intro Cons.IH) auto
  moreover have "last (a # x # xs) = last (x # xs)" by simp
  ultimately show ?case using Cons.prems(1) unfolding append_Cons dseg.simps by (simp only: g_def)
qed

lemma lcb_list_delete_ok:
  assumes "dlist lst h (xs @ y # ys)"
  shows "\<exists>h'. lcb_list_delete h y = Inr h' \<and> dlist lst h' (xs @ ys) \<and> l_next h' y = None \<and> l_prev h' y = None \<and>
    cl_size h' = cl_size h"
proof -
  have seg: "dseg h lst xs y" "dseg h y ys lst" using assms by (simp_all add: dlist_def dseg_append)
  let ?h = "unlinked (list_eject h (last (lst # xs)) (hd (ys @ [lst]))) y"
  have "lcb_list_delete h y = Inr ?h"
    using dseg_last [OF seg(1)] dseg_first [OF seg(2)] by (simp add: lcb_list_delete_def Let_def)
  moreover have "dlist lst ?h (xs @ ys)"
    using dseg_delete [of h lst xs y ys lst] assms by (auto simp: dlist_def)
  ultimately show ?thesis by (simp add: list_eject_def Let_def)
qed

lemma dlist_ends:
  assumes "dlist lst h xs"
  shows "l_next h lst = Some (hd (xs @ [lst]))" "l_prev h lst = Some (last (lst # xs))"
  using assms dseg_first dseg_last by (auto simp: dlist_def)

lemma lcb_list_append_ok:
  assumes "dlist lst h xs" and "y \<notin> set (lst # xs)"
  shows "\<exists>h'. lcb_list_append lst h y = Inr h' \<and> dlist lst h' (xs @ [y]) \<and> cl_size h' = cl_size h"
  using dlist_insert [of lst h xs "[]" y] assms dlist_ends [OF assms(1)]
  by (simp add: lcb_list_append_def list_insert_def Let_def)

lemma lcb_list_prepend_ok:
  assumes "dlist lst h xs" and "y \<notin> set (lst # xs)"
  shows "\<exists>h'. lcb_list_prepend lst h y = Inr h' \<and> dlist lst h' (y # xs) \<and> cl_size h' = cl_size h"
  using dlist_insert [of lst h "[]" xs y] assms dlist_ends [OF assms(1)]
  by (simp add: lcb_list_prepend_def list_insert_def Let_def)

lemma lcb_list_shift_ok:
  assumes "dlist lst h xs"
  shows "\<exists>h'. lcb_list_shift h lst = Inr (h', if xs = [] then None else Some (hd xs)) \<and> dlist lst h' (tl xs) \<and>
    cl_size h' = cl_size h"
proof (cases xs)
  case Nil
  then show ?thesis using dlist_empty_iff [OF assms] assms by (simp add: lcb_list_shift_def)
next
  case (Cons y ys)
  then show ?thesis
    using dlist_empty_iff [OF assms] lcb_list_delete_ok [of lst h "[]" y ys] dlist_ends [OF assms] assms
    by (auto simp: lcb_list_shift_def)
qed

lemma lcb_list_pop_ok:
  assumes "dlist lst h xs"
  shows "\<exists>h'. lcb_list_pop h lst = Inr (h', if xs = [] then None else Some (last xs)) \<and> dlist lst h' (butlast xs) \<and>
    cl_size h' = cl_size h"
proof (cases xs rule: rev_cases)
  case Nil
  then show ?thesis using dlist_empty_iff [OF assms] assms by (simp add: lcb_list_pop_def)
next
  case (snoc ys y)
  then show ?thesis
    using dlist_empty_iff [OF assms] lcb_list_delete_ok [of lst h ys y "[]"] dlist_ends [OF assms] assms
    by (auto simp: lcb_list_pop_def)
qed

section \<open>Walking\<close>

lemma list_walk_dseg:
  assumes "dseg h a xs b" and "stop b"
  shows "list_walk h stop (l_next h a) = Some (Inr (hd (dropWhile (\<lambda>x. \<not> stop x) xs @ [b])))"
  using assms
proof (induction xs arbitrary: a)
  case Nil
  then show ?case by (simp add: list_walk.simps)
next
  case (Cons x xs)
  then show ?case by (simp add: list_walk.simps [of _ _ "Some x"])
qed

lemma lcb_list_contains_ok:
  assumes "dlist lst h xs" and "item \<noteq> lst"
  shows "lcb_list_contains h lst item = Inr (item \<in> set xs)"
proof -
  have w: "list_walk h (\<lambda>p. p = lst \<or> p = item) (l_next h lst) =
      Some (Inr (hd (dropWhile (\<lambda>x. \<not> (x = lst \<or> x = item)) xs @ [lst])))"
    using assms by (intro list_walk_dseg) (auto simp: dlist_def)
  have notin: "lst \<notin> set xs" using assms(1) by (simp add: dlist_def)
  have "hd (dropWhile (\<lambda>x. \<not> (x = lst \<or> x = item)) xs @ [lst]) = item \<longleftrightarrow> item \<in> set xs"
    using assms(2) notin by (induction xs) auto
  with w show ?thesis by (simp add: lcb_list_contains_def walk_result_def)
qed

lemma lcb_list_add_sorted_ok:
  assumes "dlist lst h xs" and "item \<notin> set (lst # xs)"
  shows "\<exists>h'. lcb_list_add_sorted h lst item cmp = Inr h' \<and>
    dlist lst h' (takeWhile (\<lambda>p. \<not> cmp item p < 0) xs @ item # dropWhile (\<lambda>p. \<not> cmp item p < 0) xs)"
proof (cases "xs = []")
  case True
  then show ?thesis
    using dlist_empty_iff [OF assms(1)] dlist_ends [OF assms(1)] dlist_insert [of lst h "[]" "[]" item] assms
    by (simp add: lcb_list_add_sorted_def)
next
  case False
  let ?a = "takeWhile (\<lambda>p. \<not> cmp item p < 0) xs" and ?b = "dropWhile (\<lambda>p. \<not> cmp item p < 0) xs"
  have eq: "dropWhile (\<lambda>x. \<not> (x = lst \<or> cmp item x < 0)) xs = ?b"
    using assms(1) by (intro dropWhile_cong) (auto simp: dlist_def)
  have seg: "dseg h lst (?a @ ?b) lst" using assms(1) by (simp add: dlist_def)
  have w: "list_walk h (\<lambda>p. p = lst \<or> cmp item p < 0) (l_next h lst) = Some (Inr (hd (?b @ [lst])))"
    using list_walk_dseg [of h lst xs lst "\<lambda>p. p = lst \<or> cmp item p < 0"] assms(1) eq by (simp add: dlist_def)
  have "l_prev h (hd (?b @ [lst])) = Some (last (lst # ?a))"
  proof (cases ?b)
    case Nil
    then show ?thesis using dseg_last [OF seg] by (simp only: Nil append_Nil append_Nil2 list.sel)
  next
    case (Cons y ys)
    then have "dseg h lst ?a y" using seg by (simp only: dseg_append)
    then show ?thesis using dseg_last Cons by fastforce
  qed
  with w show ?thesis
    using False dlist_empty_iff [OF assms(1)] dlist_insert [of lst h ?a ?b item] assms
    by (simp add: lcb_list_add_sorted_def walk_result_def)
qed

section \<open>The contract\<close>

interpretation ll: node_seq "dlist lst" "\<lambda>n. n \<noteq> lst" "lcb_list_append lst" lcb_list_delete "lcb_list_prepend lst"
  for lst
proof unfold_locales
  fix h xs n
  assume "dlist lst h xs" "n \<noteq> lst" "n \<notin> set xs"
  then show "\<exists>h'. lcb_list_append lst h n = Inr h' \<and> dlist lst h' (xs @ [n])"
    "\<exists>h'. lcb_list_prepend lst h n = Inr h' \<and> dlist lst h' (n # xs)"
    using lcb_list_append_ok [of lst h xs n] lcb_list_prepend_ok [of lst h xs n] by auto
next
  fix h xs n
  assume dl: "dlist lst h xs" and "n \<in> set xs"
  then obtain a b where "xs = a @ n # b" "n \<notin> set a" by (meson split_list_first)
  then show "\<exists>h'. lcb_list_delete h n = Inr h' \<and> dlist lst h' (remove1 n xs)"
    using lcb_list_delete_ok [of lst h a n b] dl by (auto simp: remove1_append)
qed

lemma lcb_list_init_dlist: "dlist lst (lcb_list_init h lst) []"
  by (simp add: dlist_def lcb_list_init_def)

definition clist :: "addr \<Rightarrow> lcb_list_t \<Rightarrow> addr list \<Rightarrow> bool" where
  "clist cl h xs \<longleftrightarrow> dlist cl h xs \<and> cl_size h cl = length xs"

lemma dseg_size_update: "dseg (h\<lparr>cl_size := f\<rparr>) a xs b = dseg h a xs b"
  by (rule dseg_frame) simp_all

lemma dlist_size_update: "dlist lst (h\<lparr>cl_size := f\<rparr>) xs = dlist lst h xs"
  by (simp add: dlist_def dseg_size_update)

section \<open>Properties\<close>

text \<open>
  \<^bold>\<open>C12\<close>. The circular list of \<open>list.c\<close> implements a sequence: starting from an initialised root, any
  sequence of appends, prepends and deletes in which a node is linked only when it is not linked, and
  deleted only when it is, runs without following a null pointer, and the ring read forwards is
  exactly the abstract sequence (and read backwards its reverse).
\<close>

theorem lcb_list_refines_sequence:
  assumes "seq_run [] ops = Some ys" and "\<forall>p\<in>set ops. op_node p \<noteq> lst"
  shows "\<exists>h'. heap_run (lcb_list_append lst) (lcb_list_prepend lst) lcb_list_delete (lcb_list_init h lst) ops = Inr h' \<and>
    dlist lst h' ys"
  using ll.run_refines [OF lcb_list_init_dlist assms] .

theorem lcb_list_refines_sequence_witness:
  "\<exists>h'. heap_run (lcb_list_append 0) (lcb_list_prepend 0) lcb_list_delete
      (lcb_list_init \<lparr>l_next = \<lambda>_. None, l_prev = \<lambda>_. None, cl_size = \<lambda>_. 0\<rparr> 0)
      [Append 1, Prepend 2, Append 3, Remove 1] = Inr h' \<and> dlist 0 h' [2, 3]"
  using lcb_list_refines_sequence [of "[Append 1, Prepend 2, Append 3, Remove 1]" "[2, 3]" 0] by simp

text \<open>
  \<^bold>\<open>C13\<close>. \<open>lcb_list_add_sorted\<close> on a list sorted by the keys its comparator compares is a stable sorted
  insertion: the new node goes behind every node with a key not above its own and before all others.
\<close>

theorem lcb_list_add_sorted_stable:
  assumes "dlist lst h xs" and "item \<notin> set (lst # xs)" and "\<forall>x y. cmp x y < 0 \<longleftrightarrow> key x < (key y :: int)"
    and "sorted (map key xs)"
  shows "\<exists>h' ys. lcb_list_add_sorted h lst item cmp = Inr h' \<and> dlist lst h' ys \<and> sorted (map key ys) \<and>
    ys = filter (\<lambda>p. key p \<le> key item) xs @ item # filter (\<lambda>p. key item < key p) xs"
proof -
  let ?a = "filter (\<lambda>p. key p \<le> key item) xs" and ?b = "filter (\<lambda>p. key item < key p) xs"
  have split: "takeWhile (\<lambda>p. \<not> cmp item p < 0) xs = ?a \<and> dropWhile (\<lambda>p. \<not> cmp item p < 0) xs = ?b"
    using assms(4)
  proof (induction xs)
    case (Cons x xs)
    then have "key item < key x \<Longrightarrow> \<forall>p\<in>set xs. key item < key p" by auto
    with Cons show ?case using assms(3) by (auto simp: filter_empty_conv filter_id_conv not_less eq_commute [of "[]"])
  qed simp
  have "sorted (map key (?a @ item # ?b))"
    using assms(4) by (auto simp: sorted_append sorted_wrt_filter sorted_map)
  with split lcb_list_add_sorted_ok [OF assms(1,2), of cmp] show ?thesis by auto
qed

theorem lcb_list_add_sorted_stable_witness:
  "\<exists>h' ys. lcb_list_add_sorted (lcb_list_init \<lparr>l_next = \<lambda>_. None, l_prev = \<lambda>_. None, cl_size = \<lambda>_. 0\<rparr> 0) 0 5
      (\<lambda>x y. int x - int y) = Inr h' \<and> dlist 0 h' ys \<and> ys = [5]"
  using lcb_list_add_sorted_stable [OF lcb_list_init_dlist, of 5 0 "\<lambda>x y. int x - int y" int] by auto

text \<open>
  \<^bold>\<open>C14\<close>. The counted list keeps its size field equal to the number of linked nodes through every one
  of its own operations.
\<close>

theorem lcb_clist_counts:
  assumes "clist cl h xs" and "Suc (length xs) < 2 ^ 64"
  shows "(item \<notin> set (cl # xs) \<longrightarrow>
      (\<exists>h'. lcb_clist_append h cl item = Inr h' \<and> clist cl h' (xs @ [item])) \<and>
      (\<exists>h'. lcb_clist_prepend h cl item = Inr h' \<and> clist cl h' (item # xs))) \<and>
    (item \<in> set xs \<longrightarrow> (\<exists>h'. lcb_clist_delete h cl item = Inr h' \<and> clist cl h' (remove1 item xs))) \<and>
    (\<exists>h'. lcb_clist_pop h cl = Inr (h', if xs = [] then None else Some (last xs)) \<and> clist cl h' (butlast xs)) \<and>
    (\<exists>h'. lcb_clist_shift h cl = Inr (h', if xs = [] then None else Some (hd xs)) \<and> clist cl h' (tl xs))"
proof (intro conjI impI)
  have dl: "dlist cl h xs" and sz: "cl_size h cl = length xs" using assms(1) by (simp_all add: clist_def)
  have up: "uadd 64 (length xs) 1 = Suc (length xs)" using assms(2) by (simp add: uadd_def)
  have down: "usub 64 (length xs) 1 = length xs - 1" if "xs \<noteq> []"
    using that assms(2) by (intro usub_nowrap) (auto simp: Suc_le_eq)
  show "\<exists>h'. lcb_clist_append h cl item = Inr h' \<and> clist cl h' (xs @ [item])" if "item \<notin> set (cl # xs)"
    using lcb_list_append_ok [OF dl that] up sz
    by (auto simp: lcb_clist_append_def clist_def dlist_size_update)
  show "\<exists>h'. lcb_clist_prepend h cl item = Inr h' \<and> clist cl h' (item # xs)" if "item \<notin> set (cl # xs)"
    using lcb_list_prepend_ok [OF dl that] up sz
    by (auto simp: lcb_clist_prepend_def clist_def dlist_size_update)
  show "\<exists>h'. lcb_clist_delete h cl item = Inr h' \<and> clist cl h' (remove1 item xs)" if item: "item \<in> set xs"
  proof -
    obtain a b where ab: "xs = a @ item # b" "item \<notin> set a" using item by (meson split_list_first)
    then show ?thesis using lcb_list_delete_ok [of cl h a item b] dl down sz
      by (auto simp: lcb_clist_delete_def clist_def dlist_size_update remove1_append)
  qed
  show "\<exists>h'. lcb_clist_pop h cl = Inr (h', if xs = [] then None else Some (last xs)) \<and> clist cl h' (butlast xs)"
    using lcb_list_pop_ok [OF dl] down sz
    by (cases "xs = []") (auto simp: lcb_clist_pop_def clist_def dlist_size_update)
  show "\<exists>h'. lcb_clist_shift h cl = Inr (h', if xs = [] then None else Some (hd xs)) \<and> clist cl h' (tl xs)"
    using lcb_list_shift_ok [OF dl] down sz
    by (cases "xs = []") (auto simp: lcb_clist_shift_def clist_def dlist_size_update)
qed

lemma lcb_clist_init_clist: "clist cl (lcb_clist_init h cl) []"
  using lcb_list_init_dlist by (simp add: clist_def lcb_clist_init_def Let_def dlist_size_update)

theorem lcb_clist_counts_witness:
  "\<exists>h'. lcb_clist_append (lcb_clist_init \<lparr>l_next = \<lambda>_. None, l_prev = \<lambda>_. None, cl_size = \<lambda>_. 0\<rparr> 0) 0 4 = Inr h' \<and>
    clist 0 h' [4]"
  using lcb_clist_counts [OF lcb_clist_init_clist, of 4 0] by auto

end
