(* ===== verification/Sllist.thy ===== *)
theory Sllist
  imports Node_Seq
begin

text \<open>
  The singly linked list of \<open>src/sllist.h\<close> and \<open>src/sllist-inl.h\<close>. A root is a node (its
  \<open>first_prev\<close>) with a pointer to the last node; the heap gives the \<open>next\<close> pointer of every node and
  the \<open>last\<close> pointer of every root. The iterator, with its support for removing the current node,
  is the record of the source.
\<close>

section \<open>State\<close>

record sllist_heap =
  s_next :: "addr \<Rightarrow> addr option"
  s_last :: "addr \<Rightarrow> addr option"

record sllist_iterator =
  it_cur :: "addr option"
  it_prev :: "addr option"
  it_next :: "addr option"
  it_removed :: bool

section \<open>Operations\<close>

definition SLLIST_FIRST :: "sllist_heap \<Rightarrow> addr \<Rightarrow> addr option" where
  "SLLIST_FIRST h lst = s_next h lst"

definition SLLIST_IS_EMPTY :: "sllist_heap \<Rightarrow> addr \<Rightarrow> bool" where
  "SLLIST_IS_EMPTY h lst \<longleftrightarrow> s_last h lst = None"

text \<open>The two counting loops; \<open>None\<close> is a walk around a cycle.\<close>

partial_function (option) sl_find :: "sllist_heap \<Rightarrow> addr \<Rightarrow> addr option \<Rightarrow> bool option" where
  "sl_find h item p =
     (case p of None \<Rightarrow> Some False | Some a \<Rightarrow> if a = item then Some True else sl_find h item (s_next h a))"

definition sllist_contains :: "sllist_heap \<Rightarrow> addr \<Rightarrow> addr \<Rightarrow> bool option" where
  "sllist_contains h lst item = sl_find h item (SLLIST_FIRST h lst)"

partial_function (option) sl_count :: "sllist_heap \<Rightarrow> nat \<Rightarrow> addr option \<Rightarrow> nat option" where
  "sl_count h ret p =
     (case p of None \<Rightarrow> Some ret | Some a \<Rightarrow> sl_count h (uadd 32 ret 1) (s_next h a))"

definition sllist_get_size :: "sllist_heap \<Rightarrow> addr \<Rightarrow> nat option" where
  "sllist_get_size h lst = sl_count h 0 (SLLIST_FIRST h lst)"

definition ptr_next :: "sllist_heap \<Rightarrow> addr option \<Rightarrow> addr option" where
  "ptr_next h p = (case p of None \<Rightarrow> None | Some a \<Rightarrow> s_next h a)"

definition slist_iter_init_at :: "sllist_heap \<Rightarrow> addr \<Rightarrow> sllist_iterator" where
  "slist_iter_init_at h node =
     \<lparr>it_cur = s_next h node, it_prev = Some node, it_next = ptr_next h (s_next h node), it_removed = False\<rparr>"

definition slist_iter_init :: "sllist_heap \<Rightarrow> addr \<Rightarrow> sllist_iterator" where
  "slist_iter_init h lst = slist_iter_init_at h lst"

definition slist_iter_incr :: "sllist_heap \<Rightarrow> sllist_iterator \<Rightarrow> sllist_iterator res" where
  "slist_iter_incr h iter =
     res_bind (if \<not> it_removed iter then deref (it_prev iter) (\<lambda>p. Inr (s_next h p)) else Inr (it_prev iter))
       (\<lambda>prev.
         lcb_assert (it_next iter \<noteq> prev)
           (Inr \<lparr>it_cur = it_next iter, it_prev = prev, it_next = ptr_next h (it_next iter), it_removed = False\<rparr>))"

definition sllist_iter_remove ::
  "sllist_heap \<Rightarrow> addr \<Rightarrow> sllist_iterator \<Rightarrow> (sllist_heap \<times> sllist_iterator) res" where
  "sllist_iter_remove h lst iter =
     deref (it_prev iter) (\<lambda>prev.
       let h1 = h\<lparr>s_next := (s_next h)(prev := it_next iter)\<rparr>;
           h2 = (if s_next h1 prev = None \<and> prev = lst then h1\<lparr>s_last := (s_last h1)(lst := None)\<rparr>
                 else if it_cur iter = s_last h1 lst \<and> it_next iter = None
                 then h1\<lparr>s_last := (s_last h1)(lst := Some prev)\<rparr>
                 else h1) in
       Inr (h2, iter\<lparr>it_removed := True\<rparr>))"

definition sllist_remove_head :: "sllist_heap \<Rightarrow> addr \<Rightarrow> sllist_heap" where
  "sllist_remove_head h lst =
     (case SLLIST_FIRST h lst of
        None \<Rightarrow> h
      | Some f \<Rightarrow>
          let h1 = h\<lparr>s_next := (s_next h)(lst := s_next h f)\<rparr> in
          if SLLIST_FIRST h1 lst = None then h1\<lparr>s_last := (s_last h1)(lst := None)\<rparr> else h1)"

partial_function (option) sl_remove_loop ::
  "sllist_heap \<Rightarrow> addr \<Rightarrow> addr \<Rightarrow> sllist_iterator \<Rightarrow> sllist_heap res option" where
  "sl_remove_loop h lst item iter =
     (case it_cur iter of
        None \<Rightarrow> Some (Inl AssertFailed)
      | Some cur \<Rightarrow>
          if cur = item then Some (res_bind (sllist_iter_remove h lst iter) (\<lambda>(h', iter'). Inr h'))
          else case slist_iter_incr h iter of
                 Inl e \<Rightarrow> Some (Inl e)
               | Inr iter' \<Rightarrow> sl_remove_loop h lst item iter')"

definition sllist_remove :: "addr \<Rightarrow> sllist_heap \<Rightarrow> addr \<Rightarrow> sllist_heap res" where
  "sllist_remove lst h item = walk_result (sl_remove_loop h lst item (slist_iter_init h lst))"

definition sllist_append :: "addr \<Rightarrow> sllist_heap \<Rightarrow> addr \<Rightarrow> sllist_heap res" where
  "sllist_append lst h item =
     res_bind
       (if SLLIST_IS_EMPTY h lst then
          Inr (h\<lparr>s_last := (s_last h)(lst := Some item), s_next := (s_next h)(lst := Some item, item := None)\<rparr>)
        else deref (s_last h lst) (\<lambda>l.
          Inr (h\<lparr>s_next := (s_next h)(l := Some item), s_last := (s_last h)(lst := Some item)\<rparr>)))
       (\<lambda>h1. Inr (h1\<lparr>s_next := (s_next h1)(item := None)\<rparr>))"

definition sllist_prepend :: "addr \<Rightarrow> sllist_heap \<Rightarrow> addr \<Rightarrow> sllist_heap" where
  "sllist_prepend lst h item =
     (if SLLIST_IS_EMPTY h lst then
        h\<lparr>s_last := (s_last h)(lst := Some item), s_next := (s_next h)(lst := Some item)\<rparr>
      else
        let h1 = h\<lparr>s_next := (s_next h)(item := SLLIST_FIRST h lst)\<rparr> in
        h1\<lparr>s_next := (s_next h1)(lst := Some item)\<rparr>)"

definition sllist_insert :: "sllist_heap \<Rightarrow> addr \<Rightarrow> addr \<Rightarrow> addr \<Rightarrow> sllist_heap" where
  "sllist_insert h lst prev item =
     (let h1 = h\<lparr>s_next := (s_next h)(item := s_next h prev)\<rparr>;
          h2 = h1\<lparr>s_next := (s_next h1)(prev := Some item)\<rparr> in
      if s_next h2 item = None then h2\<lparr>s_last := (s_last h2)(lst := Some item)\<rparr> else h2)"

partial_function (option) sl_sorted_loop ::
  "sllist_heap \<Rightarrow> addr \<Rightarrow> addr \<Rightarrow> (addr \<Rightarrow> addr \<Rightarrow> int) \<Rightarrow> sllist_iterator \<Rightarrow> sllist_heap res option" where
  "sl_sorted_loop h lst item compar iter =
     (case it_cur iter of
        None \<Rightarrow> Some (sllist_append lst h item)
      | Some cur \<Rightarrow>
          if compar item cur \<le> 0 then Some (deref (it_prev iter) (\<lambda>prev. Inr (sllist_insert h lst prev item)))
          else case slist_iter_incr h iter of
                 Inl e \<Rightarrow> Some (Inl e)
               | Inr iter' \<Rightarrow> sl_sorted_loop h lst item compar iter')"

definition sllist_insert_sorted ::
  "sllist_heap \<Rightarrow> addr \<Rightarrow> addr \<Rightarrow> (addr \<Rightarrow> addr \<Rightarrow> int) \<Rightarrow> sllist_heap res" where
  "sllist_insert_sorted h lst item compar =
     walk_result (sl_sorted_loop h lst item compar (slist_iter_init h lst))"

section \<open>Abstraction\<close>

fun chain :: "sllist_heap \<Rightarrow> addr \<Rightarrow> addr list \<Rightarrow> bool" where
  "chain h a [] \<longleftrightarrow> s_next h a = None"
| "chain h a (x # xs) \<longleftrightarrow> s_next h a = Some x \<and> chain h x xs"

definition slist :: "addr \<Rightarrow> sllist_heap \<Rightarrow> addr list \<Rightarrow> bool" where
  "slist lst h xs \<longleftrightarrow> chain h lst xs \<and> distinct (lst # xs) \<and>
     s_last h lst = (if xs = [] then None else Some (last xs))"

lemma chain_frame: "\<forall>x\<in>set (a # xs). s_next h' x = s_next h x \<Longrightarrow> chain h' a xs = chain h a xs"
  by (induction xs arbitrary: a) auto

text \<open>An iterator that stands before \<open>ys\<close> in the list \<open>xs @ ys\<close>.\<close>

definition iter_at :: "addr \<Rightarrow> addr list \<Rightarrow> addr list \<Rightarrow> sllist_iterator" where
  "iter_at lst xs ys =
     \<lparr>it_cur = (if ys = [] then None else Some (hd ys)), it_prev = Some (last (lst # xs)),
      it_next = (if tl ys = [] then None else Some (hd (tl ys))), it_removed = False\<rparr>"

lemma chain_next: "chain h a ys \<Longrightarrow> s_next h a = (if ys = [] then None else Some (hd ys))"
  by (cases ys) auto

lemma iter_init_at:
  assumes "chain h lst ys"
  shows "slist_iter_init h lst = iter_at lst [] ys"
  using assms chain_next [OF assms]
  by (cases ys) (auto simp: slist_iter_init_def slist_iter_init_at_def iter_at_def ptr_next_def dest: chain_next)

lemma chain_split: "chain h a (xs @ y # ys) \<Longrightarrow> s_next h (last (a # xs)) = Some y \<and> chain h y ys"
  by (induction xs arbitrary: a) auto

lemma iter_incr_at:
  assumes "chain h lst (xs @ y # ys)" and "distinct (lst # xs @ y # ys)"
  shows "slist_iter_incr h (iter_at lst xs (y # ys)) = Inr (iter_at lst (xs @ [y]) ys)"
proof -
  have n: "s_next h (last (lst # xs)) = Some y" "chain h y ys" using chain_split [OF assms(1)] by auto
  have "it_next (iter_at lst xs (y # ys)) \<noteq> Some y" using assms(2) by (cases ys) (auto simp: iter_at_def)
  moreover have "ptr_next h (it_next (iter_at lst xs (y # ys))) = (if tl ys = [] then None else Some (hd (tl ys)))"
    using n(2) chain_next by (cases ys) (auto simp: iter_at_def ptr_next_def)
  ultimately show ?thesis using n(1) by (simp add: slist_iter_incr_def iter_at_def)
qed

section \<open>Linking and unlinking\<close>

lemma chain_insert:
  assumes "chain h a (xs @ ys)" and "distinct (a # xs @ ys)" and "y \<notin> set (a # xs @ ys)"
    and "s_next h' = (s_next h)(y := s_next h (last (a # xs)), last (a # xs) := Some y)"
  shows "chain h' a (xs @ y # ys)"
  using assms
proof (induction xs arbitrary: a)
  case Nil
  then have "chain h' y ys"
  proof (cases ys)
    case (Cons n ns)
    then have "chain h' n ns = chain h n ns" using Nil.prems by (intro chain_frame) auto
    then show ?thesis using Cons Nil.prems by auto
  qed auto
  then show ?case using Nil.prems by simp
next
  case (Cons x xs)
  have "last (x # xs) \<noteq> a" using Cons.prems(2) last_in_set [of "x # xs"] by auto
  then have "s_next h' a = s_next h a" using Cons.prems(3,4) by simp
  moreover have "chain h' x (xs @ y # ys)" using Cons.prems by (intro Cons.IH) auto
  ultimately show ?case using Cons.prems(1) by simp
qed

lemma chain_cut:
  assumes "chain h a (xs @ y # ys)" and "distinct (a # xs @ y # ys)"
    and "s_next h' = (s_next h)(last (a # xs) := s_next h y)"
  shows "chain h' a (xs @ ys)"
  using assms
proof (induction xs arbitrary: a)
  case Nil
  show ?case
  proof (cases ys)
    case (Cons n ns)
    then have "chain h' n ns = chain h n ns" using Nil.prems by (intro chain_frame) auto
    then show ?thesis using Cons Nil.prems by auto
  qed (use Nil.prems in auto)
next
  case (Cons x xs)
  have "last (x # xs) \<noteq> a" using Cons.prems(2) last_in_set [of "x # xs"] by auto
  then have "s_next h' a = s_next h a" using Cons.prems(3) by simp
  moreover have "chain h' x (xs @ ys)" using Cons.prems by (intro Cons.IH) auto
  ultimately show ?case using Cons.prems(1) by simp
qed

lemma chain_end: "chain h a xs \<Longrightarrow> s_next h (last (a # xs)) = None"
  by (induction xs arbitrary: a) auto

lemma sllist_append_ok:
  assumes "slist lst h xs" and "y \<notin> set (lst # xs)"
  shows "\<exists>h'. sllist_append lst h y = Inr h' \<and> slist lst h' (xs @ [y])"
proof -
  have ch: "chain h lst xs" "distinct (lst # xs)" using assms(1) by (simp_all add: slist_def)
  define g where "g = h\<lparr>s_next := (s_next h)(last (lst # xs) := Some y, y := None), s_last := (s_last h)(lst := Some y)\<rparr>"
  have eq: "sllist_append lst h y = Inr g"
    using assms by (cases "xs = []") (simp_all add: sllist_append_def slist_def SLLIST_IS_EMPTY_def g_def)
  have "y \<noteq> last (lst # xs)" using assms(2) by (metis last_in_set list.distinct(1))
  then have "s_next g = (s_next h)(y := s_next h (last (lst # xs)), last (lst # xs) := Some y)"
    using chain_end [OF ch(1)] by (simp add: g_def fun_upd_twist)
  then have "chain g lst (xs @ [y])" using chain_insert [of h lst xs "[]" y g] ch assms(2) by simp
  moreover have "s_last g lst = Some y" by (simp add: g_def)
  ultimately have "slist lst g (xs @ [y])" using ch(2) assms(2) by (simp add: slist_def)
  with eq show ?thesis by blast
qed

lemma sllist_prepend_ok:
  assumes "slist lst h xs" and "y \<notin> set (lst # xs)" and "xs = [] \<longrightarrow> s_next h y = None"
  shows "slist lst (sllist_prepend lst h y) (y # xs)"
proof -
  let ?h = "sllist_prepend lst h y"
  have ch: "chain h lst xs" "distinct (lst # xs)" "SLLIST_IS_EMPTY h lst \<longleftrightarrow> xs = []"
    using assms(1) by (auto simp: slist_def SLLIST_IS_EMPTY_def)
  have "s_next ?h = (s_next h)(y := s_next h (last (lst # [])), last (lst # []) := Some y)"
    using ch assms(2,3) by (auto simp: sllist_prepend_def SLLIST_FIRST_def Let_def fun_eq_iff)
  then have "chain ?h lst ([] @ y # xs)" using ch assms(2) by (intro chain_insert [of h]) auto
  then show ?thesis using assms(1,2) ch(3) by (auto simp: slist_def sllist_prepend_def Let_def)
qed

lemma sl_iter_remove_ok:
  assumes "slist lst h (xs @ y # ys)"
  shows "\<exists>h' it. sllist_iter_remove h lst (iter_at lst xs (y # ys)) = Inr (h', it) \<and> slist lst h' (xs @ ys) \<and>
    it_removed it"
proof -
  have ch: "chain h lst (xs @ y # ys)" "distinct (lst # xs @ y # ys)" "s_last h lst = Some (last (y # ys))"
    using assms by (simp_all add: slist_def)
  have y: "s_next h y = (if ys = [] then None else Some (hd ys))"
    using chain_split [OF ch(1)] chain_next [of h y ys] by simp
  let ?p = "last (lst # xs)"
  have pl: "?p = lst \<longleftrightarrow> xs = []" using ch(2) by (cases xs rule: rev_cases) auto
  define g where "g = (if ys = [] then h\<lparr>s_next := (s_next h)(?p := s_next h y),
        s_last := (s_last h)(lst := if xs = [] then None else Some ?p)\<rparr>
      else h\<lparr>s_next := (s_next h)(?p := s_next h y)\<rparr>)"
  have eq: "sllist_iter_remove h lst (iter_at lst xs (y # ys)) = Inr (g, (iter_at lst xs (y # ys))\<lparr>it_removed := True\<rparr>)"
  proof (cases ys)
    case Nil
    then show ?thesis using ch(3) y pl by (cases "xs = []") (simp_all add: sllist_iter_remove_def g_def iter_at_def)
  next
    case (Cons n ns)
    then show ?thesis using y by (simp add: sllist_iter_remove_def g_def iter_at_def)
  qed
  have "s_next g = (s_next h)(?p := s_next h y)" by (simp add: g_def)
  then have "chain g lst (xs @ ys)" by (rule chain_cut [OF ch(1,2)])
  moreover have "s_last g lst = (if xs @ ys = [] then None else Some (last (xs @ ys)))"
    using ch(3) by (simp add: g_def)
  ultimately have "slist lst g (xs @ ys)" using ch(2) by (simp add: slist_def)
  with eq show ?thesis by auto
qed

lemma sl_remove_loop_ok:
  assumes "slist lst h (xs @ ys @ y # zs)" and "y \<notin> set ys"
  shows "\<exists>h'. sl_remove_loop h lst y (iter_at lst xs (ys @ y # zs)) = Some (Inr h') \<and> slist lst h' (xs @ ys @ zs)"
  using assms
proof (induction ys arbitrary: xs)
  case Nil
  then show ?case using sl_iter_remove_ok [of lst h xs y zs]
    by (auto simp: sl_remove_loop.simps iter_at_def)
next
  case (Cons v ys)
  have "slist_iter_incr h (iter_at lst xs (v # ys @ y # zs)) = Inr (iter_at lst (xs @ [v]) (ys @ y # zs))"
    using Cons.prems(1) by (intro iter_incr_at) (simp_all add: slist_def)
  then have "sl_remove_loop h lst y (iter_at lst xs ((v # ys) @ y # zs)) =
      sl_remove_loop h lst y (iter_at lst (xs @ [v]) (ys @ y # zs))"
    using Cons.prems(2) by (subst sl_remove_loop.simps) (simp add: iter_at_def)
  then show ?case using Cons.IH [of "xs @ [v]"] Cons.prems by simp
qed

lemma sllist_remove_ok:
  assumes "slist lst h xs" and "y \<in> set xs"
  shows "\<exists>h'. sllist_remove lst h y = Inr h' \<and> slist lst h' (remove1 y xs)"
proof -
  obtain ys zs where "xs = ys @ y # zs" "y \<notin> set ys" using assms(2) by (meson split_list_first)
  then show ?thesis
    using sl_remove_loop_ok [of lst h "[]" ys y zs] assms(1) iter_init_at [of h lst xs]
    by (auto simp: sllist_remove_def walk_result_def slist_def remove1_append)
qed

lemma sl_remove_loop_missing:
  assumes "slist lst h (xs @ ys)" and "y \<notin> set ys"
  shows "sl_remove_loop h lst y (iter_at lst xs ys) = Some (Inl AssertFailed)"
  using assms
proof (induction ys arbitrary: xs)
  case Nil
  then show ?case by (simp add: sl_remove_loop.simps iter_at_def)
next
  case (Cons v ys)
  have "slist_iter_incr h (iter_at lst xs (v # ys)) = Inr (iter_at lst (xs @ [v]) ys)"
    using Cons.prems(1) by (intro iter_incr_at) (simp_all add: slist_def)
  then have "sl_remove_loop h lst y (iter_at lst xs (v # ys)) = sl_remove_loop h lst y (iter_at lst (xs @ [v]) ys)"
    using Cons.prems(2) by (subst sl_remove_loop.simps) (simp add: iter_at_def)
  then show ?case using Cons.IH [of "xs @ [v]"] Cons.prems by simp
qed

lemma sllist_remove_head_ok:
  assumes "slist lst h xs"
  shows "slist lst (sllist_remove_head h lst) (tl xs)"
proof (cases xs)
  case Nil
  then show ?thesis using assms by (simp add: slist_def sllist_remove_head_def SLLIST_FIRST_def)
next
  case (Cons y ys)
  let ?h = "sllist_remove_head h lst"
  have ch: "chain h lst (y # ys)" "distinct (lst # y # ys)" using assms Cons by (simp_all add: slist_def)
  have nx: "s_next ?h = (s_next h)(last (lst # []) := s_next h y)"
    using ch by (auto simp: sllist_remove_head_def SLLIST_FIRST_def Let_def)
  then have "chain ?h lst ([] @ ys)" using chain_cut [of h lst "[]" y ys ?h] ch by simp
  then show ?thesis using assms Cons ch chain_next [of h y ys]
    by (auto simp: slist_def sllist_remove_head_def SLLIST_FIRST_def Let_def)
qed

section \<open>The contract\<close>

interpretation sl: node_queue "slist lst" "\<lambda>n. n \<noteq> lst" "sllist_append lst" "sllist_remove lst" for lst
proof unfold_locales
  fix h xs n
  assume "slist lst h xs" "n \<noteq> lst" "n \<notin> set xs"
  then show "\<exists>h'. sllist_append lst h n = Inr h' \<and> slist lst h' (xs @ [n])"
    using sllist_append_ok [of lst h xs n] by auto
next
  fix h xs n
  assume "slist lst h xs" "n \<in> set xs"
  then show "\<exists>h'. sllist_remove lst h n = Inr h' \<and> slist lst h' (remove1 n xs)"
    by (rule sllist_remove_ok)
qed

lemma sl_count_chain:
  assumes "chain h a xs" and "n + length xs < 2 ^ 32"
  shows "sl_count h n (s_next h a) = Some (n + length xs)"
  using assms
proof (induction xs arbitrary: a n)
  case Nil
  then show ?case by (simp add: sl_count.simps)
next
  case (Cons x xs)
  then have "uadd 32 n 1 = Suc n" by (simp add: uadd_def)
  with Cons show ?case by (simp add: sl_count.simps [of _ _ "Some x"])
qed

lemma sl_find_chain:
  assumes "chain h a xs"
  shows "sl_find h item (s_next h a) = Some (item \<in> set xs)"
  using assms
proof (induction xs arbitrary: a)
  case Nil
  then show ?case by (simp add: sl_find.simps)
next
  case (Cons x xs)
  then show ?case by (auto simp: sl_find.simps [of _ _ "Some x"])
qed

lemma sllist_insert_ok:
  assumes "slist lst h (xs @ ys)" and "y \<notin> set (lst # xs @ ys)"
  shows "slist lst (sllist_insert h lst (last (lst # xs)) y) (xs @ y # ys)"
proof -
  let ?p = "last (lst # xs)"
  let ?h = "sllist_insert h lst ?p y"
  have ch: "chain h lst (xs @ ys)" "distinct (lst # xs @ ys)"
      "s_last h lst = (if xs @ ys = [] then None else Some (last (xs @ ys)))"
    using assms(1) by (simp_all add: slist_def)
  have yp: "y \<noteq> ?p" using assms(2) last_in_set [of "lst # xs"] by auto
  have nx: "s_next ?h = (s_next h)(y := s_next h ?p, ?p := Some y)"
    by (simp add: sllist_insert_def Let_def)
  have "s_next h ?p = None \<longleftrightarrow> ys = []"
  proof (cases ys)
    case Nil
    then show ?thesis using chain_end [of h lst xs] ch(1) by simp
  next
    case (Cons z zs)
    then show ?thesis using chain_split [of h lst xs z zs] ch(1) by simp
  qed
  then have "s_last ?h lst = Some (last (xs @ y # ys))"
    using ch(3) yp by (auto simp: sllist_insert_def Let_def)
  moreover have "chain ?h lst (xs @ y # ys)" by (rule chain_insert [OF ch(1,2) assms(2) nx])
  ultimately show ?thesis using ch(2) assms(2) by (simp add: slist_def)
qed

lemma sl_sorted_loop_ok:
  assumes "slist lst h (xs @ ys)" and "item \<notin> set (lst # xs @ ys)"
  shows "\<exists>h'. sl_sorted_loop h lst item cmp (iter_at lst xs ys) = Some (Inr h') \<and>
    slist lst h' (xs @ takeWhile (\<lambda>p. 0 < cmp item p) ys @ item # dropWhile (\<lambda>p. 0 < cmp item p) ys)"
  using assms
proof (induction ys arbitrary: xs)
  case Nil
  then show ?case using sllist_append_ok [of lst h xs item]
    by (auto simp: sl_sorted_loop.simps iter_at_def)
next
  case (Cons v ys)
  show ?case
  proof (cases "cmp item v \<le> 0")
    case True
    then show ?thesis using sllist_insert_ok [of lst h xs "v # ys" item] Cons.prems
      by (subst sl_sorted_loop.simps) (simp add: iter_at_def)
  next
    case False
    have "slist_iter_incr h (iter_at lst xs (v # ys)) = Inr (iter_at lst (xs @ [v]) ys)"
      using Cons.prems(1) by (intro iter_incr_at) (simp_all add: slist_def)
    then have "sl_sorted_loop h lst item cmp (iter_at lst xs (v # ys)) =
        sl_sorted_loop h lst item cmp (iter_at lst (xs @ [v]) ys)"
      using False by (subst sl_sorted_loop.simps) (simp add: iter_at_def)
    then show ?thesis using Cons.IH [of "xs @ [v]"] Cons.prems False by simp
  qed
qed

section \<open>Properties\<close>

definition sl_empty :: sllist_heap where
  "sl_empty = \<lparr>s_next = \<lambda>_. None, s_last = \<lambda>_. None\<rparr>"

lemma slist_empty: "slist lst sl_empty []"
  by (simp add: slist_def sl_empty_def)

text \<open>
  \<^bold>\<open>C15\<close>. The singly linked list implements a queue with removal: any legal sequence of appends and
  removals runs without a fault, each removal finds its node, and afterwards the chain of the root is
  the abstract sequence, \<open>sllist_get_size\<close> returns its length and \<open>sllist_contains\<close> its membership.
\<close>

theorem sllist_refines_queue:
  assumes "slist lst h xs" and "seq_run xs ops = Some ys" and "\<forall>p\<in>set ops. op_node p \<noteq> lst \<and> no_prepend p"
    and "length ys < 2 ^ 32"
  shows "\<exists>h'. heap_run (sllist_append lst) pre (sllist_remove lst) h ops = Inr h' \<and> slist lst h' ys \<and>
    sllist_get_size h' lst = Some (length ys) \<and> (\<forall>item. sllist_contains h' lst item = Some (item \<in> set ys))"
proof -
  obtain h' where h': "heap_run (sllist_append lst) pre (sllist_remove lst) h ops = Inr h'" "slist lst h' ys"
    using sl.queue_refines [OF assms(1-3)] by blast
  then have "chain h' lst ys" by (simp add: slist_def)
  then show ?thesis
    using h' sl_count_chain [of h' lst ys 0] sl_find_chain [of h' lst ys] assms(4)
    by (simp add: sllist_get_size_def sllist_contains_def SLLIST_FIRST_def)
qed

theorem sllist_refines_queue_witness:
  "\<exists>h'. heap_run (sllist_append 0) (\<lambda>h n. Inr h) (sllist_remove 0) sl_empty [Append 1, Append 2, Append 3, Remove 2] =
      Inr h' \<and> slist 0 h' [1, 3]"
  using sllist_refines_queue [OF slist_empty, of "[Append 1, Append 2, Append 3, Remove 2]" "[1, 3]" 0 "\<lambda>h n. Inr h"]
  by auto

text \<open>
  \<^bold>\<open>C16\<close>. \<open>sllist_insert_sorted\<close> keeps a list sorted by the keys its comparator compares; the new node
  goes in front of the nodes with a key not below its own.
\<close>

theorem sllist_insert_sorted_keeps_order:
  assumes "slist lst h xs" and "item \<notin> set (lst # xs)" and "\<forall>x y. cmp x y \<le> 0 \<longleftrightarrow> key x \<le> (key y :: int)"
    and "sorted (map key xs)"
  shows "\<exists>h' ys. sllist_insert_sorted h lst item cmp = Inr h' \<and> slist lst h' ys \<and> sorted (map key ys) \<and>
    ys = filter (\<lambda>p. key p < key item) xs @ item # filter (\<lambda>p. key item \<le> key p) xs"
proof -
  let ?a = "filter (\<lambda>p. key p < key item) xs" and ?b = "filter (\<lambda>p. key item \<le> key p) xs"
  have pos: "0 < cmp item p \<longleftrightarrow> key p < key item" for p using assms(3) by (metis not_less)
  have "takeWhile (\<lambda>p. 0 < cmp item p) xs = ?a \<and> dropWhile (\<lambda>p. 0 < cmp item p) xs = ?b"
    using assms(4)
  proof (induction xs)
    case (Cons x xs)
    then have "key item \<le> key x \<Longrightarrow> \<forall>p\<in>set xs. key item \<le> key p" by auto
    with Cons show ?case
      by (auto simp: pos filter_empty_conv filter_id_conv not_less not_le eq_commute [of "[]"])
  qed simp
  moreover have "sorted (map key (?a @ item # ?b))"
    using assms(4) by (auto simp: sorted_append sorted_wrt_filter sorted_map)
  moreover have "slist_iter_init h lst = iter_at lst [] xs"
    using assms(1) by (intro iter_init_at) (simp add: slist_def)
  ultimately show ?thesis using sl_sorted_loop_ok [of lst h "[]" xs item cmp] assms(1,2)
    by (auto simp: sllist_insert_sorted_def walk_result_def)
qed

theorem sllist_insert_sorted_keeps_order_witness:
  "\<exists>h' ys. sllist_insert_sorted sl_empty 0 5 (\<lambda>x y. int x - int y) = Inr h' \<and> slist 0 h' ys \<and> ys = [5]"
  using sllist_insert_sorted_keeps_order [OF slist_empty, of 5 0 "\<lambda>x y. int x - int y" int] by auto

text \<open>
  \<^bold>\<open>C17\<close>. \<open>sllist_prepend\<close> links the node in front exactly when the list is not empty or the node's own
  \<open>next\<close> pointer is null: on an empty list the pointer is not reset, so a node that was removed from a
  list earlier drags its old successors in again.
\<close>

theorem sllist_prepend_exactly:
  assumes "slist lst h xs" and "y \<notin> set (lst # xs)"
  shows "slist lst (sllist_prepend lst h y) (y # xs) \<longleftrightarrow> xs \<noteq> [] \<or> s_next h y = None"
proof
  assume "xs \<noteq> [] \<or> s_next h y = None"
  then show "slist lst (sllist_prepend lst h y) (y # xs)" using sllist_prepend_ok [OF assms] by blast
next
  assume "slist lst (sllist_prepend lst h y) (y # xs)"
  then show "xs \<noteq> [] \<or> s_next h y = None"
    using assms by (auto simp: slist_def sllist_prepend_def SLLIST_IS_EMPTY_def split: if_splits)
qed

theorem sllist_prepend_exactly_witness:
  "\<not> slist 0 (sllist_prepend 0 (sl_empty\<lparr>s_next := (\<lambda>_. None)(1 := Some 2)\<rparr>) 1) [1]"
proof -
  have "slist 0 (sl_empty\<lparr>s_next := (\<lambda>_. None)(1 := Some 2)\<rparr>) []"
    by (simp add: slist_def sl_empty_def)
  from sllist_prepend_exactly [OF this, of 1] show ?thesis by simp
qed

end
