(* ===== verification/Cjson.thy ===== *)
theory Cjson
  imports Prelude
begin

text \<open>
  JSON documents as the cJSON library (\<open>contrib/cJSON/cJSON.c\<close>) hands them to its clients: a tree whose
  object members carry names, with the lookups clients use, and the typed accessors of
  \<open>src/vbucket/json-inl.h\<close>. A number is its \<open>valueint\<close>, a 64 bit integer. The text parser and printer of
  cJSON are outside this model.
\<close>

section \<open>Trees\<close>

datatype cJSON =
    JFalse
  | JTrue
  | JNull
  | JNumber int
  | JString string
  | JArray "cJSON list"
  | JObject "(string \<times> cJSON) list"

text \<open>The chain below \<open>child\<close>: the elements of an array have no name.\<close>

fun jchildren :: "cJSON \<Rightarrow> (string option \<times> cJSON) list" where
  "jchildren (JArray xs) = map (\<lambda>x. (None, x)) xs"
| "jchildren (JObject ms) = map (\<lambda>(k, x). (Some k, x)) ms"
| "jchildren _ = []"

section \<open>Lookups\<close>

definition c_tolower :: "char \<Rightarrow> char" where
  "c_tolower c = (let n = of_char c :: nat in if 65 \<le> n \<and> n \<le> 90 then char_of (n + 32) else c)"

fun strcasecmp_chars :: "string \<Rightarrow> string \<Rightarrow> int" where
  "strcasecmp_chars [] [] = 0"
| "strcasecmp_chars [] (d # t) = - of_char (c_tolower d)"
| "strcasecmp_chars (c # s) [] = of_char (c_tolower c)"
| "strcasecmp_chars (c # s) (d # t) =
     (if c_tolower c = c_tolower d then strcasecmp_chars s t
      else of_char (c_tolower c) - of_char (c_tolower d))"

definition cJSON_strcasecmp :: "string option \<Rightarrow> string \<Rightarrow> int" where
  "cJSON_strcasecmp s1 s2 = (case s1 of None \<Rightarrow> 1 | Some s \<Rightarrow> strcasecmp_chars s s2)"

definition cJSON_GetArraySize :: "cJSON \<Rightarrow> nat" where
  "cJSON_GetArraySize j = length (jchildren j)"

definition cJSON_GetArrayItem :: "cJSON \<Rightarrow> nat \<Rightarrow> cJSON option" where
  "cJSON_GetArrayItem j item = (if item < length (jchildren j) then Some (snd (jchildren j ! item)) else None)"

fun find_member :: "(string option \<times> cJSON) list \<Rightarrow> string \<Rightarrow> cJSON option" where
  "find_member [] key = None"
| "find_member ((k, x) # c) key = (if cJSON_strcasecmp k key = 0 then Some x else find_member c key)"

definition cJSON_GetObjectItem :: "cJSON \<Rightarrow> string \<Rightarrow> cJSON option" where
  "cJSON_GetObjectItem j key = find_member (jchildren j) key"

section \<open>Construction\<close>

fun cJSON_AddItemToArray :: "cJSON \<Rightarrow> cJSON \<Rightarrow> cJSON" where
  "cJSON_AddItemToArray (JArray xs) x = JArray (xs @ [x])"
| "cJSON_AddItemToArray j x = j"

fun cJSON_AddItemToObject :: "cJSON \<Rightarrow> string \<Rightarrow> cJSON \<Rightarrow> cJSON" where
  "cJSON_AddItemToObject (JObject ms) key x = JObject (ms @ [(key, x)])"
| "cJSON_AddItemToObject j key x = j"

definition cJSON_CreateIntArray :: "int list \<Rightarrow> nat \<Rightarrow> cJSON res" where
  "cJSON_CreateIntArray numbers count =
     res_bind (mem_read numbers 0 count) (\<lambda>xs. Inr (JArray (map JNumber xs)))"

section \<open>Typed accessors\<close>

text \<open>Conversion to the C integer types: \<open>int\<close>, \<open>unsigned\<close> and \<open>lcb_U16\<close>.\<close>

definition c_int :: "int \<Rightarrow> int" where
  "c_int i = (i + 2 ^ 31) mod 2 ^ 32 - 2 ^ 31"

definition c_unsigned :: "int \<Rightarrow> nat" where
  "c_unsigned i = nat (i mod 2 ^ 32)"

definition c_u16 :: "int \<Rightarrow> nat" where
  "c_u16 i = nat (i mod 2 ^ 16)"

definition get_jstr :: "cJSON \<Rightarrow> string \<Rightarrow> string option" where
  "get_jstr parent key = (case cJSON_GetObjectItem parent key of Some (JString s) \<Rightarrow> Some s | _ \<Rightarrow> None)"

definition get_jobj :: "cJSON \<Rightarrow> string \<Rightarrow> cJSON option" where
  "get_jobj parent key = (case cJSON_GetObjectItem parent key of Some (JObject ms) \<Rightarrow> Some (JObject ms) | _ \<Rightarrow> None)"

definition get_jint64 :: "cJSON \<Rightarrow> string \<Rightarrow> int option" where
  "get_jint64 parent key = (case cJSON_GetObjectItem parent key of Some (JNumber n) \<Rightarrow> Some n | _ \<Rightarrow> None)"

definition get_jint :: "cJSON \<Rightarrow> string \<Rightarrow> int option" where
  "get_jint parent key = map_option c_int (get_jint64 parent key)"

definition get_juint :: "cJSON \<Rightarrow> string \<Rightarrow> nat option" where
  "get_juint parent key = map_option c_unsigned (get_jint64 parent key)"

definition get_jarray :: "cJSON \<Rightarrow> string \<Rightarrow> cJSON option" where
  "get_jarray parent key = (case cJSON_GetObjectItem parent key of Some (JArray xs) \<Rightarrow> Some (JArray xs) | _ \<Rightarrow> None)"

lemmas jget_defs = get_jstr_def get_jobj_def get_jint_def get_juint_def get_jint64_def get_jarray_def
  cJSON_GetObjectItem_def cJSON_strcasecmp_def

section \<open>Facts\<close>

lemma strcasecmp_refl [simp]: "strcasecmp_chars s s = 0"
  by (induction s) auto

lemma c_int_id: "- (2 ^ 31) \<le> i \<Longrightarrow> i < 2 ^ 31 \<Longrightarrow> c_int i = i"
  by (simp add: c_int_def)

lemma c_int_range: "- (2 ^ 31) \<le> c_int i \<and> c_int i < 2 ^ 31"
  by (simp add: c_int_def pos_mod_bound [of "2 ^ 32", simplified] less_diff_eq)

lemma c_unsigned_id: "n < 2 ^ 32 \<Longrightarrow> c_unsigned (int n) = n"
  by (simp add: c_unsigned_def)

lemma c_u16_id: "n < 2 ^ 16 \<Longrightarrow> c_u16 (int n) = n"
  by (simp add: c_u16_def)

lemma c_u16_less: "c_u16 i < 2 ^ 16"
  by (simp add: c_u16_def nat_less_iff)

text \<open>Evaluation of the name comparison on literals.\<close>

lemma c_tolower_literals:
  "c_tolower CHR ''a'' = CHR ''a''" "c_tolower CHR ''b'' = CHR ''b''" "c_tolower CHR ''c'' = CHR ''c''"
  "c_tolower CHR ''d'' = CHR ''d''" "c_tolower CHR ''e'' = CHR ''e''" "c_tolower CHR ''f'' = CHR ''f''"
  "c_tolower CHR ''g'' = CHR ''g''" "c_tolower CHR ''h'' = CHR ''h''" "c_tolower CHR ''i'' = CHR ''i''"
  "c_tolower CHR ''j'' = CHR ''j''" "c_tolower CHR ''k'' = CHR ''k''" "c_tolower CHR ''l'' = CHR ''l''"
  "c_tolower CHR ''m'' = CHR ''m''" "c_tolower CHR ''n'' = CHR ''n''" "c_tolower CHR ''o'' = CHR ''o''"
  "c_tolower CHR ''p'' = CHR ''p''" "c_tolower CHR ''q'' = CHR ''q''" "c_tolower CHR ''r'' = CHR ''r''"
  "c_tolower CHR ''s'' = CHR ''s''" "c_tolower CHR ''t'' = CHR ''t''" "c_tolower CHR ''u'' = CHR ''u''"
  "c_tolower CHR ''v'' = CHR ''v''" "c_tolower CHR ''w'' = CHR ''w''" "c_tolower CHR ''x'' = CHR ''x''"
  "c_tolower CHR ''y'' = CHR ''y''" "c_tolower CHR ''z'' = CHR ''z''" "c_tolower CHR ''A'' = CHR ''a''"
  "c_tolower CHR ''B'' = CHR ''b''" "c_tolower CHR ''C'' = CHR ''c''" "c_tolower CHR ''D'' = CHR ''d''"
  "c_tolower CHR ''E'' = CHR ''e''" "c_tolower CHR ''F'' = CHR ''f''" "c_tolower CHR ''G'' = CHR ''g''"
  "c_tolower CHR ''H'' = CHR ''h''" "c_tolower CHR ''I'' = CHR ''i''" "c_tolower CHR ''J'' = CHR ''j''"
  "c_tolower CHR ''K'' = CHR ''k''" "c_tolower CHR ''L'' = CHR ''l''" "c_tolower CHR ''M'' = CHR ''m''"
  "c_tolower CHR ''N'' = CHR ''n''" "c_tolower CHR ''O'' = CHR ''o''" "c_tolower CHR ''P'' = CHR ''p''"
  "c_tolower CHR ''Q'' = CHR ''q''" "c_tolower CHR ''R'' = CHR ''r''" "c_tolower CHR ''S'' = CHR ''s''"
  "c_tolower CHR ''T'' = CHR ''t''" "c_tolower CHR ''U'' = CHR ''u''" "c_tolower CHR ''V'' = CHR ''v''"
  "c_tolower CHR ''W'' = CHR ''w''" "c_tolower CHR ''X'' = CHR ''x''" "c_tolower CHR ''Y'' = CHR ''y''"
  "c_tolower CHR ''Z'' = CHR ''z''" "c_tolower CHR ''1'' = CHR ''1''"
  by (simp_all add: c_tolower_def Let_def char_of_def bit_0)

end
