(* ===== verification/C_String.thy ===== *)
theory C_String
  imports Prelude
begin

text \<open>
  The functions of the C library on strings that the components use, on HOL strings: a C string is the list
  of its characters before the terminator, and a pointer into a string is the text from it on.
\<close>

type_synonym c_strdup = "string \<Rightarrow> string option"

definition strdup_ok :: "c_strdup \<Rightarrow> bool" where
  "strdup_ok strdup \<longleftrightarrow> (\<forall>s r. strdup s = Some r \<longrightarrow> r = s)"

fun dec_digits :: "nat \<Rightarrow> string" where
  "dec_digits n = (if n < 10 then [char_of (48 + n)] else dec_digits (n div 10) @ [char_of (48 + n mod 10)])"

declare dec_digits.simps [simp del]

text \<open>\<open>strstr\<close> gives the text before the first match and the text from it on.\<close>

fun c_strstr :: "string \<Rightarrow> string \<Rightarrow> (string \<times> string) option" where
  "c_strstr [] pat = (if pat = [] then Some ([], []) else None)"
| "c_strstr (c # s) pat =
     (if take (length pat) (c # s) = pat then Some ([], c # s)
      else map_option (\<lambda>(before, match). (c # before, match)) (c_strstr s pat))"

definition c_strchr :: "string \<Rightarrow> char \<Rightarrow> (string \<times> string) option" where
  "c_strchr s c = c_strstr s [c]"

text \<open>\<open>strrchr\<close>: the text from the last occurrence on.\<close>

definition c_strrchr :: "string \<Rightarrow> char \<Rightarrow> string option" where
  "c_strrchr s c = (if c \<in> set s then Some (c # rev (takeWhile (\<lambda>d. d \<noteq> c) (rev s))) else None)"

definition is_dec :: "char \<Rightarrow> bool" where
  "is_dec c \<longleftrightarrow> (let n = of_char c :: nat in 48 \<le> n \<and> n \<le> 57)"

definition is_blank :: "char \<Rightarrow> bool" where
  "is_blank c \<longleftrightarrow> (let n = of_char c :: nat in n = 32 \<or> 9 \<le> n \<and> n \<le> 13)"

definition dec_value :: "string \<Rightarrow> nat" where
  "dec_value ds = foldl (\<lambda>v c. 10 * v + (of_char c - 48)) 0 ds"

text \<open>\<open>sscanf(s, "%d", &n) == 1\<close>: blanks, a sign, at least one digit.\<close>

definition sscanf_d :: "string \<Rightarrow> int option" where
  "sscanf_d s =
     (let t = dropWhile is_blank s;
          neg = (t \<noteq> [] \<and> hd t = CHR ''-'');
          u = (if t \<noteq> [] \<and> (hd t = CHR ''-'' \<or> hd t = CHR ''+'') then tl t else t);
          ds = takeWhile is_dec u in
      if ds = [] then None else Some (if neg then - int (dec_value ds) else int (dec_value ds)))"

text \<open>\<open>snprintf\<close> into a buffer of \<open>n\<close> characters, \<open>0 < n\<close>.\<close>

definition c_snprintf :: "nat \<Rightarrow> string \<Rightarrow> string" where
  "c_snprintf n text = take (n - 1) text"

section \<open>Facts\<close>

lemma length_dec_digits: "n < 10 ^ Suc k \<Longrightarrow> length (dec_digits n) \<le> Suc k"
proof (induction k arbitrary: n)
  case 0
  then show ?case by (subst dec_digits.simps) simp
next
  case (Suc k)
  show ?case
  proof (cases "n < 10")
    case True
    then show ?thesis by (subst dec_digits.simps) simp
  next
    case False
    have "n div 10 < 10 ^ Suc k" using Suc.prems by (simp add: less_mult_imp_div_less mult.commute)
    then have "length (dec_digits (n div 10)) \<le> Suc k" by (rule Suc.IH)
    then show ?thesis using False by (subst dec_digits.simps) simp
  qed
qed

lemma is_dec_digit: "(d::nat) < 10 \<Longrightarrow> is_dec (char_of (48 + d))"
  by (simp add: is_dec_def Let_def of_char_of)

lemma dec_digits_dec: "\<forall>c \<in> set (dec_digits n). is_dec c"
proof (induction n rule: dec_digits.induct)
  case (1 n)
  then show ?case
    by (subst dec_digits.simps) (auto simp: is_dec_digit)
qed

text \<open>Reading back a printed number.\<close>

lemma dec_value_append: "dec_value (s @ [c]) = 10 * dec_value s + (of_char c - 48)"
  by (simp add: dec_value_def)

lemma dec_value_digits: "dec_value (dec_digits n) = n"
proof (induction n rule: dec_digits.induct)
  case (1 n)
  show ?case
  proof (cases "n < 10")
    case True
    then show ?thesis by (subst dec_digits.simps) (simp add: dec_value_def of_char_of)
  next
    case False
    have "of_char (char_of (48 + n mod 10)) = 48 + n mod 10" by (simp add: of_char_of)
    then show ?thesis using False 1 by (subst dec_digits.simps) (simp add: dec_value_append)
  qed
qed

lemma sscanf_d_digits:
  assumes "s = [] \<or> \<not> is_dec (hd s)"
  shows "sscanf_d (dec_digits n @ s) = Some (int n)"
proof -
  have ne: "dec_digits n \<noteq> []" by (subst dec_digits.simps) simp
  then obtain c t where ct: "dec_digits n = c # t" by (cases "dec_digits n") auto
  then have c: "is_dec c" using dec_digits_dec [of n] by auto
  then have "\<not> is_blank c" "c \<noteq> CHR ''-''" "c \<noteq> CHR ''+''" by (auto simp: is_dec_def is_blank_def Let_def)
  moreover have "takeWhile is_dec (dec_digits n @ s) = dec_digits n"
    using dec_digits_dec [of n] assms by (cases s) (auto simp: takeWhile_append)
  ultimately show ?thesis using ct dec_value_digits [of n] by (simp add: sscanf_d_def Let_def)
qed

end
