(* ===== verification/Vb_Config.thy ===== *)
theory Vb_Config
  imports Cjson C_String
begin

text \<open>
  The cluster configuration of \<open>include/libcouchbase/vbucket.h\<close> and the accessors of
  \<open>src/vbucket/vbucket.c\<close>: nodes with their services, the vBucket map, the ketama continuum, and the
  getters for ports, host strings and URLs. C strings are HOL strings, a pointer that may be \<open>NULL\<close> is an
  option, and the array \<open>servers\<close> is a list. A \<open>strdup\<close> that fails is an argument of the functions that
  check for it.
\<close>

section \<open>Types\<close>

datatype SVCTYPE =
    SVC_DATA | SVC_VIEWS | SVC_MGMT | SVC_IXQUERY | SVC_IXADMIN | SVC_QUERY | SVC_SEARCH | SVC_ANALYTICS
  | SVC_EVENTING

fun svctype_ix :: "SVCTYPE \<Rightarrow> nat" where
  "svctype_ix SVC_DATA = 0"
| "svctype_ix SVC_VIEWS = 1"
| "svctype_ix SVC_MGMT = 2"
| "svctype_ix SVC_IXQUERY = 3"
| "svctype_ix SVC_IXADMIN = 4"
| "svctype_ix SVC_QUERY = 5"
| "svctype_ix SVC_SEARCH = 6"
| "svctype_ix SVC_ANALYTICS = 7"
| "svctype_ix SVC_EVENTING = 8"

definition SVCTYPE__MAX :: nat where
  "SVCTYPE__MAX = 9"

datatype SVCMODE = MODE_PLAIN | MODE_SSL

datatype DISTMODE = DIST_VBUCKET | DIST_KETAMA | DIST_UNKNOWN

record SERVICES =
  data :: nat
  mgmt :: nat
  views :: nat
  ixquery :: nat
  ixadmin :: nat
  n1ql :: nat
  fts :: nat
  cbas :: nat
  eventing :: nat
  views_base :: "string option"
  query_base :: "string option"
  fts_base :: "string option"
  cbas_base :: "string option"
  eventing_base :: "string option"
  hoststrs :: "string option list"

definition no_services :: SERVICES where
  "no_services =
     \<lparr>data = 0, mgmt = 0, views = 0, ixquery = 0, ixadmin = 0, n1ql = 0, fts = 0, cbas = 0, eventing = 0,
      views_base = None, query_base = None, fts_base = None, cbas_base = None, eventing_base = None,
      hoststrs = replicate SVCTYPE__MAX None\<rparr>"

record SERVER =
  svc :: SERVICES
  svc_ssl :: SERVICES
  authority :: "string option"
  hostname :: "string option"
  viewpath :: "string option"
  querypath :: "string option"
  ftspath :: "string option"
  cbaspath :: "string option"
  eventingpath :: "string option"
  nvbs :: nat
  alt_hostname :: "string option"
  alt_svc :: SERVICES
  alt_svc_ssl :: SERVICES

definition no_server :: SERVER where
  "no_server =
     \<lparr>svc = no_services, svc_ssl = no_services, authority = None, hostname = None, viewpath = None,
      querypath = None, ftspath = None, cbaspath = None, eventingpath = None, nvbs = 0,
      alt_hostname = None, alt_svc = no_services, alt_svc_ssl = no_services\<rparr>"

text \<open>A vBucket is an array of four server indices; a continuum item is an index and a point.\<close>

type_synonym VBUCKET = "int list"
type_synonym CONTINUUM = "nat \<times> nat"

record CONFIG =
  dtype :: DISTMODE
  nvb :: nat
  ndatasrv :: nat
  nsrv :: nat
  nrepl :: nat
  ncontinuum :: nat
  is3x :: bool
  revepoch :: int
  revid :: int
  buuid :: "string option"
  bname :: "string option"
  bname_len :: nat
  errstr :: "string option"
  servers :: "SERVER list"
  vbuckets :: "VBUCKET list option"
  ffvbuckets :: "VBUCKET list option"
  continuum :: "CONTINUUM list option"
  randbuf :: "int list"
  caps :: "64 word"
  ccaps :: "64 word"

text \<open>The configuration that \<open>lcbvb_create\<close> returns: all zero.\<close>

definition lcbvb_create :: CONFIG where
  "lcbvb_create =
     \<lparr>dtype = DIST_VBUCKET, nvb = 0, ndatasrv = 0, nsrv = 0, nrepl = 0, ncontinuum = 0, is3x = False,
      revepoch = 0, revid = 0, buuid = None, bname = None, bname_len = 0, errstr = None, servers = [],
      vbuckets = None, ffvbuckets = None, continuum = None, randbuf = [], caps = 0, ccaps = 0\<rparr>"

definition SET_ERRSTR :: "string \<Rightarrow> CONFIG \<Rightarrow> CONFIG" where
  "SET_ERRSTR s cfg = (if errstr cfg = None then cfg\<lparr>errstr := Some s\<rparr> else cfg)"

text \<open>Dereferencing an array that may be \<open>NULL\<close> at an \<open>int\<close> index.\<close>

definition arr_get :: "'a list option \<Rightarrow> int \<Rightarrow> 'a res" where
  "arr_get arr i =
     (case arr of None \<Rightarrow> Inl NullPointer
      | Some xs \<Rightarrow> if i < 0 then Inl OutOfBounds else mem_get xs (nat i))"

definition c_deref :: "'a option \<Rightarrow> 'a res" where
  "c_deref p = (case p of None \<Rightarrow> Inl NullPointer | Some x \<Rightarrow> Inr x)"

definition copy_address :: "nat \<Rightarrow> string \<Rightarrow> nat \<Rightarrow> string" where
  "copy_address nbuf host port =
     c_snprintf nbuf
       (if CHR '':'' \<in> set host then ''['' @ host @ '']:'' @ dec_digits port
        else host @ '':'' @ dec_digits port)"

section \<open>Getters\<close>

definition get_svc :: "SERVER \<Rightarrow> SVCMODE \<Rightarrow> SERVICES" where
  "get_svc srv mode =
     (if alt_hostname srv \<noteq> None then (if mode = MODE_PLAIN then alt_svc srv else alt_svc_ssl srv)
      else (if mode = MODE_PLAIN then svc srv else svc_ssl srv))"

text \<open>Writing through the pointer that \<open>get_svc\<close> returns.\<close>

definition set_svc :: "SERVER \<Rightarrow> SVCMODE \<Rightarrow> SERVICES \<Rightarrow> SERVER" where
  "set_svc srv mode s =
     (if alt_hostname srv \<noteq> None then (if mode = MODE_PLAIN then srv\<lparr>alt_svc := s\<rparr> else srv\<lparr>alt_svc_ssl := s\<rparr>)
      else (if mode = MODE_PLAIN then srv\<lparr>svc := s\<rparr> else srv\<lparr>svc_ssl := s\<rparr>))"

definition get_hostname :: "SERVER \<Rightarrow> string option" where
  "get_hostname srv = (if alt_hostname srv \<noteq> None then alt_hostname srv else hostname srv)"

fun svc_port :: "SERVICES \<Rightarrow> SVCTYPE \<Rightarrow> nat" where
  "svc_port s SVC_DATA = data s"
| "svc_port s SVC_MGMT = mgmt s"
| "svc_port s SVC_VIEWS = views s"
| "svc_port s SVC_IXADMIN = ixadmin s"
| "svc_port s SVC_IXQUERY = ixquery s"
| "svc_port s SVC_QUERY = n1ql s"
| "svc_port s SVC_SEARCH = fts s"
| "svc_port s SVC_ANALYTICS = cbas s"
| "svc_port s SVC_EVENTING = eventing s"

definition lcbvb_get_port :: "CONFIG \<Rightarrow> nat \<Rightarrow> SVCTYPE \<Rightarrow> SVCMODE \<Rightarrow> nat res" where
  "lcbvb_get_port cfg ix type mode =
     (if nsrv cfg \<le> ix then Inr 0
      else res_bind (mem_get (servers cfg) ix) (\<lambda>srv. Inr (svc_port (get_svc srv mode) type)))"

text \<open>
  \<open>alloc\<close> says whether \<open>calloc\<close> has room for so many characters; its result is not checked before the address
  is written to it.
\<close>

definition lcbvb_get_hostport :: "(nat \<Rightarrow> bool) \<Rightarrow> CONFIG \<Rightarrow> nat \<Rightarrow> SVCTYPE \<Rightarrow> SVCMODE \<Rightarrow> (CONFIG \<times> string option) res" where
  "lcbvb_get_hostport alloc cfg ix type mode =
     res_bind (lcbvb_get_port cfg ix type mode) (\<lambda>port.
       if port = 0 then Inr (cfg, None)
       else
         res_bind (mem_get (servers cfg) ix) (\<lambda>srv.
         res_bind (mem_get (hoststrs (get_svc srv mode)) (svctype_ix type)) (\<lambda>cached.
           case cached of
             Some s \<Rightarrow> Inr (cfg, Some s)
           | None \<Rightarrow>
               res_bind (c_deref (get_hostname srv)) (\<lambda>host.
                 if \<not> alloc (length host + 20) then Inl NullPointer
                 else
                 let str = copy_address (length host + 20) host port;
                     s = get_svc srv mode;
                     s' = s\<lparr>hoststrs := (hoststrs s)[svctype_ix type := Some str]\<rparr>;
                     srv' = set_svc srv mode s' in
                 Inr (cfg\<lparr>servers := (servers cfg)[ix := srv']\<rparr>, Some str)))))"

definition lcbvb_get_hostname :: "CONFIG \<Rightarrow> nat \<Rightarrow> string option res" where
  "lcbvb_get_hostname cfg ix =
     (if ix < nsrv cfg then res_bind (mem_get (servers cfg) ix) (\<lambda>srv. Inr (get_hostname srv)) else Inr None)"

text \<open>
  The nodes that offer a service and are not excluded, written to \<open>randbuf\<close> in order. \<open>used\<close> is the
  optional exclusion array.
\<close>

fun randhost_filter ::
  "CONFIG \<Rightarrow> SVCTYPE \<Rightarrow> SVCMODE \<Rightarrow> int list option \<Rightarrow> nat \<Rightarrow> SERVER list \<Rightarrow> int list \<Rightarrow> nat \<Rightarrow> (int list \<times> nat) res"
where
  "randhost_filter cfg type mode used nn [] buf oix = Inr (buf, oix)"
| "randhost_filter cfg type mode used nn (srv # srvs) buf oix =
     res_bind (case used of None \<Rightarrow> Inr 0 | Some u \<Rightarrow> mem_get u nn) (\<lambda>excluded.
       if excluded \<noteq> 0 then randhost_filter cfg type mode used (Suc nn) srvs buf oix
       else if svc_port (get_svc srv mode) type \<noteq> 0 then
         res_bind (mem_set buf oix (int nn)) (\<lambda>buf'.
           randhost_filter cfg type mode used (Suc nn) srvs buf' (Suc oix))
       else randhost_filter cfg type mode used (Suc nn) srvs buf oix)"

definition lcbvb_get_randhost_ex ::
  "CONFIG option \<Rightarrow> SVCTYPE \<Rightarrow> SVCMODE \<Rightarrow> int list option \<Rightarrow> nat \<Rightarrow> (CONFIG option \<times> int) res" where
  "lcbvb_get_randhost_ex cfgp type mode used rand =
     (case cfgp of
        None \<Rightarrow> Inr (None, - 1)
      | Some cfg \<Rightarrow>
          res_bind (mem_read (servers cfg) 0 (nsrv cfg)) (\<lambda>srvs.
          res_bind (randhost_filter cfg type mode used 0 srvs (randbuf cfg) 0) (\<lambda>(buf, oix).
            let cfg' = cfg\<lparr>randbuf := buf\<rparr> in
            if oix = 0 then Inr (Some cfg', - 1)
            else res_bind (mem_get buf (rand mod oix)) (\<lambda>r. Inr (Some cfg', r)))))"

definition lcbvb_get_randhost :: "CONFIG option \<Rightarrow> SVCTYPE \<Rightarrow> SVCMODE \<Rightarrow> nat \<Rightarrow> (CONFIG option \<times> int) res" where
  "lcbvb_get_randhost cfg type mode rand = lcbvb_get_randhost_ex cfg type mode None rand"

text \<open>The path and the cached base URL of a service that has one.\<close>

fun svc_path :: "SERVER \<Rightarrow> SVCTYPE \<Rightarrow> string option" where
  "svc_path srv SVC_VIEWS = viewpath srv"
| "svc_path srv SVC_QUERY = querypath srv"
| "svc_path srv SVC_SEARCH = ftspath srv"
| "svc_path srv SVC_ANALYTICS = cbaspath srv"
| "svc_path srv SVC_EVENTING = eventingpath srv"
| "svc_path srv _ = None"

fun svc_base :: "SERVICES \<Rightarrow> SVCTYPE \<Rightarrow> string option" where
  "svc_base s SVC_VIEWS = views_base s"
| "svc_base s SVC_QUERY = query_base s"
| "svc_base s SVC_SEARCH = fts_base s"
| "svc_base s SVC_ANALYTICS = cbas_base s"
| "svc_base s SVC_EVENTING = eventing_base s"
| "svc_base s _ = None"

fun set_svc_base :: "SERVICES \<Rightarrow> SVCTYPE \<Rightarrow> string \<Rightarrow> SERVICES" where
  "set_svc_base s SVC_VIEWS u = s\<lparr>views_base := Some u\<rparr>"
| "set_svc_base s SVC_QUERY u = s\<lparr>query_base := Some u\<rparr>"
| "set_svc_base s SVC_SEARCH u = s\<lparr>fts_base := Some u\<rparr>"
| "set_svc_base s SVC_ANALYTICS u = s\<lparr>cbas_base := Some u\<rparr>"
| "set_svc_base s SVC_EVENTING u = s\<lparr>eventing_base := Some u\<rparr>"
| "set_svc_base s _ u = s"

definition resturl_text :: "SVCMODE \<Rightarrow> string \<Rightarrow> nat \<Rightarrow> string \<Rightarrow> string" where
  "resturl_text mode host port path =
     (let prefix = (if mode = MODE_PLAIN then ''http'' else ''https'') in
      if CHR '':'' \<in> set host then prefix @ ''://['' @ host @ '']:'' @ dec_digits port @ path
      else prefix @ ''://'' @ host @ '':'' @ dec_digits port @ path)"

definition lcbvb_get_resturl :: "CONFIG \<Rightarrow> nat \<Rightarrow> SVCTYPE \<Rightarrow> SVCMODE \<Rightarrow> (CONFIG \<times> string option) res" where
  "lcbvb_get_resturl cfg ix type mode =
     res_bind (lcbvb_get_port cfg ix type mode) (\<lambda>port.
       if port = 0 then Inr (cfg, None)
       else
         res_bind (mem_get (servers cfg) ix) (\<lambda>srv.
           case svc_path srv type of
             None \<Rightarrow> Inr (cfg, None)
           | Some path \<Rightarrow>
               (case svc_base (get_svc srv mode) type of
                  Some u \<Rightarrow> Inr (cfg, Some u)
                | None \<Rightarrow>
                    res_bind (c_deref (get_hostname srv)) (\<lambda>host.
                      let u = c_snprintf 4096 (resturl_text mode host port path);
                          srv' = set_svc srv mode (set_svc_base (get_svc srv mode) type u) in
                      Inr (cfg\<lparr>servers := (servers cfg)[ix := srv']\<rparr>, Some u)))))"

definition lcbvb_get_capibase :: "CONFIG \<Rightarrow> nat \<Rightarrow> SVCMODE \<Rightarrow> (CONFIG \<times> string option) res" where
  "lcbvb_get_capibase cfg ix mode = lcbvb_get_resturl cfg ix SVC_VIEWS mode"

definition lcbvb_get_revision :: "CONFIG \<Rightarrow> int" where
  "lcbvb_get_revision cfg = c_int (revid cfg)"

definition lcbvb_get_nservers :: "CONFIG \<Rightarrow> nat" where
  "lcbvb_get_nservers cfg = nsrv cfg"

definition lcbvb_get_nreplicas :: "CONFIG \<Rightarrow> nat" where
  "lcbvb_get_nreplicas cfg = nrepl cfg"

definition lcbvb_get_nvbuckets :: "CONFIG \<Rightarrow> nat" where
  "lcbvb_get_nvbuckets cfg = nvb cfg"

definition lcbvb_get_distmode :: "CONFIG \<Rightarrow> DISTMODE" where
  "lcbvb_get_distmode cfg = dtype cfg"

definition lcbvb_get_error :: "CONFIG \<Rightarrow> string option" where
  "lcbvb_get_error cfg = errstr cfg"

section \<open>Facts on the C library functions\<close>

lemma arr_get_Some: "0 \<le> i \<Longrightarrow> nat i < length xs \<Longrightarrow> arr_get (Some xs) i = Inr (xs ! nat i)"
  by (simp add: arr_get_def mem_get_def)

lemma c_deref_simps [simp]: "c_deref (Some x) = Inr x" "c_deref None = Inl NullPointer"
  by (simp_all add: c_deref_def)

section \<open>Cached host strings\<close>

definition address :: "string \<Rightarrow> nat \<Rightarrow> string" where
  "address host port =
     (if CHR '':'' \<in> set host then ''['' @ host @ '']:'' @ dec_digits port else host @ '':'' @ dec_digits port)"

lemma copy_address_fits:
  assumes "port < 2 ^ 16" and "length host + 20 \<le> n"
  shows "copy_address n host port = address host port"
proof -
  have "length (dec_digits port) \<le> 5" using length_dec_digits [of port 4] assms(1) by simp
  moreover obtain k where "n = length host + 20 + k" using assms(2) le_Suc_ex by blast
  ultimately have "length (address host port) \<le> n - 1" by (simp add: address_def)
  then show ?thesis unfolding copy_address_def c_snprintf_def address_def [symmetric] by simp
qed

lemma svctype_ix_less [simp]: "svctype_ix t < 9"
  by (cases t) simp_all

lemma get_svc_set_svc [simp]: "get_svc (set_svc srv mode s) mode = s"
  by (cases "alt_hostname srv") (simp_all add: get_svc_def set_svc_def)

lemma get_hostname_set_svc [simp]: "get_hostname (set_svc srv mode s) = get_hostname srv"
  by (cases "alt_hostname srv") (simp_all add: get_hostname_def set_svc_def)

lemma svc_port_hoststrs [simp]: "svc_port (s\<lparr>hoststrs := h\<rparr>) t = svc_port s t"
  by (cases t) simp_all

text \<open>A node as the getters expect it: in range, with a host name and the array of cached strings.\<close>

definition node_ok :: "CONFIG \<Rightarrow> nat \<Rightarrow> SVCMODE \<Rightarrow> bool" where
  "node_ok cfg ix mode \<longleftrightarrow>
     ix < nsrv cfg \<and> ix < length (servers cfg) \<and> get_hostname (servers cfg ! ix) \<noteq> None \<and>
     length (hoststrs (get_svc (servers cfg ! ix) mode)) = SVCTYPE__MAX"

lemma lcbvb_get_port_ok: "node_ok cfg ix mode \<Longrightarrow>
  lcbvb_get_port cfg ix type mode = Inr (svc_port (get_svc (servers cfg ! ix) mode) type)"
  by (simp add: lcbvb_get_port_def node_ok_def mem_get_def)

lemma lcbvb_get_hostport_cached:
  assumes "node_ok cfg ix mode" and "svc_port (get_svc (servers cfg ! ix) mode) type \<noteq> 0"
    and "hoststrs (get_svc (servers cfg ! ix) mode) ! svctype_ix type = Some str"
  shows "lcbvb_get_hostport alloc cfg ix type mode = Inr (cfg, Some str)"
  using assms
  by (simp add: lcbvb_get_hostport_def lcbvb_get_port_ok node_ok_def mem_get_def SVCTYPE__MAX_def)

lemma lcbvb_get_hostport_fresh:
  assumes "node_ok cfg ix mode" and "svc_port (get_svc (servers cfg ! ix) mode) type \<noteq> 0"
    and "hoststrs (get_svc (servers cfg ! ix) mode) ! svctype_ix type = None"
    and "svc_port (get_svc (servers cfg ! ix) mode) type < 2 ^ 16"
    and "get_hostname (servers cfg ! ix) = Some host" and "alloc (length host + 20)"
  shows "\<exists>cfg' s'. lcbvb_get_hostport alloc cfg ix type mode =
      Inr (cfg', Some (address host (svc_port (get_svc (servers cfg ! ix) mode) type))) \<and>
    s' = (get_svc (servers cfg ! ix) mode)\<lparr>hoststrs :=
      (hoststrs (get_svc (servers cfg ! ix) mode))[svctype_ix type :=
         Some (address host (svc_port (get_svc (servers cfg ! ix) mode) type))]\<rparr> \<and>
    cfg' = cfg\<lparr>servers := (servers cfg)[ix := set_svc (servers cfg ! ix) mode s']\<rparr>"
  using assms
  by (simp add: lcbvb_get_hostport_def lcbvb_get_port_ok node_ok_def mem_get_def Let_def
      copy_address_fits SVCTYPE__MAX_def)

section \<open>Random selection of a node\<close>

text \<open>The nodes that qualify, in order.\<close>

definition offers :: "SVCTYPE \<Rightarrow> SVCMODE \<Rightarrow> int list option \<Rightarrow> nat \<Rightarrow> SERVER \<Rightarrow> bool" where
  "offers type mode used n srv \<longleftrightarrow>
     (case used of None \<Rightarrow> True | Some u \<Rightarrow> u ! n = 0) \<and> svc_port (get_svc srv mode) type \<noteq> 0"

fun candidates :: "SVCTYPE \<Rightarrow> SVCMODE \<Rightarrow> int list option \<Rightarrow> nat \<Rightarrow> SERVER list \<Rightarrow> int list" where
  "candidates type mode used nn [] = []"
| "candidates type mode used nn (srv # srvs) =
     (if offers type mode used nn srv then [int nn] else []) @ candidates type mode used (Suc nn) srvs"

lemma randhost_filter_candidates:
  assumes "oix + length srvs \<le> length buf"
    and "\<forall>u. used = Some u \<longrightarrow> nn + length srvs \<le> length u"
  shows "\<exists>buf'. randhost_filter cfg type mode used nn srvs buf oix =
      Inr (buf', oix + length (candidates type mode used nn srvs)) \<and>
    length buf' = length buf \<and>
    take (oix + length (candidates type mode used nn srvs)) buf' = take oix buf @ candidates type mode used nn srvs"
  using assms
proof (induction srvs arbitrary: nn buf oix)
  case Nil
  then show ?case by simp
next
  case (Cons srv srvs)
  define u where "u = (case used of None \<Rightarrow> 0 | Some u \<Rightarrow> u ! nn)"
  have u: "(case used of None \<Rightarrow> Inr 0 | Some u \<Rightarrow> mem_get u nn) = Inr u"
    using Cons.prems by (auto simp: u_def mem_get_def split: option.splits)
  have off: "offers type mode used nn srv \<longleftrightarrow> u = 0 \<and> svc_port (get_svc srv mode) type \<noteq> 0"
    by (simp add: offers_def u_def split: option.splits)
  have used': "\<forall>u. used = Some u \<longrightarrow> Suc nn + length srvs \<le> length u"
    using Cons.prems by (auto split: option.splits)
  show ?case
  proof (cases "offers type mode used nn srv")
    case True
    define b where "b = buf[oix := int nn]"
    have "oix < length buf" using Cons.prems by simp
    then have b: "mem_set buf oix (int nn) = Inr b" "take (Suc oix) b = take oix buf @ [int nn]" "length b = length buf"
      by (simp_all add: mem_set_def b_def take_Suc_conv_app_nth)
    have "Suc oix + length srvs \<le> length b" using Cons.prems b by simp
    from Cons.IH [OF this used'] show ?thesis using True off u b by (auto simp: True)
  next
    case False
    have "oix + length srvs \<le> length buf" using Cons.prems by simp
    from Cons.IH [OF this used'] show ?thesis using False off u by auto
  qed
qed

lemma set_candidates:
  "set (candidates type mode used nn srvs) =
     {int (nn + i) | i. i < length srvs \<and> offers type mode used (nn + i) (srvs ! i)}"
proof (induction srvs arbitrary: nn)
  case (Cons srv srvs)
  have "{int (nn + i) | i. i < length (srv # srvs) \<and> offers type mode used (nn + i) ((srv # srvs) ! i)} =
      {int nn | x::nat. offers type mode used nn srv} \<union>
      {int (Suc nn + i) | i. i < length srvs \<and> offers type mode used (Suc nn + i) (srvs ! i)}" (is "?l = ?r")
  proof
    show "?l \<subseteq> ?r"
    proof
      fix x assume "x \<in> ?l"
      then obtain i where i: "x = int (nn + i)" "i < length (srv # srvs)"
        "offers type mode used (nn + i) ((srv # srvs) ! i)" by blast
      then show "x \<in> ?r" by (cases i) auto
    qed
    show "?r \<subseteq> ?l" by (auto intro: exI [of _ 0] exI [of _ "Suc _"])
  qed
  then show ?case using Cons [of "Suc nn"] by auto
qed simp

text \<open>The choice is the entry of the candidate list at the random number, modulo its length.\<close>

lemma randhost_selects:
  assumes "nsrv cfg = length (servers cfg)" and "nsrv cfg \<le> length (randbuf cfg)"
    and "\<forall>u. used = Some u \<longrightarrow> nsrv cfg \<le> length u" and "cs = candidates type mode used 0 (servers cfg)"
  shows "\<exists>buf. \<forall>rand. lcbvb_get_randhost_ex (Some cfg) type mode used rand =
      Inr (Some (cfg\<lparr>randbuf := buf\<rparr>), if cs = [] then - 1 else cs ! (rand mod length cs))"
proof -
  obtain buf where buf: "randhost_filter cfg type mode used 0 (servers cfg) (randbuf cfg) 0 = Inr (buf, length cs)"
    "length buf = length (randbuf cfg)" "take (length cs) buf = cs"
    using randhost_filter_candidates [where oix = 0 and nn = 0 and srvs = "servers cfg" and buf = "randbuf cfg"
        and used = used and cfg = cfg and type = type and mode = mode] assms
    by auto
  have len: "length cs \<le> length buf" using buf(3) by (metis length_take min.cobounded1)
  have rd: "mem_read (servers cfg) 0 (nsrv cfg) = Inr (servers cfg)"
    using assms(1) by (simp add: mem_read_def)
  have "lcbvb_get_randhost_ex (Some cfg) type mode used rand =
      Inr (Some (cfg\<lparr>randbuf := buf\<rparr>), if cs = [] then - 1 else cs ! (rand mod length cs))" for rand
  proof (cases "cs = []")
    case False
    then have lt: "rand mod length cs < length cs" by simp
    then have "rand mod length cs < length buf" using len by linarith
    moreover have "buf ! (rand mod length cs) = cs ! (rand mod length cs)"
      using buf(3) lt by (metis nth_take)
    ultimately show ?thesis using False len
      by (simp add: lcbvb_get_randhost_ex_def rd buf(1) mem_get_def)
  qed (simp add: lcbvb_get_randhost_ex_def rd buf(1))
  then show ?thesis by blast
qed

section \<open>Properties\<close>

text \<open>
  \<^bold>\<open>C20\<close>. The host string of a service is built on the first request and cached: it is
  \<open>host:port\<close>, with brackets when the host is an IPv6 literal, never cut off by the buffer; the
  request changes no port and no host name; the next request returns the same string and leaves the
  configuration as it is. A service whose port is zero has no host string. Without memory for the string
  the address is written through a null pointer.
\<close>

theorem lcbvb_get_hostport_spec:
  assumes "node_ok cfg ix mode"
    and "get_hostname (servers cfg ! ix) = Some host"
    and "svc_port (get_svc (servers cfg ! ix) mode) type = port" and "port < 2 ^ 16"
    and "hoststrs (get_svc (servers cfg ! ix) mode) ! svctype_ix type = None"
  shows "if port \<noteq> 0 \<and> \<not> alloc (length host + 20) then lcbvb_get_hostport alloc cfg ix type mode = Inl NullPointer
   else \<exists>cfg' str. lcbvb_get_hostport alloc cfg ix type mode = Inr (cfg', str) \<and>
    str = (if port = 0 then None
           else if CHR '':'' \<in> set host then Some (''['' @ host @ '']:'' @ dec_digits port)
           else Some (host @ '':'' @ dec_digits port)) \<and>
    lcbvb_get_hostport alloc' cfg' ix type mode = Inr (cfg', str) \<and>
    lcbvb_get_port cfg' ix any mode = lcbvb_get_port cfg ix any mode \<and>
    lcbvb_get_hostname cfg' ix = lcbvb_get_hostname cfg ix"
proof (cases "port = 0 \<or> \<not> alloc (length host + 20)")
  case True
  then show ?thesis using assms
    by (auto simp: lcbvb_get_hostport_def lcbvb_get_port_ok node_ok_def mem_get_def SVCTYPE__MAX_def)
next
  case nz: False
  then have False: "port \<noteq> 0" and room: "alloc (length host + 20)" by simp_all
  define s s' where "s = get_svc (servers cfg ! ix) mode"
    and "s' = s\<lparr>hoststrs := (hoststrs s)[svctype_ix type := Some (address host port)]\<rparr>"
  define cfg' where "cfg' = cfg\<lparr>servers := (servers cfg)[ix := set_svc (servers cfg ! ix) mode s']\<rparr>"
  have first: "lcbvb_get_hostport alloc cfg ix type mode = Inr (cfg', Some (address host port))"
    using lcbvb_get_hostport_fresh [where alloc = alloc, OF assms(1) _ assms(5) _ assms(2) room] False assms(3,4)
    by (simp add: cfg'_def s'_def s_def)
  have ix: "ix < nsrv cfg" "ix < length (servers cfg)" "length (hoststrs s) = SVCTYPE__MAX"
    using assms(1) by (simp_all add: node_ok_def s_def)
  have ok: "node_ok cfg' ix mode" using ix assms(1) by (simp add: node_ok_def cfg'_def s'_def)
  have svc: "get_svc (servers cfg' ! ix) mode = s'" using ix by (simp add: cfg'_def)
  have ports: "svc_port s' any = svc_port s any" for any by (simp add: s'_def)
  have "lcbvb_get_hostport alloc' cfg' ix type mode = Inr (cfg', Some (address host port))"
    using ok False assms(3) ix
    by (intro lcbvb_get_hostport_cached)
      (simp_all add: svc ports s_def [symmetric] SVCTYPE__MAX_def, simp add: s'_def SVCTYPE__MAX_def)
  moreover have "lcbvb_get_port cfg' ix any mode = lcbvb_get_port cfg ix any mode"
    using ok assms(1) by (simp add: lcbvb_get_port_ok svc ports s_def)
  moreover have "lcbvb_get_hostname cfg' ix = lcbvb_get_hostname cfg ix"
    using ix by (simp add: lcbvb_get_hostname_def mem_get_def cfg'_def)
  ultimately show ?thesis using first False room by (simp add: address_def)
qed

definition sample_server :: "string \<Rightarrow> nat \<Rightarrow> SERVER" where
  "sample_server host port = no_server\<lparr>hostname := Some host, svc := no_services\<lparr>data := port\<rparr>\<rparr>"

definition sample_config :: CONFIG where
  "sample_config = lcbvb_create\<lparr>nsrv := 3, servers :=
     [sample_server ''a'' 11210, sample_server ''::1'' 11211, sample_server ''c'' 0], randbuf := [0, 0, 0]\<rparr>"

lemma sample_config_simps:
  "nsrv sample_config = 3" "length (servers sample_config) = 3" "length (randbuf sample_config) = 3"
  "servers sample_config ! Suc 0 = sample_server ''::1'' 11211"
  by (simp_all add: sample_config_def lcbvb_create_def)

lemma sample_server_simps:
  "get_hostname (sample_server host port) = Some host"
  "data (get_svc (sample_server host port) MODE_PLAIN) = port"
  "hoststrs (get_svc (sample_server host port) MODE_PLAIN) = replicate SVCTYPE__MAX None"
  by (simp_all add: sample_server_def no_server_def no_services_def get_hostname_def get_svc_def)

theorem lcbvb_get_hostport_spec_witness:
  "\<exists>cfg'. lcbvb_get_hostport (\<lambda>_. True) sample_config 1 SVC_DATA MODE_PLAIN = Inr (cfg', Some ''[::1]:11211'')"
proof -
  have "dec_digits 11211 = ''11211''" by (simp add: dec_digits.simps char_of_def bit_0)
  then show ?thesis
    using lcbvb_get_hostport_spec [of sample_config 1 MODE_PLAIN "''::1''" SVC_DATA 11211 "\<lambda>_. True" "\<lambda>_. True" SVC_DATA]
    by (auto simp: node_ok_def sample_config_simps sample_server_simps SVCTYPE__MAX_def)
qed

text \<open>
  \<^bold>\<open>C21\<close>. The random choice of a node for a service returns a node of the configuration that offers
  the service and is not in the exclusion list, it can return every such node, and it returns \<open>-1\<close> exactly
  when there is none; nothing but the scratch array of the configuration changes, and no access is out
  of bounds.
\<close>

theorem lcbvb_get_randhost_ex_spec:
  assumes "nsrv cfg = length (servers cfg)" and "nsrv cfg \<le> length (randbuf cfg)"
    and "\<forall>u. used = Some u \<longrightarrow> nsrv cfg \<le> length u"
  shows "(\<exists>buf. \<forall>rand. \<exists>r. lcbvb_get_randhost_ex (Some cfg) type mode used rand = Inr (Some (cfg\<lparr>randbuf := buf\<rparr>), r) \<and>
      (if \<exists>n < nsrv cfg. offers type mode used n (servers cfg ! n)
       then 0 \<le> r \<and> nat r < nsrv cfg \<and> offers type mode used (nat r) (servers cfg ! nat r)
       else r = - 1)) \<and>
    (\<forall>n < nsrv cfg. offers type mode used n (servers cfg ! n) \<longrightarrow>
      (\<exists>rand cfg'. lcbvb_get_randhost_ex (Some cfg) type mode used rand = Inr (Some cfg', int n)))"
proof -
  define cs where "cs = candidates type mode used 0 (servers cfg)"
  define pick where "pick rand = (if cs = [] then - 1 else cs ! (rand mod length cs))" for rand
  obtain buf where sel: "lcbvb_get_randhost_ex (Some cfg) type mode used rand =
      Inr (Some (cfg\<lparr>randbuf := buf\<rparr>), pick rand)" for rand
    using randhost_selects [OF assms cs_def] unfolding pick_def by blast
  have set: "set cs = {int i | i. i < nsrv cfg \<and> offers type mode used i (servers cfg ! i)}"
    unfolding cs_def set_candidates using assms(1) by simp
  have some: "if \<exists>n < nsrv cfg. offers type mode used n (servers cfg ! n)
      then 0 \<le> pick rand \<and> nat (pick rand) < nsrv cfg \<and> offers type mode used (nat (pick rand)) (servers cfg ! nat (pick rand))
      else pick rand = - 1" for rand
  proof (cases "cs = []")
    case True
    then have "\<not> (\<exists>n < nsrv cfg. offers type mode used n (servers cfg ! n))" using set by auto
    then show ?thesis using True by (simp add: pick_def)
  next
    case False
    then have "pick rand \<in> set cs" by (simp add: pick_def)
    then show ?thesis using set by auto
  qed
  have every: "\<exists>rand. pick rand = int n" if "n < nsrv cfg" "offers type mode used n (servers cfg ! n)" for n
  proof -
    have "int n \<in> set cs" using set that by blast
    then obtain i where "i < length cs" "cs ! i = int n" by (metis in_set_conv_nth)
    then show ?thesis by (intro exI [of _ i]) (auto simp: pick_def)
  qed
  show ?thesis
  proof (intro conjI allI impI)
    show "\<exists>buf. \<forall>rand. \<exists>r. lcbvb_get_randhost_ex (Some cfg) type mode used rand = Inr (Some (cfg\<lparr>randbuf := buf\<rparr>), r) \<and>
      (if \<exists>n < nsrv cfg. offers type mode used n (servers cfg ! n)
       then 0 \<le> r \<and> nat r < nsrv cfg \<and> offers type mode used (nat r) (servers cfg ! nat r)
       else r = - 1)" using sel some by blast
  qed (use sel every in metis)
qed

theorem lcbvb_get_randhost_ex_spec_witness:
  "\<exists>buf. \<forall>rand. \<exists>r. lcbvb_get_randhost_ex (Some sample_config) SVC_DATA MODE_PLAIN (Some [0, 1, 0]) rand =
      Inr (Some (sample_config\<lparr>randbuf := buf\<rparr>), r) \<and>
      (if \<exists>n < nsrv sample_config. offers SVC_DATA MODE_PLAIN (Some [0, 1, 0]) n (servers sample_config ! n)
       then 0 \<le> r \<and> nat r < nsrv sample_config \<and>
         offers SVC_DATA MODE_PLAIN (Some [0, 1, 0]) (nat r) (servers sample_config ! nat r)
       else r = - 1)"
  using lcbvb_get_randhost_ex_spec [of sample_config "Some [0, 1, 0]" SVC_DATA MODE_PLAIN]
  by (simp add: sample_config_simps)

end
