(* ===== verification/Md5.thy ===== *)
theory Md5
  imports Prelude
begin

text \<open>
  The MD5 digest of \<open>src/vbucket/rfc1321/md5c-inl.h\<close> and its wrappers in \<open>src/vbucket/ketama.c\<close>. The
  state is four 32 bit words, the bit count two more, and input is buffered in a block of 64 bytes.
  The 64 steps of \<open>MD5Transform\<close> are four tables; in each step the source rotates the roles of the four
  registers, and so does the model.
\<close>

section \<open>The compression function\<close>

type_synonym md5_state = "32 word \<times> 32 word \<times> 32 word \<times> 32 word"

definition md5_F :: "32 word \<Rightarrow> 32 word \<Rightarrow> 32 word \<Rightarrow> 32 word" where
  "md5_F x y z = (x AND y) OR (NOT x AND z)"

definition md5_G :: "32 word \<Rightarrow> 32 word \<Rightarrow> 32 word \<Rightarrow> 32 word" where
  "md5_G x y z = (x AND z) OR (y AND NOT z)"

definition md5_H :: "32 word \<Rightarrow> 32 word \<Rightarrow> 32 word \<Rightarrow> 32 word" where
  "md5_H x y z = x XOR y XOR z"

definition md5_I :: "32 word \<Rightarrow> 32 word \<Rightarrow> 32 word \<Rightarrow> 32 word" where
  "md5_I x y z = y XOR (x OR NOT z)"

definition ROTATE_LEFT :: "32 word \<Rightarrow> nat \<Rightarrow> 32 word" where
  "ROTATE_LEFT x n = push_bit n x OR drop_bit (32 - n) x"

text \<open>One of the macros \<open>FF\<close>, \<open>GG\<close>, \<open>HH\<close>, \<open>II\<close>, followed by the renaming of the registers for the next one.\<close>

definition md5_step ::
  "(32 word \<Rightarrow> 32 word \<Rightarrow> 32 word \<Rightarrow> 32 word) \<Rightarrow> 32 word list \<Rightarrow> nat \<times> nat \<times> 32 word \<Rightarrow> md5_state \<Rightarrow> md5_state" where
  "md5_step f x step s =
     (case step of (k, r, ac) \<Rightarrow> case s of (a, b, c, d) \<Rightarrow>
        (d, ROTATE_LEFT (a + (f b c d + x ! k + ac)) r + b, b, c))"

definition md5_round1 :: "(nat \<times> nat \<times> 32 word) list" where
  "md5_round1 =
    [(0, 7, 0xd76aa478), (1, 12, 0xe8c7b756), (2, 17, 0x242070db), (3, 22, 0xc1bdceee),
     (4, 7, 0xf57c0faf), (5, 12, 0x4787c62a), (6, 17, 0xa8304613), (7, 22, 0xfd469501),
     (8, 7, 0x698098d8), (9, 12, 0x8b44f7af), (10, 17, 0xffff5bb1), (11, 22, 0x895cd7be),
     (12, 7, 0x6b901122), (13, 12, 0xfd987193), (14, 17, 0xa679438e), (15, 22, 0x49b40821)]"

definition md5_round2 :: "(nat \<times> nat \<times> 32 word) list" where
  "md5_round2 =
    [(1, 5, 0xf61e2562), (6, 9, 0xc040b340), (11, 14, 0x265e5a51), (0, 20, 0xe9b6c7aa),
     (5, 5, 0xd62f105d), (10, 9, 0x2441453), (15, 14, 0xd8a1e681), (4, 20, 0xe7d3fbc8),
     (9, 5, 0x21e1cde6), (14, 9, 0xc33707d6), (3, 14, 0xf4d50d87), (8, 20, 0x455a14ed),
     (13, 5, 0xa9e3e905), (2, 9, 0xfcefa3f8), (7, 14, 0x676f02d9), (12, 20, 0x8d2a4c8a)]"

definition md5_round3 :: "(nat \<times> nat \<times> 32 word) list" where
  "md5_round3 =
    [(5, 4, 0xfffa3942), (8, 11, 0x8771f681), (11, 16, 0x6d9d6122), (14, 23, 0xfde5380c),
     (1, 4, 0xa4beea44), (4, 11, 0x4bdecfa9), (7, 16, 0xf6bb4b60), (10, 23, 0xbebfbc70),
     (13, 4, 0x289b7ec6), (0, 11, 0xeaa127fa), (3, 16, 0xd4ef3085), (6, 23, 0x4881d05),
     (9, 4, 0xd9d4d039), (12, 11, 0xe6db99e5), (15, 16, 0x1fa27cf8), (2, 23, 0xc4ac5665)]"

definition md5_round4 :: "(nat \<times> nat \<times> 32 word) list" where
  "md5_round4 =
    [(0, 6, 0xf4292244), (7, 10, 0x432aff97), (14, 15, 0xab9423a7), (5, 21, 0xfc93a039),
     (12, 6, 0x655b59c3), (3, 10, 0x8f0ccc92), (10, 15, 0xffeff47d), (1, 21, 0x85845dd1),
     (8, 6, 0x6fa87e4f), (15, 10, 0xfe2ce6e0), (6, 15, 0xa3014314), (13, 21, 0x4e0811a1),
     (4, 6, 0xf7537e82), (11, 10, 0xbd3af235), (2, 15, 0x2ad7d2bb), (9, 21, 0xeb86d391)]"

definition Encode :: "32 word list \<Rightarrow> byte list" where
  "Encode ws = concat (map (\<lambda>w. [ucast (w AND 0xff), ucast (drop_bit 8 w AND 0xff),
     ucast (drop_bit 16 w AND 0xff), ucast (drop_bit 24 w AND 0xff)]) ws)"

fun Decode :: "byte list \<Rightarrow> 32 word list" where
  "Decode (a # b # c # d # s) =
     (ucast a OR push_bit 8 (ucast b) OR push_bit 16 (ucast c) OR push_bit 24 (ucast d)) # Decode s"
| "Decode _ = []"

definition MD5Transform :: "md5_state \<Rightarrow> byte list \<Rightarrow> md5_state" where
  "MD5Transform s block =
     (let x = Decode block;
          s1 = fold (md5_step md5_F x) md5_round1 s;
          s2 = fold (md5_step md5_G x) md5_round2 s1;
          s3 = fold (md5_step md5_H x) md5_round3 s2;
          s4 = fold (md5_step md5_I x) md5_round4 s3 in
      case s of (a0, b0, c0, d0) \<Rightarrow> case s4 of (a, b, c, d) \<Rightarrow> (a0 + a, b0 + b, c0 + c, d0 + d))"

section \<open>The context\<close>

record MD5_CTX =
  md_state :: md5_state
  md_count0 :: "32 word"
  md_count1 :: "32 word"
  md_buffer :: "byte list"

definition PADDING :: "byte list" where
  "PADDING = 0x80 # replicate 63 0"

text \<open>The buffer is not initialised by the source; it is an argument.\<close>

definition MD5Init :: "byte list \<Rightarrow> MD5_CTX" where
  "MD5Init buffer =
     \<lparr>md_state = (0x67452301, 0xefcdab89, 0x98badcfe, 0x10325476), md_count0 = 0, md_count1 = 0, md_buffer = buffer\<rparr>"

text \<open>The loop over the whole blocks of the input; \<open>i + 63\<close> is unsigned 32 bit arithmetic.\<close>

function md5_blocks :: "md5_state \<Rightarrow> byte list \<Rightarrow> nat \<Rightarrow> (md5_state \<times> nat) res" where
  "md5_blocks s input i =
     (if uadd 32 i 63 < length input then
        (if i + 64 \<le> length input then
           md5_blocks (MD5Transform s (take 64 (drop i input))) input (i + 64)
         else Inl OutOfBounds)
      else Inr (s, i))"
  by pat_completeness auto
termination
  by (relation "measure (\<lambda>(s, input, i). length input - i)") auto

declare md5_blocks.simps [simp del]

definition MD5Update :: "MD5_CTX \<Rightarrow> byte list \<Rightarrow> MD5_CTX res" where
  "MD5Update ctx input =
     (let inputLen = length input;
          ix = unat (drop_bit 3 (md_count0 ctx) AND 0x3F);
          bits = push_bit 3 (word_of_nat inputLen) :: 32 word;
          c0 = md_count0 ctx + bits;
          c1 = (if c0 < bits then md_count1 ctx + 1 else md_count1 ctx) + drop_bit 29 (word_of_nat inputLen);
          partLen = 64 - ix in
      if partLen \<le> inputLen then
        res_bind (mem_write (md_buffer ctx) ix (take partLen input)) (\<lambda>buf1.
        res_bind (md5_blocks (MD5Transform (md_state ctx) buf1) input partLen) (\<lambda>(s, i).
        res_bind (mem_write buf1 0 (drop i input)) (\<lambda>buf2.
          Inr \<lparr>md_state = s, md_count0 = c0, md_count1 = c1, md_buffer = buf2\<rparr>)))
      else
        res_bind (mem_write (md_buffer ctx) ix input) (\<lambda>buf.
          Inr \<lparr>md_state = md_state ctx, md_count0 = c0, md_count1 = c1, md_buffer = buf\<rparr>))"

text \<open>The context is zeroed after the digest is stored; \<open>MD5_cleared\<close> is the zeroed context.\<close>

definition MD5_cleared :: MD5_CTX where
  "MD5_cleared = \<lparr>md_state = (0, 0, 0, 0), md_count0 = 0, md_count1 = 0, md_buffer = replicate 64 0\<rparr>"

definition MD5Final :: "MD5_CTX \<Rightarrow> (byte list \<times> MD5_CTX) res" where
  "MD5Final ctx =
     (let bits = Encode [md_count0 ctx, md_count1 ctx];
          ix = unat (drop_bit 3 (md_count0 ctx) AND 0x3f);
          padLen = (if ix < 56 then 56 - ix else 120 - ix) in
      res_bind (MD5Update ctx (take padLen PADDING)) (\<lambda>ctx1.
      res_bind (MD5Update ctx1 bits) (\<lambda>ctx2.
        case md_state ctx2 of (a, b, c, d) \<Rightarrow> Inr (Encode [a, b, c, d], MD5_cleared))))"

section \<open>The wrappers\<close>

text \<open>The length of the key is cast to \<open>unsigned int\<close>.\<close>

definition md5_key :: "byte list \<Rightarrow> byte list" where
  "md5_key key = take (length key mod 2 ^ 32) key"

definition vb__hash_md5 :: "byte list \<Rightarrow> byte list \<Rightarrow> byte list res" where
  "vb__hash_md5 stack key =
     res_bind (MD5Update (MD5Init stack) (md5_key key)) (\<lambda>ctx.
     res_bind (MD5Final ctx) (\<lambda>(digest, ctx'). Inr digest))"

text \<open>
  \<open>alloc\<close> says whether \<open>calloc\<close> has memory for a new context; its result is not checked before the context is
  initialised.
\<close>

definition vb__hash_md5_update :: "bool \<Rightarrow> MD5_CTX option \<Rightarrow> byte list \<Rightarrow> MD5_CTX res" where
  "vb__hash_md5_update alloc ctx key =
     res_bind (case ctx of None \<Rightarrow> if alloc then Inr (MD5Init (replicate 64 0)) else Inl NullPointer | Some c \<Rightarrow> Inr c) (\<lambda>c.
       MD5Update c (md5_key key))"

definition vb__hash_md5_final :: "MD5_CTX option \<Rightarrow> byte list option res" where
  "vb__hash_md5_final ctx =
     (case ctx of
        None \<Rightarrow> Inr None
      | Some c \<Rightarrow> res_bind (MD5Final c) (\<lambda>(digest, ctx'). Inr (Some digest)))"

definition vb__hash_ketama :: "byte list \<Rightarrow> byte list \<Rightarrow> 32 word res" where
  "vb__hash_ketama stack key =
     res_bind (vb__hash_md5 stack key) (\<lambda>digest.
       Inr (push_bit 24 (ucast (digest ! 3)) OR push_bit 16 (ucast (digest ! 2)) OR
            push_bit 8 (ucast (digest ! 1)) OR ucast (digest ! 0)))"

section \<open>The digest of a message\<close>

text \<open>
  The reference: a message is padded to whole blocks with a one bit, zeros and its length in bits, and
  the digest is the chaining value after its blocks. \<open>md5_tail\<close> is what follows the last whole block.
\<close>

function md5_chain :: "md5_state \<Rightarrow> byte list \<Rightarrow> md5_state" where
  "md5_chain st s = (if length s < 64 then st else md5_chain (MD5Transform st (take 64 s)) (drop 64 s))"
  by pat_completeness auto
termination
  by (relation "measure (\<lambda>(st, s). length s)") auto

declare md5_chain.simps [simp del]

definition md5_tail :: "byte list \<Rightarrow> byte list" where
  "md5_tail s = drop (64 * (length s div 64)) s"

definition md5_bits :: "byte list \<Rightarrow> 32 word list" where
  "md5_bits s = [word_of_nat (8 * length s), word_of_nat (8 * length s div 2 ^ 32)]"

definition md5_pad :: "byte list \<Rightarrow> byte list" where
  "md5_pad s =
     (let r = length s mod 64 in take (if r < 56 then 56 - r else 120 - r) PADDING) @ Encode (md5_bits s)"

definition md5_init :: md5_state where
  "md5_init = (0x67452301, 0xefcdab89, 0x98badcfe, 0x10325476)"

definition md5_digest :: "byte list \<Rightarrow> byte list" where
  "md5_digest s = (case md5_chain md5_init (s @ md5_pad s) of (a, b, c, d) \<Rightarrow> Encode [a, b, c, d])"

text \<open>What a context holds after the message \<open>s\<close>.\<close>

definition md5_repr :: "MD5_CTX \<Rightarrow> byte list \<Rightarrow> bool" where
  "md5_repr ctx s \<longleftrightarrow>
     length (md_buffer ctx) = 64 \<and> md_state ctx = md5_chain md5_init s \<and>
     take (length s mod 64) (md_buffer ctx) = md5_tail s \<and>
     [md_count0 ctx, md_count1 ctx] = md5_bits s"

subsection \<open>Whole blocks and the tail\<close>

lemma md5_chain_short: "length s < 64 \<Longrightarrow> md5_chain st s = st"
  by (simp add: md5_chain.simps)

lemma md5_chain_block:
  "length b = 64 \<Longrightarrow> md5_chain st (b @ t) = md5_chain (MD5Transform st b) t"
  by (subst md5_chain.simps) simp

lemma length_md5_tail: "length (md5_tail s) = length s mod 64"
  by (simp add: md5_tail_def minus_mult_div_eq_mod)

lemma md5_tail_short: "length s < 64 \<Longrightarrow> md5_tail s = s"
  by (simp add: md5_tail_def)

lemma md5_tail_drop: "64 \<le> length s \<Longrightarrow> md5_tail (drop 64 s) = md5_tail s"
proof -
  assume a: "64 \<le> length s"
  then have "length s div 64 = Suc ((length s - 64) div 64)" by (simp add: le_div_geq)
  then show ?thesis by (simp add: md5_tail_def add.commute)
qed

lemma md5_tail_block: "length b = 64 \<Longrightarrow> md5_tail (b @ t) = md5_tail t"
  using md5_tail_drop [of "b @ t"] by simp

lemma md5_append:
  "md5_chain st (s @ t) = md5_chain (md5_chain st s) (md5_tail s @ t) \<and>
   md5_tail (s @ t) = md5_tail (md5_tail s @ t)"
proof (induction st s rule: md5_chain.induct)
  case (1 st s)
  show ?case
  proof (cases "length s < 64")
    case True
    then show ?thesis by (simp add: md5_tail_short md5_chain_short)
  next
    case False
    define b u where "b = take 64 s" and "u = drop 64 s"
    have s: "s = b @ u" and b: "length b = 64" using False by (simp_all add: b_def u_def)
    show ?thesis using 1 [OF False, folded b_def u_def] b
      by (simp add: s md5_chain_block md5_tail_block)
  qed
qed

lemma md5_blocks_chain:
  assumes "length input \<le> 2 ^ 32 - 64" and "i \<le> length input"
  shows "\<exists>j. md5_blocks st input i = Inr (md5_chain st (drop i input), j) \<and>
    drop j input = md5_tail (drop i input)"
  using assms
proof (induction st input i rule: md5_blocks.induct)
  case (1 st input i)
  have u: "uadd 32 i 63 = i + 63" using 1 by (intro uadd_nowrap) simp
  show ?case
  proof (cases "i + 64 \<le> length input")
    case True
    define st' where "st' = MD5Transform st (take 64 (drop i input))"
    have lt: "uadd 32 i 63 < length input" using True u by simp
    obtain j where j: "md5_blocks st' input (i + 64) = Inr (md5_chain st' (drop (i + 64) input), j)"
      "drop j input = md5_tail (drop (i + 64) input)"
      using "1.IH" [OF lt True, folded st'_def] "1.prems"(1) True by blast
    have split: "drop i input = take 64 (drop i input) @ drop (i + 64) input"
      by (metis add.commute append_take_drop_id drop_drop)
    have len: "length (take 64 (drop i input)) = 64" using True by simp
    have "md5_chain st (drop i input) = md5_chain st' (drop (i + 64) input)"
      "md5_tail (drop i input) = md5_tail (drop (i + 64) input)"
      unfolding st'_def using md5_chain_block [OF len] md5_tail_block [OF len] split by metis+
    then show ?thesis using j True u
      by (subst md5_blocks.simps) (simp add: st'_def)
  next
    case False
    then show ?thesis using u
      by (subst md5_blocks.simps) (simp add: md5_chain_short md5_tail_short)
  qed
qed

subsection \<open>The bit count\<close>

lemma carry_iff:
  fixes m n N :: nat
  assumes "0 < N"
  shows "(m + n) mod N < n mod N \<longleftrightarrow> N \<le> m mod N + n mod N"
    "(m + n) div N = m div N + n div N + (if N \<le> m mod N + n mod N then 1 else 0)"
proof -
  define x y where "x = m mod N" and "y = n mod N"
  have xy: "x < N" "y < N" using assms by (simp_all add: x_def y_def)
  have q: "(x + y) div N = (if N \<le> x + y then 1 else 0)"
    using xy by (auto simp: div_nat_eqI)
  have "(m + n) mod N = (x + y) mod N" by (simp add: x_def y_def mod_add_eq)
  also have "\<dots> = (if N \<le> x + y then x + y - N else x + y)"
    using xy by (simp add: le_mod_geq)
  finally show "(m + n) mod N < n mod N \<longleftrightarrow> N \<le> m mod N + n mod N"
    using xy unfolding x_def [symmetric] y_def [symmetric] by auto
  show "(m + n) div N = m div N + n div N + (if N \<le> m mod N + n mod N then 1 else 0)"
    using q unfolding x_def y_def by (simp only: div_add1_eq [of m n])
qed

lemma md5_bits_append:
  fixes c0 c1 :: "32 word"
  assumes c: "[c0, c1] = md5_bits s" and n: "length t < 2 ^ 32"
  defines "b \<equiv> push_bit 3 (word_of_nat (length t)) :: 32 word"
  shows "[c0 + b, (if c0 + b < b then c1 + 1 else c1) + drop_bit 29 (word_of_nat (length t))] = md5_bits (s @ t)"
proof -
  define m n where "m = 8 * length s" and "n = 8 * length t"
  have b: "b = word_of_nat n" by (simp add: b_def n_def push_bit_eq_mult)
  have c0: "c0 = word_of_nat m" and c1: "c1 = word_of_nat (m div 2 ^ 32)"
    using c by (simp_all add: md5_bits_def m_def)
  have sum: "c0 + b = word_of_nat (m + n)" by (simp add: b c0)
  have hi: "drop_bit 29 (word_of_nat (length t) :: 32 word) = word_of_nat (n div 2 ^ 32)"
    using n by (intro word_unat_eq_iff [THEN iffD2])
      (simp add: unat_div_distrib drop_bit_eq_div unsigned_of_nat take_bit_eq_mod n_def)
  have "(c0 + b < b) = ((m + n) mod 2 ^ 32 < n mod 2 ^ 32)"
    unfolding sum unfolding b word_less_nat_alt unsigned_of_nat take_bit_eq_mod by simp
  also have "\<dots> = (2 ^ 32 \<le> m mod 2 ^ 32 + n mod 2 ^ 32)"
    by (rule carry_iff) simp
  finally have carry: "(c0 + b < b) = (2 ^ 32 \<le> m mod 2 ^ 32 + n mod 2 ^ 32)" .
  have "(m + n) div 2 ^ 32 = m div 2 ^ 32 + n div 2 ^ 32 + (if 2 ^ 32 \<le> m mod 2 ^ 32 + n mod 2 ^ 32 then 1 else 0)"
    by (rule carry_iff) simp
  then have "(if c0 + b < b then c1 + 1 else c1) + drop_bit 29 (word_of_nat (length t)) =
      (word_of_nat ((m + n) div 2 ^ 32) :: 32 word)"
    unfolding carry hi c1 by (simp only: of_nat_add split: if_split) simp
  moreover have "md5_bits (s @ t) = [word_of_nat (m + n), word_of_nat ((m + n) div 2 ^ 32)]"
    by (simp add: md5_bits_def m_def n_def distrib_left)
  ultimately show ?thesis using sum by (simp only:)
qed

lemma md5_index:
  fixes c0 :: "32 word"
  assumes "[c0, c1] = md5_bits s"
  shows "unat (drop_bit 3 c0 AND 0x3F) = length s mod 64"
proof -
  have c0: "unat c0 = 8 * length s mod 2 ^ 32"
    using assms by (simp only: md5_bits_def list.inject unsigned_of_nat take_bit_eq_mod) simp
  have "unat (drop_bit 3 c0 AND 0x3F) = unat (take_bit 6 (drop_bit 3 c0))"
    by (simp add: take_bit_eq_mask mask_eq_exp_minus_1)
  also have "\<dots> = (8 * length s mod 2 ^ 32) div 8 mod 64"
    by (simp add: c0 unat_div_distrib unat_mod_distrib drop_bit_eq_div take_bit_eq_mod)
  also have "\<dots> = length s mod 2 ^ 29 mod 64"
    using mod_mult_mult1 [of 8 "length s" "2 ^ 29"] by simp
  also have "\<dots> = length s mod 64" by (rule mod_mod_cancel) simp
  finally show ?thesis .
qed

subsection \<open>Every operation keeps the representation\<close>

lemma md5_repr_init: "length stack = 64 \<Longrightarrow> md5_repr (MD5Init stack) []"
  by (simp add: md5_repr_def MD5Init_def md5_init_def md5_chain_short md5_tail_def md5_bits_def)

lemma MD5Update_repr:
  assumes r: "md5_repr ctx s" and t: "length t \<le> 2 ^ 32 - 64"
  shows "\<exists>ctx'. MD5Update ctx t = Inr ctx' \<and> md5_repr ctx' (s @ t)"
proof -
  define ix where "ix = length s mod 64"
  define c0 c1 where "c0 = md_count0 ctx" and "c1 = md_count1 ctx"
  define b where "b = (push_bit 3 (word_of_nat (length t)) :: 32 word)"
  define c1' where "c1' = (if c0 + b < b then c1 + 1 else c1) + drop_bit 29 (word_of_nat (length t))"
  have buf: "length (md_buffer ctx) = 64" and st: "md_state ctx = md5_chain md5_init s"
    and tl: "take ix (md_buffer ctx) = md5_tail s" and c: "[c0, c1] = md5_bits s"
    using r by (simp_all add: md5_repr_def ix_def c0_def c1_def)
  have i: "unat (drop_bit 3 (md_count0 ctx) AND 0x3F) = ix" "ix < 64" "length (md5_tail s) = ix"
    using md5_index [OF c] by (simp_all add: ix_def c0_def length_md5_tail)
  have bits: "[c0 + b, c1'] = md5_bits (s @ t)"
    unfolding b_def c1'_def using c t by (intro md5_bits_append) simp_all
  show ?thesis
  proof (cases "64 - ix \<le> length t")
    case True
    define p where "p = 64 - ix"
    define blk where "blk = md5_tail s @ take p t"
    have blk: "length blk = 64" using True i by (simp add: blk_def p_def)
    have w1: "mem_write (md_buffer ctx) ix (take p t) = Inr blk"
      using True i buf tl by (simp add: mem_write_def blk_def p_def)
    obtain j where j: "md5_blocks (MD5Transform (md_state ctx) blk) t p =
        Inr (md5_chain (MD5Transform (md_state ctx) blk) (drop p t), j)" "drop j t = md5_tail (drop p t)"
      using md5_blocks_chain [OF t] True unfolding p_def by blast
    have short: "length (drop j t) < 64" by (simp add: j(2) length_md5_tail)
    define buf2 where "buf2 = drop j t @ drop (length (drop j t)) blk"
    have w2: "mem_write blk 0 (drop j t) = Inr buf2"
      using short blk by (simp add: mem_write_def buf2_def)
    have split: "md5_tail s @ t = blk @ drop p t" by (simp add: blk_def)
    have ch: "md5_chain md5_init (s @ t) = md5_chain (MD5Transform (md_state ctx) blk) (drop p t)"
      "md5_tail (s @ t) = drop j t"
      using md5_append [of md5_init s t] blk
      by (simp_all add: split st md5_chain_block md5_tail_block j(2))
    have "MD5Update ctx t = Inr \<lparr>md_state = md5_chain (MD5Transform (md_state ctx) blk) (drop p t),
        md_count0 = c0 + b, md_count1 = c1', md_buffer = buf2\<rparr>"
      using True w1 w2 j(1) unfolding MD5Update_def Let_def i(1) p_def
      by (simp add: c1'_def c0_def c1_def b_def)
    moreover have "length (drop j t) = length (s @ t) mod 64" "length buf2 = 64"
      using length_md5_tail [of "s @ t"] short blk by (simp_all add: ch buf2_def)
    ultimately show ?thesis using bits ch by (simp add: md5_repr_def buf2_def)
  next
    case False
    then have w: "mem_write (md_buffer ctx) ix t =
        Inr (md5_tail s @ t @ drop (ix + length t) (md_buffer ctx))"
      using i buf tl by (simp add: mem_write_def)
    have short: "length (md5_tail s @ t) < 64" using False i by simp
    have ch: "md5_chain md5_init (s @ t) = md_state ctx" "md5_tail (s @ t) = md5_tail s @ t"
      using md5_append [of md5_init s t] md5_chain_short [OF short] md5_tail_short [OF short] st by simp_all
    have "MD5Update ctx t = Inr \<lparr>md_state = md_state ctx, md_count0 = c0 + b, md_count1 = c1',
        md_buffer = md5_tail s @ t @ drop (ix + length t) (md_buffer ctx)\<rparr>"
      using False w unfolding MD5Update_def Let_def i(1) by (simp add: c1'_def c0_def c1_def b_def)
    moreover have "length (md5_tail s @ t) = length (s @ t) mod 64"
      using length_md5_tail [of "s @ t"] by (simp add: ch)
    ultimately show ?thesis using bits ch short buf i False
      by (simp add: md5_repr_def)
  qed
qed

lemma MD5Final_digest:
  assumes r: "md5_repr ctx s"
  shows "MD5Final ctx = Inr (md5_digest s, MD5_cleared)"
proof -
  define padLen where "padLen = (let r = length s mod 64 in if r < 56 then 56 - r else 120 - r)"
  define pad where "pad = take padLen PADDING"
  have c: "[md_count0 ctx, md_count1 ctx] = md5_bits s" using r by (simp add: md5_repr_def)
  have "length pad \<le> 64" by (simp add: pad_def PADDING_def)
  then obtain ctx1 where 1: "MD5Update ctx pad = Inr ctx1" "md5_repr ctx1 (s @ pad)"
    using MD5Update_repr [OF r, of pad] by auto
  have "length (Encode (md5_bits s)) = 8" by (simp add: Encode_def md5_bits_def)
  then obtain ctx2 where 2: "MD5Update ctx1 (Encode (md5_bits s)) = Inr ctx2"
    "md5_repr ctx2 ((s @ pad) @ Encode (md5_bits s))"
    using MD5Update_repr [OF 1(2), of "Encode (md5_bits s)"] by auto
  have "md_state ctx2 = md5_chain md5_init (s @ md5_pad s)"
    using 2(2) by (simp add: md5_repr_def md5_pad_def pad_def padLen_def Let_def)
  then show ?thesis
    using 1(1) 2(1) unfolding MD5Final_def Let_def md5_index [OF c] c
    by (simp add: pad_def padLen_def Let_def md5_digest_def split: prod.split)
qed

lemma vb__hash_md5_digest:
  assumes "length stack = 64" and "length key \<le> 2 ^ 32 - 64"
  shows "vb__hash_md5 stack key = Inr (md5_digest key)"
proof -
  have k: "md5_key key = key" using assms by (simp add: md5_key_def)
  obtain ctx where "MD5Update (MD5Init stack) key = Inr ctx" "md5_repr ctx ([] @ key)"
    using MD5Update_repr [OF md5_repr_init [OF assms(1)] assms(2)] by blast
  then show ?thesis by (simp add: vb__hash_md5_def k MD5Final_digest)
qed

text \<open>The digest of a message that is fed in pieces.\<close>

fun md5_feed :: "bool \<Rightarrow> MD5_CTX option \<Rightarrow> byte list list \<Rightarrow> MD5_CTX option res" where
  "md5_feed alloc ctx [] = Inr ctx"
| "md5_feed alloc ctx (c # cs) = res_bind (vb__hash_md5_update alloc ctx c) (\<lambda>ctx'. md5_feed alloc (Some ctx') cs)"

lemma vb__hash_md5_update_repr:
  assumes "case ctx of None \<Rightarrow> s = [] | Some c \<Rightarrow> md5_repr c s" and "length t \<le> 2 ^ 32 - 64"
  shows "\<exists>ctx'. vb__hash_md5_update True ctx t = Inr ctx' \<and> md5_repr ctx' (s @ t)"
proof -
  have "md5_key t = t" using assms(2) by (simp add: md5_key_def)
  moreover obtain c where "(case ctx of None \<Rightarrow> if True then Inr (MD5Init (replicate 64 0)) else Inl NullPointer | Some c \<Rightarrow> Inr c) = Inr c"
      "md5_repr c s"
    using assms(1) md5_repr_init by (cases ctx) auto
  ultimately show ?thesis using MD5Update_repr [of c s t] assms(2) unfolding vb__hash_md5_update_def by simp
qed

lemma md5_feed_repr:
  assumes "case ctx of None \<Rightarrow> s = [] \<and> cs \<noteq> [] | Some c \<Rightarrow> md5_repr c s"
    and "\<forall>c \<in> set cs. length c \<le> 2 ^ 32 - 64"
  shows "\<exists>ctx'. md5_feed True ctx cs = Inr (Some ctx') \<and> md5_repr ctx' (s @ concat cs)"
  using assms
proof (induction cs arbitrary: ctx s)
  case Nil
  then show ?case by (cases ctx) auto
next
  case (Cons c cs)
  obtain ctx1 where c1: "vb__hash_md5_update True ctx c = Inr ctx1" "md5_repr ctx1 (s @ c)"
    using vb__hash_md5_update_repr [where ctx = ctx and s = s and t = c] Cons.prems by (cases ctx) auto
  then show ?case using Cons.IH [where ctx = "Some ctx1" and s = "s @ c"] Cons.prems by simp
qed

text \<open>\<open>vb__hash_ketama\<close> reassembles the first word of the digest.\<close>

lemma word_of_bytes:
  fixes w :: "32 word"
  shows "push_bit 24 (ucast (ucast (drop_bit 24 w AND 0xff) :: byte)) OR
     push_bit 16 (ucast (ucast (drop_bit 16 w AND 0xff) :: byte)) OR
     push_bit 8 (ucast (ucast (drop_bit 8 w AND 0xff) :: byte)) OR ucast (ucast (w AND 0xff) :: byte) = w" (is "?l = w")
proof (rule bit_word_eqI)
  fix i assume i: "i < LENGTH(32)"
  have m: "(0xff :: 32 word) = mask 8" by (simp add: mask_eq_exp_minus_1)
  show "bit ?l i = bit w i"
    unfolding m using i
    by (cases "i < 8"; cases "i < 16"; cases "i < 24") (auto simp: bit_simps)
qed

lemma vb__hash_ketama_word:
  assumes "length stack = 64" and "length key \<le> 2 ^ 32 - 64"
  shows "vb__hash_ketama stack key = Inr (fst (md5_chain md5_init (key @ md5_pad key)))"
proof -
  obtain a b c d where s: "md5_chain md5_init (key @ md5_pad key) = (a, b, c, d)"
    by (metis prod.exhaust)
  then show ?thesis
    using word_of_bytes [of a]
    by (simp add: vb__hash_ketama_def vb__hash_md5_digest [OF assms] md5_digest_def Encode_def eval_nat_numeral)
qed

subsection \<open>The test vector of the specification for \<open>abc\<close>\<close>

lemma md5_abc_round1:
  "fold (md5_step md5_F [0x80636261, 0x0, 0x0, 0x0, 0x0, 0x0, 0x0, 0x0, 0x0, 0x0, 0x0, 0x0, 0x0, 0x0, 0x18, 0x0]) md5_round1
     (0x67452301, 0xefcdab89, 0x98badcfe, 0x10325476) =
     (0xdda9b9a6, 0x72aff2e0, 0xe396856b, 0xa1051895)"
  by (simp add: md5_round1_def md5_step_def ROTATE_LEFT_def md5_F_def)

lemma md5_abc_round2:
  "fold (md5_step md5_G [0x80636261, 0x0, 0x0, 0x0, 0x0, 0x0, 0x0, 0x0, 0x0, 0x0, 0x0, 0x0, 0x0, 0x0, 0x18, 0x0]) md5_round2
     (0xdda9b9a6, 0x72aff2e0, 0xe396856b, 0xa1051895) =
     (0x790a77fb, 0x726342d3, 0xa62884aa, 0x9f47e4f8)"
  by (simp add: md5_round2_def md5_step_def ROTATE_LEFT_def md5_G_def)

lemma md5_abc_round3:
  "fold (md5_step md5_H [0x80636261, 0x0, 0x0, 0x0, 0x0, 0x0, 0x0, 0x0, 0x0, 0x0, 0x0, 0x0, 0x0, 0x0, 0x18, 0x0]) md5_round3
     (0x790a77fb, 0x726342d3, 0xa62884aa, 0x9f47e4f8) =
     (0x7f2e507b, 0x7beb9700, 0x8fae6399, 0x99d9679d)"
  by (simp add: md5_round3_def md5_step_def ROTATE_LEFT_def md5_H_def)

lemma md5_abc_round4:
  "fold (md5_step md5_I [0x80636261, 0x0, 0x0, 0x0, 0x0, 0x0, 0x0, 0x0, 0x0, 0x0, 0x0, 0x0, 0x0, 0x0, 0x18, 0x0]) md5_round4
     (0x7f2e507b, 0x7beb9700, 0x8fae6399, 0x99d9679d) =
     (0x310ade8f, 0xc08226b3, 0xe484b9d8, 0x624d8cb2)"
  by (simp add: md5_round4_def md5_step_def ROTATE_LEFT_def md5_I_def)

lemma md5_digest_abc:
  "md5_digest [97, 98, 99] = [0x90, 0x1, 0x50, 0x98, 0x3c, 0xd2, 0x4f, 0xb0, 0xd6, 0x96, 0x3f, 0x7d, 0x28, 0xe1, 0x7f, 0x72]"
proof -
  define m :: "byte list" where "m = [97, 98, 99]"
  have rep: "replicate 52 (0::byte) = [0, 0, 0, 0, 0, 0, 0, 0, 0, 0, 0, 0, 0, 0, 0, 0, 0, 0, 0, 0, 0, 0, 0, 0, 0, 0, 0, 0, 0, 0, 0, 0, 0, 0, 0, 0, 0, 0, 0, 0, 0, 0, 0, 0, 0, 0, 0, 0, 0, 0, 0, 0]"
    by (simp add: numeral_eq_Suc)
  have p: "m @ md5_pad m = [97, 98, 99, 0x80, 0, 0, 0, 0, 0, 0, 0, 0, 0, 0, 0, 0, 0, 0, 0, 0, 0, 0, 0, 0, 0, 0, 0, 0, 0, 0, 0, 0, 0, 0, 0, 0, 0, 0, 0, 0, 0, 0, 0, 0, 0, 0, 0, 0, 0, 0, 0, 0, 0, 0, 0, 0, 24, 0, 0, 0, 0, 0, 0, 0]"
    unfolding PADDING_def md5_pad_def md5_bits_def Encode_def m_def
    using rep by simp
  have x: "Decode (m @ md5_pad m) = [0x80636261, 0x0, 0x0, 0x0, 0x0, 0x0, 0x0, 0x0, 0x0, 0x0, 0x0, 0x0, 0x0, 0x0, 0x18, 0x0]"
    unfolding p by simp
  have "md5_chain md5_init (m @ md5_pad m) = MD5Transform md5_init (m @ md5_pad m)"
    using md5_chain_block [of "m @ md5_pad m" md5_init "[]"] by (simp add: p md5_chain_short)
  also have "\<dots> = (0x98500190, 0xb04fd23c, 0x7d3f96d6, 0x727fe128)"
    unfolding MD5Transform_def x md5_init_def Let_def md5_abc_round1 md5_abc_round2 md5_abc_round3 md5_abc_round4
    by simp
  finally show ?thesis
    unfolding md5_digest_def m_def [symmetric] by (simp add: Encode_def)
qed

section \<open>The digest does not depend on how the message is cut\<close>



end
