(* ===== verification/Vb_Map.thy ===== *)
theory Vb_Map
  imports Vb_Config Crc32 Md5 "HOL-Library.Multiset"
begin

text \<open>
  Mapping of keys to nodes, generation of configurations and comparison of two of them, from
  \<open>src/vbucket/vbucket.c\<close>. A vBucket bucket maps the CRC-32 of a key to a vBucket and the vBucket to the
  node in its first slot; a ketama bucket maps the MD5 of a key to the next point on a sorted
  continuum. Accesses to the four slots of a vBucket, to the map and to the node array are checked.
\<close>

section \<open>Sorting\<close>

text \<open>\<open>qsort\<close> with a comparison function. The order of equal elements is the one of a stable sort.\<close>

fun qsort_insert :: "('a \<Rightarrow> 'a \<Rightarrow> int) \<Rightarrow> 'a \<Rightarrow> 'a list \<Rightarrow> 'a list" where
  "qsort_insert cmp x [] = [x]"
| "qsort_insert cmp x (y # ys) = (if cmp x y \<le> 0 then x # y # ys else y # qsort_insert cmp x ys)"

definition c_qsort :: "('a \<Rightarrow> 'a \<Rightarrow> int) \<Rightarrow> 'a list \<Rightarrow> 'a list" where
  "c_qsort cmp xs = foldr (qsort_insert cmp) xs []"

fun c_strcmp :: "string \<Rightarrow> string \<Rightarrow> int" where
  "c_strcmp [] [] = 0"
| "c_strcmp [] (d # t) = - of_char d"
| "c_strcmp (c # s) [] = of_char c"
| "c_strcmp (c # s) (d # t) = (if c = d then c_strcmp s t else of_char c - of_char d)"

definition server_cmp :: "SERVER \<Rightarrow> SERVER \<Rightarrow> int" where
  "server_cmp s1 s2 = c_strcmp (the (authority s1)) (the (authority s2))"

definition continuum_item_cmp :: "CONTINUUM \<Rightarrow> CONTINUUM \<Rightarrow> int" where
  "continuum_item_cmp ct1 ct2 = (if snd ct1 = snd ct2 then 0 else if snd ct1 > snd ct2 then 1 else - 1)"

section \<open>The ketama continuum\<close>

definition MAX_AUTHORITY_SIZE :: nat where
  "MAX_AUTHORITY_SIZE = 100"

text \<open>
  The bytes that are hashed for a node: \<open>snprintf\<close> into a buffer of \<open>MAX_AUTHORITY_SIZE + 10\<close> characters
  returns the length of the whole text, and that many bytes of the buffer are hashed.
\<close>

definition ketama_host :: "string \<Rightarrow> nat \<Rightarrow> byte list res" where
  "ketama_host auth hh =
     (let text = auth @ ''-'' @ dec_digits hh;
          n = MAX_AUTHORITY_SIZE + 10 in
      if n < length text then Inl OutOfBounds
      else Inr (take (length text) (map c8 (c_snprintf n text) @ [0])))"

definition ketama_point :: "byte list \<Rightarrow> nat \<Rightarrow> nat" where
  "ketama_point digest nn =
     unat (push_bit 24 (ucast (digest ! (3 + nn * 4))) OR push_bit 16 (ucast (digest ! (2 + nn * 4))) OR
           push_bit 8 (ucast (digest ! (1 + nn * 4))) OR ucast (digest ! (0 + nn * 4)) :: 32 word)"

fun ketama_hashes :: "byte list \<Rightarrow> nat \<Rightarrow> string \<Rightarrow> nat list \<Rightarrow> CONTINUUM list res" where
  "ketama_hashes stack ss auth [] = Inr []"
| "ketama_hashes stack ss auth (hh # hs) =
     res_bind (ketama_host auth hh) (\<lambda>host.
     res_bind (vb__hash_md5 stack host) (\<lambda>digest.
     res_bind (ketama_hashes stack ss auth hs) (\<lambda>ps.
       Inr (map (\<lambda>nn. (ss, ketama_point digest nn)) [0..<4] @ ps))))"

fun ketama_points :: "byte list \<Rightarrow> nat \<Rightarrow> SERVER list \<Rightarrow> CONTINUUM list res" where
  "ketama_points stack ss [] = Inr []"
| "ketama_points stack ss (srv # srvs) =
     res_bind (ketama_hashes stack ss (the (authority srv)) [0..<40]) (\<lambda>ps.
     res_bind (ketama_points stack (Suc ss) srvs) (\<lambda>qs. Inr (ps @ qs)))"

text \<open>
  \<open>alloc\<close> says whether \<open>calloc\<close> has room for so many points. Its result is not checked: without room the first
  point is written through a null pointer. The number asked for is computed as an unsigned int.
\<close>

definition update_ketama :: "(nat \<Rightarrow> bool) \<Rightarrow> byte list \<Rightarrow> CONFIG \<Rightarrow> CONFIG res" where
  "update_ketama alloc stack cfg =
     res_bind (mem_read (servers cfg) 0 (ndatasrv cfg)) (\<lambda>ds.
       if \<exists>s \<in> set ds. authority s = None then Inl NullPointer
       else
         let sorted = c_qsort server_cmp ds;
             nalloc = umul 32 160 (ndatasrv cfg) in
         if sorted \<noteq> [] \<and> \<not> alloc nalloc then
           res_bind (ketama_hashes stack 0 (the (authority (hd sorted))) [0]) (\<lambda>_. Inl NullPointer)
         else
         res_bind (ketama_points stack 0 sorted) (\<lambda>points.
           if nalloc < length points then Inl OutOfBounds
           else
           Inr (cfg\<lparr>servers := sorted @ drop (ndatasrv cfg) (servers cfg),
                    continuum := Some (c_qsort continuum_item_cmp points),
                    ncontinuum := length points\<rparr>)))"

section \<open>Mapping\<close>

text \<open>
  The search for the next point. The bounds \<open>lowp\<close> and \<open>highp\<close> are offsets from the start of the array;
  \<open>highp\<close> can be one before it.
\<close>

function ketama_search :: "CONTINUUM list \<Rightarrow> int \<Rightarrow> nat \<Rightarrow> int \<Rightarrow> int \<Rightarrow> nat res" where
  "ketama_search cont endp digest lowp highp =
     (let midp = lowp + (highp - lowp) div 2 in
      if midp = endp then res_bind (arr_get (Some cont) 0) (\<lambda>c. Inr (fst c))
      else
        res_bind (arr_get (Some cont) midp) (\<lambda>m.
        res_bind (if midp = 0 then Inr 0 else res_bind (arr_get (Some cont) (midp - 1)) (\<lambda>p. Inr (snd p))) (\<lambda>prev.
          let mid = snd m in
          if digest \<le> mid \<and> prev < digest then Inr (fst m)
          else
            let lowp' = (if mid < digest then midp + 1 else lowp);
                highp' = (if mid < digest then highp else midp - 1) in
            if lowp' > highp' then res_bind (arr_get (Some cont) 0) (\<lambda>c. Inr (fst c))
            else ketama_search cont endp digest lowp' highp')))"
  by pat_completeness auto
termination
proof (relation "measure (\<lambda>(cont, endp, digest, lowp, highp). nat (highp - lowp + 1))", goal_cases)
  case (2 cont endp digest lowp highp midp m prev mid lowp' highp')
  define q where "q = (highp - lowp) div 2"
  have q: "2 * q \<le> highp - lowp" "highp - lowp < 2 * q + 2" unfolding q_def by linarith+
  have m: "midp = lowp + q" using 2(1) by (simp add: q_def)
  have "lowp' = (if mid < digest then midp + 1 else lowp)" "highp' = (if mid < digest then highp else midp - 1)"
    "lowp' \<le> highp'" using 2 by simp_all
  then have "nat (highp' - lowp' + 1) < nat (highp - lowp + 1)"
    using q unfolding m by (cases "mid < digest") simp_all
  then show ?case by simp
qed simp

declare ketama_search.simps [simp del]

definition map_ketama :: "byte list \<Rightarrow> CONFIG \<Rightarrow> byte list \<Rightarrow> nat res" where
  "map_ketama stack cfg key =
     (case continuum cfg of
        None \<Rightarrow> Inl AssertFailed
      | Some cont \<Rightarrow>
          res_bind (vb__hash_ketama stack key) (\<lambda>digest.
            ketama_search cont (int (ncontinuum cfg)) (unat digest) 0 (int (ncontinuum cfg))))"

definition lcbvb_k2vb :: "CONFIG \<Rightarrow> byte list \<Rightarrow> int res" where
  "lcbvb_k2vb cfg k =
     (if nvb cfg = 0 then Inl DivisionByZero else Inr (int (unat (hash_crc32 k) mod nvb cfg)))"

definition vb_slot :: "VBUCKET list option \<Rightarrow> int \<Rightarrow> nat \<Rightarrow> int res" where
  "vb_slot vbs vbid jj = res_bind (arr_get vbs vbid) (\<lambda>row. mem_get row jj)"

definition lcbvb_vbmaster :: "CONFIG \<Rightarrow> int \<Rightarrow> int res" where
  "lcbvb_vbmaster cfg vbid = (if dtype cfg \<noteq> DIST_VBUCKET then Inr (- 1) else vb_slot (vbuckets cfg) vbid 0)"

definition lcbvb_vbreplica :: "CONFIG \<Rightarrow> int \<Rightarrow> nat \<Rightarrow> int res" where
  "lcbvb_vbreplica cfg vbid ix =
     (if ix < nrepl cfg then vb_slot (vbuckets cfg) vbid (uadd 32 ix 1) else Inr (- 1))"

text \<open>The loop over the nodes: the next one in ring order that has vBuckets.\<close>

fun remap_loop :: "CONFIG \<Rightarrow> nat \<Rightarrow> int \<Rightarrow> int option res" where
  "remap_loop cfg 0 rv = Inr None"
| "remap_loop cfg (Suc k) rv =
     (let rv' = int (c_unsigned (rv + 1) mod ndatasrv cfg) in
      res_bind (arr_get (Some (servers cfg)) rv') (\<lambda>srv.
        if nvbs srv \<noteq> 0 then Inr (Some rv') else remap_loop cfg k rv'))"

definition set_row :: "CONFIG \<Rightarrow> int \<Rightarrow> VBUCKET \<Rightarrow> CONFIG" where
  "set_row cfg vbid row = cfg\<lparr>vbuckets := map_option (\<lambda>vbs. vbs[nat vbid := row]) (vbuckets cfg)\<rparr>"

definition lcbvb_nmv_remap_ex :: "CONFIG \<Rightarrow> int \<Rightarrow> int \<Rightarrow> bool \<Rightarrow> (CONFIG \<times> int) res" where
  "lcbvb_nmv_remap_ex cfg vbid bad heuristic =
     res_bind (vb_slot (vbuckets cfg) vbid 0) (\<lambda>cur.
       if bad \<noteq> cur then Inr (cfg, cur)
       else
         res_bind
           (case ffvbuckets cfg of
              None \<Rightarrow> Inr (cfg, cur)
            | Some ff \<Rightarrow>
                res_bind (arr_get (Some ff) vbid) (\<lambda>row.
                res_bind (mem_get row 0) (\<lambda>rv.
                  if rv \<noteq> bad \<and> rv > - 1 then Inr (set_row cfg vbid row, rv) else Inr (cfg, rv))))
           (\<lambda>(cfg1, rv).
             if heuristic then
               res_bind (remap_loop cfg1 (ndatasrv cfg1) rv) (\<lambda>found.
                 case found of
                   None \<Rightarrow> Inr (cfg1, - 1)
                 | Some rv' \<Rightarrow>
                     res_bind (arr_get (vbuckets cfg1) vbid) (\<lambda>row.
                     res_bind (mem_set row 0 rv') (\<lambda>row'.
                       Inr (set_row cfg1 vbid row', if rv' = bad then - 1 else rv'))))
             else Inr (cfg1, if rv = bad then - 1 else rv)))"

text \<open>The outputs \<open>*vbid\<close> and \<open>*srvix\<close> of \<open>lcbvb_map_key\<close>.\<close>

definition lcbvb_map_key :: "byte list \<Rightarrow> CONFIG \<Rightarrow> byte list \<Rightarrow> (int \<times> int) res" where
  "lcbvb_map_key stack cfg key =
     (case dtype cfg of
        DIST_KETAMA \<Rightarrow> res_bind (map_ketama stack cfg key) (\<lambda>ix. Inr (0, int ix))
      | DIST_VBUCKET \<Rightarrow>
          res_bind (lcbvb_k2vb cfg key) (\<lambda>vb. res_bind (lcbvb_vbmaster cfg vb) (\<lambda>srvix. Inr (vb, srvix)))
      | DIST_UNKNOWN \<Rightarrow> Inr (0, - 1))"

definition lcbvb_has_vbucket :: "CONFIG \<Rightarrow> int \<Rightarrow> int \<Rightarrow> bool res" where
  "lcbvb_has_vbucket vbc vbid ix =
     res_bind (arr_get (vbuckets vbc) vbid) (\<lambda>row.
       let n = uadd 32 (nrepl vbc) 1 in
       if ix \<in> set (take n row) then Inr True
       else if n \<le> length row then Inr False else Inl OutOfBounds)"

definition lcbvb_make_ketama :: "(nat \<Rightarrow> bool) \<Rightarrow> byte list \<Rightarrow> CONFIG \<Rightarrow> CONFIG res" where
  "lcbvb_make_ketama alloc stack vb =
     (if dtype vb = DIST_KETAMA then Inr vb
      else update_ketama alloc stack (vb\<lparr>dtype := DIST_KETAMA, nrepl := 0, nvb := 0\<rparr>))"

section \<open>Sorting lemmas\<close>

lemma mset_qsort_insert [simp]: "mset (qsort_insert cmp x ys) = add_mset x (mset ys)"
  by (induction ys) auto

lemma mset_c_qsort [simp]: "mset (c_qsort cmp xs) = mset xs"
  by (induction xs) (simp_all add: c_qsort_def)

lemma set_c_qsort [simp]: "set (c_qsort cmp xs) = set xs"
  by (metis mset_c_qsort set_mset_mset)

lemma length_c_qsort [simp]: "length (c_qsort cmp xs) = length xs"
  by (metis mset_c_qsort size_mset)

lemma set_qsort_insert [simp]: "set (qsort_insert cmp x ys) = insert x (set ys)"
  by (metis mset_qsort_insert set_mset_add_mset_insert set_mset_mset)

lemma sorted_continuum_insert:
  "sorted (map snd ys) \<Longrightarrow> sorted (map snd (qsort_insert continuum_item_cmp x ys))"
  by (induction ys) (auto simp: continuum_item_cmp_def split: if_splits)

lemma sorted_continuum: "sorted (map snd (c_qsort continuum_item_cmp xs))"
  by (induction xs) (simp_all add: c_qsort_def sorted_continuum_insert)

lemma c_strcmp_sym: "sgn (c_strcmp t s) = - sgn (c_strcmp s t)"
proof (induction s t rule: c_strcmp.induct)
  case (4 c s d t)
  then show ?case by (cases "c = d") (simp_all add: sgn_if)
qed (auto simp: sgn_if)

lemma c_strcmp_total: "c_strcmp s t \<le> 0 \<or> c_strcmp t s \<le> 0"
  using c_strcmp_sym [of t s] by (auto simp: sgn_if split: if_splits)

lemma of_char_nonneg [simp]: "0 \<le> (of_char c :: int)"
  by (metis of_nat_0_le_iff of_nat_of_char)

lemma of_char_pos: "c \<noteq> CHR 0x00 \<Longrightarrow> 0 < (of_char c :: int)"
proof -
  assume "c \<noteq> CHR 0x00"
  then have "of_char c \<noteq> (of_char CHR 0x00 :: int)" by (simp only: of_char_eq_iff not_False_eq_True)
  then show ?thesis by (simp add: less_le)
qed

text \<open>On C strings, which have no null character, the comparison is transitive.\<close>

lemma c_strcmp_trans:
  "c_strcmp s t \<le> 0 \<Longrightarrow> c_strcmp t u \<le> 0 \<Longrightarrow> CHR 0x00 \<notin> set s \<Longrightarrow> c_strcmp s u \<le> 0"
proof (induction s t arbitrary: u rule: c_strcmp.induct)
  case (1 u)
  then show ?case by simp
next
  case (2 d t u)
  then show ?case by (cases u) simp_all
next
  case (3 c s u)
  then show ?case using of_char_pos [of c] by auto
next
  case (4 c s d t)
  show ?case
  proof (cases u)
    case Nil
    then show ?thesis using "4.prems" of_char_nonneg [of c] of_char_nonneg [of d] by (auto split: if_splits)
  next
    case (Cons e u')
    then show ?thesis using "4.prems" "4.IH" [of u'] by (auto split: if_splits)
  qed
qed

lemma sorted_servers_insert:
  assumes "sorted_wrt (\<lambda>s t. server_cmp s t \<le> 0) ys" and "CHR 0x00 \<notin> set (the (authority x))"
  shows "sorted_wrt (\<lambda>s t. server_cmp s t \<le> 0) (qsort_insert server_cmp x ys)"
  using assms(1)
proof (induction ys)
  case (Cons y ys)
  then show ?case
    using c_strcmp_total [of "the (authority x)" "the (authority y)"] c_strcmp_trans [of "the (authority x)" "the (authority y)"] assms(2)
    by (auto simp: server_cmp_def)
qed simp

lemma sorted_servers:
  "\<forall>x \<in> set xs. CHR 0x00 \<notin> set (the (authority x)) \<Longrightarrow> sorted_wrt (\<lambda>s t. server_cmp s t \<le> 0) (c_qsort server_cmp xs)"
  by (induction xs) (simp_all add: c_qsort_def sorted_servers_insert)

section \<open>The search finds the next point\<close>

text \<open>The node that owns a point on the ring: the first point at or after it, or else the first of all.\<close>

definition next_point :: "CONTINUUM list \<Rightarrow> nat \<Rightarrow> nat" where
  "next_point cont d =
     (case dropWhile (\<lambda>c. snd c < d) cont of [] \<Rightarrow> fst (hd cont) | c # _ \<Rightarrow> fst c)"

definition below :: "CONTINUUM list \<Rightarrow> nat \<Rightarrow> nat" where
  "below cont d = length (takeWhile (\<lambda>c. snd c < d) cont)"

lemma next_point_below:
  assumes "cont \<noteq> []"
  shows "next_point cont d = fst (cont ! (if below cont d < length cont then below cont d else 0))"
proof (cases "below cont d < length cont")
  case True
  have "dropWhile (\<lambda>c. snd c < d) cont = drop (below cont d) cont"
    by (simp add: below_def dropWhile_eq_drop)
  then show ?thesis using True by (simp add: next_point_def Cons_nth_drop_Suc [symmetric])
next
  case False
  have "below cont d \<le> length cont" by (simp add: below_def length_takeWhile_le)
  then have "dropWhile (\<lambda>c. snd c < d) cont = []"
    using False by (simp add: below_def dropWhile_eq_drop)
  then have "next_point cont d = fst (hd cont)" by (simp only: next_point_def list.case)
  then show ?thesis using False assms by (simp add: hd_conv_nth)
qed

lemma below_nth: "i < below cont d \<Longrightarrow> snd (cont ! i) < d"
  unfolding below_def by (metis (no_types, lifting) nth_mem set_takeWhileD takeWhile_nth)

lemma below_le: "below cont d \<le> length cont"
  by (simp add: below_def length_takeWhile_le)

lemma above_nth:
  assumes "sorted (map snd cont)" and "below cont d \<le> i" and "i < length cont"
  shows "d \<le> snd (cont ! i)"
proof -
  have b: "below cont d < length cont" using assms by simp
  then have "\<not> snd (cont ! below cont d) < d" unfolding below_def using nth_length_takeWhile by blast
  moreover have "snd (cont ! below cont d) \<le> snd (cont ! i)"
    using assms b sorted_nth_mono [of "map snd cont" "below cont d" i] by simp
  ultimately show ?thesis by simp
qed

lemma ketama_search_step:
  assumes "lowp + (highp - lowp) div 2 = midp" and "midp \<noteq> endp" and "arr_get (Some cont) midp = Inr m"
    and "(if midp = 0 then Inr 0 else res_bind (arr_get (Some cont) (midp - 1)) (\<lambda>p. Inr (snd p))) = Inr prev"
    and "arr_get (Some cont) 0 = Inr first"
  shows "ketama_search cont endp d lowp highp =
    (if d \<le> snd m \<and> prev < d then Inr (fst m)
     else if snd m < d then
       (if midp + 1 > highp then Inr (fst first) else ketama_search cont endp d (midp + 1) highp)
     else
       (if lowp > midp - 1 then Inr (fst first) else ketama_search cont endp d lowp (midp - 1)))"
  unfolding ketama_search.simps [of cont endp d lowp highp] Let_def assms(1) assms(3) assms(5) res_bind_simps assms(4)
  using assms(2) by (simp only: if_False) (simp split: if_split)

lemma ketama_search_next:
  assumes "sorted (map snd cont)" and "cont \<noteq> []"
    and "0 \<le> lowp" and "lowp \<le> int (below cont d)" and "int (below cont d) \<le> highp" and "highp \<le> int (length cont)"
  shows "ketama_search cont (int (length cont)) d lowp highp = Inr (next_point cont d)"
  using assms(3-6)
proof (induction "highp - lowp" arbitrary: lowp highp rule: measure_induct_rule [of nat])
  case (less lowp highp)
  define n f q where "n = int (length cont)" and "f = int (below cont d)" and "q = (highp - lowp) div 2"
  define mid where "mid = lowp + q"
  have q: "2 * q \<le> highp - lowp" "highp - lowp < 2 * q + 2" unfolding q_def by linarith+
  have fn: "f \<le> n" using below_le by (simp add: f_def n_def)
  have bounds: "0 \<le> lowp" "lowp \<le> f" "f \<le> highp" "highp \<le> n" using less.prems by (simp_all add: f_def n_def)
  have mid: "lowp \<le> mid" "mid \<le> highp" using q bounds by (simp_all add: mid_def)
  have first: "arr_get (Some cont) 0 = Inr (cont ! 0)" using assms(2) by (simp add: arr_get_def mem_get_def)
  have np: "next_point cont d = fst (cont ! (if f < n then nat f else 0))"
    using next_point_below [OF assms(2)] by (simp add: f_def n_def)
  show ?case
  proof (cases "mid = n")
    case True
    then have "f = n" using q bounds fn by (simp add: mid_def)
    then have "ketama_search cont (int (length cont)) d lowp highp = Inr (fst (cont ! 0))"
      using True first unfolding ketama_search.simps [of cont _ d lowp highp] Let_def
      by (simp add: n_def mid_def q_def)
    then show ?thesis using np \<open>f = n\<close> by simp
  next
    case False
    then have lt: "mid < n" "0 \<le> mid" using mid bounds by linarith+
    have gm: "arr_get (Some cont) mid = Inr (cont ! nat mid)"
      using lt by (simp add: arr_get_def mem_get_def n_def nat_less_iff)
    define prev where "prev = (if mid = 0 then 0 else snd (cont ! nat (mid - 1)))"
    have gp: "(if mid = 0 then Inr 0 else res_bind (arr_get (Some cont) (mid - 1)) (\<lambda>p. Inr (snd p))) = Inr prev"
      using lt by (simp add: prev_def arr_get_def mem_get_def n_def nat_less_iff)
    define m where "m = snd (cont ! nat mid)"
    have unfold: "ketama_search cont (int (length cont)) d lowp highp =
        (if d \<le> m \<and> prev < d then Inr (fst (cont ! nat mid))
         else if m < d then
           (if mid + 1 > highp then Inr (fst (cont ! 0)) else ketama_search cont (int (length cont)) d (mid + 1) highp)
         else
           (if lowp > mid - 1 then Inr (fst (cont ! 0)) else ketama_search cont (int (length cont)) d lowp (mid - 1)))"
      unfolding m_def using False gm gp first
      by (intro ketama_search_step) (simp_all add: n_def mid_def q_def)
    have low: "m < d \<Longrightarrow> mid < f" using above_nth [OF assms(1), of d "nat mid"] lt
      by (force simp: m_def f_def n_def nat_le_iff nat_less_iff)
    have high: "d \<le> m \<Longrightarrow> f \<le> mid" using below_nth [of "nat mid" cont d] lt
      by (force simp: m_def f_def n_def nat_less_iff)
    have prev: "mid = f \<Longrightarrow> mid \<noteq> 0 \<Longrightarrow> prev < d"
      using below_nth [of "nat (mid - 1)" cont d] lt by (simp add: prev_def f_def nat_less_iff)
    have prev': "f < mid \<Longrightarrow> d \<le> prev"
      using above_nth [OF assms(1), of d "nat (mid - 1)"] lt by (simp add: prev_def f_def n_def nat_less_iff le_nat_iff)
    consider (lo) "m < d" | (hit) "d \<le> m" "mid = f" | (hi) "d \<le> m" "f < mid" using high by force
    then show ?thesis
    proof cases
      case lo
      have "ketama_search cont (int (length cont)) d (mid + 1) highp = Inr (next_point cont d)"
        using low [OF lo] bounds mid by (intro less.hyps) (simp_all add: f_def n_def)
      then show ?thesis using lo low [OF lo] bounds unfolding unfold by simp
    next
      case hit
      show ?thesis
      proof (cases "mid = 0 \<and> d = 0")
        case True
        then show ?thesis using hit np bounds lt unfolding unfold by (simp add: prev_def)
      next
        case False
        then have "prev < d" using prev hit by (cases "mid = 0") (simp_all add: prev_def)
        then show ?thesis using hit np lt unfolding unfold by simp
      qed
    next
      case hi
      have "ketama_search cont (int (length cont)) d lowp (mid - 1) = Inr (next_point cont d)"
        using hi bounds mid by (intro less.hyps) (simp_all add: f_def n_def)
      then show ?thesis using hi prev' bounds unfolding unfold by simp
    qed
  qed
qed

section \<open>The continuum of a configuration\<close>

text \<open>
  The points of consistent hashing: for each node 40 digests of its authority, a hyphen and a number, each of which gives four
  points, its 32-bit words with the low byte first.
\<close>

definition le32 :: "byte list \<Rightarrow> nat" where
  "le32 bs = unat (bs ! 0) + 2 ^ 8 * unat (bs ! 1) + 2 ^ 16 * unat (bs ! 2) + 2 ^ 24 * unat (bs ! 3)"

definition node_points :: "nat \<Rightarrow> string \<Rightarrow> CONTINUUM list" where
  "node_points ss auth =
     concat (map (\<lambda>hh. map (\<lambda>nn. (ss, le32 (drop (4 * nn) (md5_digest (map c8 (auth @ ''-'' @ dec_digits hh)))))) [0..<4]) [0..<40])"

definition ketama_ring :: "SERVER list \<Rightarrow> CONTINUUM list" where
  "ketama_ring srvs = concat (map (\<lambda>i. node_points i (the (authority (srvs ! i)))) [0..<length srvs])"

lemma le32_word:
  fixes a b c d :: byte
  shows "unat (push_bit 24 (ucast d) OR push_bit 16 (ucast c) OR push_bit 8 (ucast b) OR ucast a :: 32 word) =
    unat a + 2 ^ 8 * unat b + 2 ^ 16 * unat c + 2 ^ 24 * unat d"
proof -
  have b: "unat x < 256" for x :: byte by (rule unat_byte_less)
  have e: "push_bit 24 x OR (push_bit 16 y OR (push_bit 8 z OR w)) = 2 ^ 24 * x + (2 ^ 16 * y + (2 ^ 8 * z + w))"
    if "y < 256" "z < 256" "w < 256" for x y z w :: nat
    using that by (simp add: or_push_bit)
  have "unat (push_bit 24 (ucast d) OR (push_bit 16 (ucast c) OR (push_bit 8 (ucast b) OR ucast a)) :: 32 word) =
      push_bit 24 (unat d) OR (push_bit 16 (unat c) OR (push_bit 8 (unat b) OR unat a))"
    by (simp add: unsigned_or_eq unat_push_ucast unsigned_ucast_eq take_bit_nat_eq_self less_trans [OF b])
  then show ?thesis unfolding e [OF b b b] by (simp add: or.assoc)
qed

lemma ketama_point_le32:
  assumes "length digest = 16" and "nn < 4"
  shows "ketama_point digest nn = le32 (drop (4 * nn) digest)"
  using assms unfolding ketama_point_def le32_word by (simp add: le32_def mult.commute add.commute)

lemma ketama_host_ok:
  assumes "length auth \<le> MAX_AUTHORITY_SIZE" and "hh < 100"
  shows "ketama_host auth hh = Inr (map c8 (auth @ ''-'' @ dec_digits hh))" "length (map c8 (auth @ ''-'' @ dec_digits hh)) \<le> 103"
proof -
  have "length (dec_digits hh) \<le> 2" using length_dec_digits [of hh 1] assms(2) by simp
  then show "ketama_host auth hh = Inr (map c8 (auth @ ''-'' @ dec_digits hh))" "length (map c8 (auth @ ''-'' @ dec_digits hh)) \<le> 103"
    using assms(1) by (simp_all add: ketama_host_def Let_def MAX_AUTHORITY_SIZE_def c_snprintf_def)
qed

lemma length_md5_digest: "length (md5_digest s) = 16"
  by (cases "md5_chain md5_init (s @ md5_pad s)") (simp add: md5_digest_def Encode_def)

lemma ketama_hashes_ok:
  assumes "length stack = 64" and "length auth \<le> MAX_AUTHORITY_SIZE" and "\<forall>h \<in> set hs. h < 100"
  shows "ketama_hashes stack ss auth hs =
    Inr (concat (map (\<lambda>hh. map (\<lambda>nn. (ss, le32 (drop (4 * nn) (md5_digest (map c8 (auth @ ''-'' @ dec_digits hh)))))) [0..<4]) hs))"
  using assms(3)
proof (induction hs)
  case (Cons hh hs)
  let ?h = "map c8 (auth @ ''-'' @ dec_digits hh)"
  have h: "ketama_host auth hh = Inr ?h" "length ?h \<le> 103" using ketama_host_ok [OF assms(2), of hh] Cons.prems by auto
  then have "vb__hash_md5 stack ?h = Inr (md5_digest ?h)" using assms(1) by (intro vb__hash_md5_digest) simp_all
  moreover have "map (\<lambda>nn. (ss, ketama_point (md5_digest ?h) nn)) [0..<4] = map (\<lambda>nn. (ss, le32 (drop (4 * nn) (md5_digest ?h)))) [0..<4]"
    by (intro map_cong) (simp_all add: ketama_point_le32 length_md5_digest)
  ultimately show ?case using h(1) Cons by (simp only: ketama_hashes.simps res_bind_simps) simp
qed simp

lemma ketama_points_ok:
  assumes "length stack = 64" and "\<forall>s \<in> set ds. length (the (authority s)) \<le> MAX_AUTHORITY_SIZE"
  shows "ketama_points stack ss ds = Inr (concat (map (\<lambda>i. node_points (ss + i) (the (authority (ds ! i)))) [0..<length ds]))"
  using assms(2)
proof (induction ds arbitrary: ss)
  case (Cons d ds)
  have "ketama_hashes stack ss (the (authority d)) [0..<40] = Inr (node_points ss (the (authority d)))"
    using ketama_hashes_ok [OF assms(1), of "the (authority d)" "[0..<40]" ss] Cons.prems by (simp add: node_points_def)
  moreover have "[0..<length (d # ds)] = 0 # map Suc [0..<length ds]" by (simp add: upt_conv_Cons map_Suc_upt del: upt_Suc)
  ultimately show ?case using Cons.IH [of "Suc ss"] Cons.prems by (simp add: comp_def del: upt_Suc)
qed simp

lemma length_node_points: "length (node_points ss auth) = 160"
  unfolding node_points_def by (simp add: length_concat comp_def sum_list_triv)

lemma ketama_ring_facts:
  "length (ketama_ring srvs) = 160 * length srvs" "c \<in> set (ketama_ring srvs) \<Longrightarrow> fst c < length srvs"
  by (auto simp: ketama_ring_def length_concat comp_def length_node_points sum_list_triv) (auto simp: node_points_def)

definition ketama_ready :: "CONFIG \<Rightarrow> bool" where
  "ketama_ready cfg \<longleftrightarrow>
     0 < ndatasrv cfg \<and> ndatasrv cfg \<le> length (servers cfg) \<and> 160 * ndatasrv cfg < 2 ^ 32 \<and>
     (\<forall>s \<in> set (take (ndatasrv cfg) (servers cfg)).
        authority s \<noteq> None \<and> length (the (authority s)) \<le> MAX_AUTHORITY_SIZE \<and> CHR 0x00 \<notin> set (the (authority s)))"

lemma update_ketama_ok:
  assumes "length stack = 64" and "ketama_ready cfg" and "alloc (160 * ndatasrv cfg)"
  shows "\<exists>srvs cont. update_ketama alloc stack cfg =
      Inr (cfg\<lparr>servers := srvs @ drop (ndatasrv cfg) (servers cfg), continuum := Some cont, ncontinuum := length cont\<rparr>) \<and>
    mset srvs = mset (take (ndatasrv cfg) (servers cfg)) \<and> sorted_wrt (\<lambda>s t. server_cmp s t \<le> 0) srvs \<and>
    mset cont = mset (ketama_ring srvs) \<and> sorted (map snd cont)"
proof -
  define ds where "ds = take (ndatasrv cfg) (servers cfg)"
  define srvs where "srvs = c_qsort server_cmp ds"
  have rd: "mem_read (servers cfg) 0 (ndatasrv cfg) = Inr ds"
    using assms(2) by (simp add: mem_read_def ds_def ketama_ready_def)
  have "ketama_points stack 0 srvs = Inr (ketama_ring srvs)"
    using ketama_points_ok [OF assms(1), of srvs 0] assms(2) by (auto simp: srvs_def ds_def ketama_ready_def ketama_ring_def)
  moreover have "\<not> (\<exists>s \<in> set ds. authority s = None)" using assms(2) by (auto simp: ds_def ketama_ready_def)
  moreover have "umul 32 160 (ndatasrv cfg) = 160 * ndatasrv cfg" "length (ketama_ring srvs) = 160 * ndatasrv cfg"
    using assms(2) by (simp_all add: ketama_ready_def umul_nowrap ketama_ring_facts srvs_def ds_def)
  ultimately have "update_ketama alloc stack cfg = Inr (cfg\<lparr>servers := srvs @ drop (ndatasrv cfg) (servers cfg),
      continuum := Some (c_qsort continuum_item_cmp (ketama_ring srvs)),
      ncontinuum := length (c_qsort continuum_item_cmp (ketama_ring srvs))\<rparr>)"
    using assms(3) by (simp add: update_ketama_def rd srvs_def [symmetric] Let_def)
  moreover have "mset srvs = mset ds" "sorted_wrt (\<lambda>s t. server_cmp s t \<le> 0) srvs"
    using assms(2) unfolding srvs_def by (simp, intro sorted_servers) (simp add: ds_def ketama_ready_def)
  ultimately show ?thesis
    using sorted_continuum [of "ketama_ring srvs"] unfolding ds_def
    by (intro exI [of _ srvs] exI [of _ "c_qsort continuum_item_cmp (ketama_ring srvs)"]) simp
qed

lemma update_ketama_no_memory:
  assumes "length stack = 64" and "ketama_ready cfg" and "\<not> alloc (160 * ndatasrv cfg)"
  shows "update_ketama alloc stack cfg = Inl NullPointer"
proof -
  define ds where "ds = take (ndatasrv cfg) (servers cfg)"
  have ds: "mem_read (servers cfg) 0 (ndatasrv cfg) = Inr ds" "\<not> (\<exists>s \<in> set ds. authority s = None)" "ds \<noteq> []"
    "umul 32 160 (ndatasrv cfg) = 160 * ndatasrv cfg"
    using assms(2) by (auto simp: mem_read_def ds_def ketama_ready_def umul_nowrap)
  then have ne: "c_qsort server_cmp ds \<noteq> []" by (metis length_0_conv length_c_qsort)
  then have "hd (c_qsort server_cmp ds) \<in> set ds" by (metis hd_in_set set_c_qsort)
  then have "length (the (authority (hd (c_qsort server_cmp ds)))) \<le> MAX_AUTHORITY_SIZE"
    using assms(2) by (simp add: ds_def ketama_ready_def)
  then obtain ps where "ketama_hashes stack 0 (the (authority (hd (c_qsort server_cmp ds)))) [0] = Inr ps"
    using ketama_hashes_ok [OF assms(1), of _ "[0]" 0] by auto
  then show ?thesis using assms(3) ds ne by (simp add: update_ketama_def Let_def)
qed

lemma next_point_in: "cont \<noteq> [] \<Longrightarrow> next_point cont d \<in> fst ` set cont"
  by (simp add: next_point_below)

lemma map_ketama_next:
  assumes "length stack = 64" and "length key \<le> 2 ^ 32 - 64"
    and "continuum cfg = Some cont" and "ncontinuum cfg = length cont" and "cont \<noteq> []" and "sorted (map snd cont)"
  shows "map_ketama stack cfg key =
    Inr (next_point cont (unat (fst (md5_chain md5_init (key @ md5_pad key)))))"
  using assms ketama_search_next [OF assms(6,5)] below_le
  by (simp add: map_ketama_def vb__hash_ketama_word)

lemma ketama_hashes_fault:
  assumes "length stack = 64" and "108 < length auth" and "hs \<noteq> []"
  shows "ketama_hashes stack ss auth hs = Inl OutOfBounds"
proof -
  have "ketama_host auth hh = Inl OutOfBounds" for hh
  proof -
    have "0 < length (dec_digits hh)" by (subst dec_digits.simps) simp
    then have "110 < length auth + Suc (length (dec_digits hh))" using assms(2) by linarith
    then show ?thesis by (simp add: ketama_host_def Let_def MAX_AUTHORITY_SIZE_def)
  qed
  then show ?thesis using assms(3) by (cases hs) simp_all
qed

section \<open>Remapping after a wrong node\<close>

lemma remap_loop_sound:
  assumes "ndatasrv cfg \<le> length (servers cfg)" and "k \<noteq> 0 \<longrightarrow> 0 < ndatasrv cfg"
  shows "\<exists>r. remap_loop cfg k rv = Inr r \<and>
    (\<forall>i. r = Some i \<longrightarrow> 0 \<le> i \<and> nat i < ndatasrv cfg \<and> nvbs (servers cfg ! nat i) \<noteq> 0)"
  using assms(2)
proof (induction k arbitrary: rv)
  case (Suc k)
  define i where "i = c_unsigned (rv + 1) mod ndatasrv cfg"
  have i: "i < ndatasrv cfg" using Suc.prems by (simp add: i_def)
  then have "arr_get (Some (servers cfg)) (int i) = Inr (servers cfg ! i)"
    using assms(1) by (simp add: arr_get_def mem_get_def)
  then show ?case using Suc.IH [of "int i"] Suc.prems i
    by (cases "nvbs (servers cfg ! i) = 0") (simp_all add: Let_def i_def [symmetric])
qed simp

text \<open>Starting at node \<open>r\<close>, the loop visits the nodes after it in ring order.\<close>

lemma remap_loop_ring:
  assumes "ndatasrv cfg \<le> length (servers cfg)" and "ndatasrv cfg < 2 ^ 32" and "r < ndatasrv cfg"
  shows "\<exists>j \<le> k. remap_loop cfg k (int r) = Inr (if j < k then Some (int ((r + Suc j) mod ndatasrv cfg)) else None) \<and>
    (\<forall>i < j. nvbs (servers cfg ! ((r + Suc i) mod ndatasrv cfg)) = 0)"
  using assms(3)
proof (induction k arbitrary: r)
  case (Suc k)
  define n r' where "n = ndatasrv cfg" and "r' = Suc r mod ndatasrv cfg"
  have r': "r' < ndatasrv cfg" using Suc.prems by (simp add: r'_def)
  have e: "int (c_unsigned (int r + 1) mod ndatasrv cfg) = int r'"
    using Suc.prems assms(2) c_unsigned_id [of "Suc r"] by (simp add: r'_def add.commute)
  have g: "arr_get (Some (servers cfg)) (int r') = Inr (servers cfg ! r')"
    using r' assms(1) by (simp add: arr_get_def mem_get_def)
  have step: "remap_loop cfg (Suc k) (int r) =
      (if nvbs (servers cfg ! r') \<noteq> 0 then Inr (Some (int r')) else remap_loop cfg k (int r'))"
    unfolding remap_loop.simps Let_def e g by simp
  show ?case
  proof (cases "nvbs (servers cfg ! r') = 0")
    case False
    then show ?thesis using step by (intro exI [of _ 0]) (simp add: r'_def)
  next
    case True
    obtain j where j: "j \<le> k" "remap_loop cfg k (int r') = Inr (if j < k then Some (int ((r' + Suc j) mod n)) else None)"
      "\<forall>i < j. nvbs (servers cfg ! ((r' + Suc i) mod n)) = 0"
      using Suc.IH [OF r'] by (auto simp: n_def)
    have m: "(r' + Suc i) mod n = (r + Suc (Suc i)) mod n" for i
      unfolding r'_def n_def using mod_add_left_eq [of "Suc r" "ndatasrv cfg" "Suc i"] by simp
    have "nvbs (servers cfg ! ((r + Suc i) mod n)) = 0" if "i < Suc j" for i
      using that True j(3) m by (cases i) (simp_all add: r'_def n_def)
    then show ?thesis using step True j m unfolding n_def by (intro exI [of _ "Suc j"]) simp
  qed
qed simp

lemma remap_loop_avoids:
  assumes "ndatasrv cfg \<le> length (servers cfg)" and "ndatasrv cfg < 2 ^ 32" and "r < ndatasrv cfg"
    and "m < ndatasrv cfg" and "m \<noteq> r" and "nvbs (servers cfg ! m) \<noteq> 0"
  shows "\<exists>i. remap_loop cfg (ndatasrv cfg) (int r) = Inr (Some (int i)) \<and> i \<noteq> r"
proof -
  define n where "n = ndatasrv cfg"
  obtain j where j: "j \<le> n" "remap_loop cfg n (int r) = Inr (if j < n then Some (int ((r + Suc j) mod n)) else None)"
    "\<forall>i < j. nvbs (servers cfg ! ((r + Suc i) mod n)) = 0"
    using remap_loop_ring [OF assms(1-3), of n] unfolding n_def by blast
  define d where "d = (if r < m then m - r else m + n - r)"
  have d: "0 < d" "d < n" "(r + d) mod n = m"
    using assms(3-5) unfolding d_def n_def by (auto simp: mod_if)
  have "\<not> d - 1 < j"
  proof
    assume "d - 1 < j"
    then have "nvbs (servers cfg ! ((r + Suc (d - 1)) mod n)) = 0" using j(3) by blast
    then show False using d assms(6) by simp
  qed
  then have jd: "Suc j \<le> d" using d by linarith
  have "(r + Suc j) mod n \<noteq> r"
  proof
    assume a: "(r + Suc j) mod n = r"
    show False
    proof (cases "r + Suc j < n")
      case True
      then show False using a by simp
    next
      case False
      then have "(r + Suc j) mod n = r + Suc j - n"
        using jd d assms(3) by (simp add: n_def le_mod_geq)
      then show False using a jd d False by linarith
    qed
  qed
  then show ?thesis using j(2) jd d unfolding n_def by auto
qed

lemma remap_forward:
  assumes "vbuckets cfg = Some vbs" and "0 \<le> vbid" and "nat vbid < length vbs" and "\<forall>row \<in> set vbs. length row = 4"
    and "\<forall>ff. ffvbuckets cfg = Some ff \<longrightarrow> nat vbid < length ff \<and> (\<forall>row \<in> set ff. length row = 4)"
  shows "\<exists>row1 rv1. (case ffvbuckets cfg of
              None \<Rightarrow> Inr (cfg, bad)
            | Some ff \<Rightarrow>
                res_bind (arr_get (Some ff) vbid) (\<lambda>row.
                res_bind (mem_get row 0) (\<lambda>rv.
                  if rv \<noteq> bad \<and> rv > - 1 then Inr (set_row cfg vbid row, rv) else Inr (cfg, rv)))) =
      Inr (cfg\<lparr>vbuckets := Some (vbs[nat vbid := row1])\<rparr>, rv1) \<and>
    length row1 = 4 \<and> (rv1 < 0 \<or> rv1 = bad \<or> row1 ! 0 = rv1) \<and> (ffvbuckets cfg = None \<longrightarrow> rv1 = bad)"
proof -
  define old where "old = vbs ! nat vbid"
  have same: "cfg\<lparr>vbuckets := Some (vbs[nat vbid := old])\<rparr> = cfg" and old: "length old = 4"
    using assms(1,3,4) by (simp_all add: old_def)
  show ?thesis
  proof (cases "ffvbuckets cfg")
    case None
    then show ?thesis using same old by (intro exI [of _ old] exI [of _ bad]) simp
  next
    case (Some ff)
    define row where "row = ff ! nat vbid"
    have ff: "nat vbid < length ff" "\<forall>row \<in> set ff. length row = 4" using assms(5) Some by simp_all
    then have row: "arr_get (Some ff) vbid = Inr row" "length row = 4"
      using assms(2) by (simp_all add: row_def arr_get_def mem_get_def)
    then have row0: "mem_get row 0 = Inr (row ! 0)" by (simp add: mem_get_def)
    show ?thesis
    proof (cases "row ! 0 \<noteq> bad \<and> row ! 0 > - 1")
      case True
      then show ?thesis using Some row row0 assms(1)
        by (intro exI [of _ row] exI [of _ "row ! 0"]) (simp add: set_row_def)
    next
      case False
      then show ?thesis using Some row row0 same old
        by (intro exI [of _ old] exI [of _ "row ! 0"]) (simp, linarith)
    qed
  qed
qed

text \<open>The search of the heuristic, from the row the fast-forward step has left in the map.\<close>

lemma remap_heuristic:
  assumes "vbuckets cfg = Some vbs" and "0 \<le> vbid" and "nat vbid < length vbs" and "length (vbs ! nat vbid) = 4"
    and "ndatasrv cfg \<le> length (servers cfg)" and "ndatasrv cfg < 2 ^ 32"
  shows "\<exists>rv row. res_bind (remap_loop cfg (ndatasrv cfg) start) (\<lambda>found.
                 case found of
                   None \<Rightarrow> Inr (cfg, - 1)
                 | Some rv' \<Rightarrow>
                     res_bind (arr_get (vbuckets cfg) vbid) (\<lambda>row.
                     res_bind (mem_set row 0 rv') (\<lambda>row'.
                       Inr (set_row cfg vbid row', if rv' = bad then - 1 else rv')))) =
      Inr (cfg\<lparr>vbuckets := Some (vbs[nat vbid := row])\<rparr>, rv) \<and> length row = 4 \<and>
    (rv < 0 \<or> rv \<noteq> bad \<and> row ! 0 = rv \<and> nat rv < ndatasrv cfg \<and> nvbs (servers cfg ! nat rv) \<noteq> 0) \<and>
    (start = bad \<and> 0 \<le> bad \<and> nat bad < ndatasrv cfg \<and>
      (\<exists>n < ndatasrv cfg. int n \<noteq> bad \<and> nvbs (servers cfg ! n) \<noteq> 0) \<longrightarrow> 0 \<le> rv)"
proof -
  define old where "old = vbs ! nat vbid"
  have old: "arr_get (vbuckets cfg) vbid = Inr old" "length old = 4"
    "cfg\<lparr>vbuckets := Some (vbs[nat vbid := old])\<rparr> = cfg"
    using assms(1-4) by (simp_all add: old_def arr_get_def mem_get_def)
  obtain found where found: "remap_loop cfg (ndatasrv cfg) start = Inr found"
    "\<forall>i. found = Some i \<longrightarrow> 0 \<le> i \<and> nat i < ndatasrv cfg \<and> nvbs (servers cfg ! nat i) \<noteq> 0"
    using remap_loop_sound [OF assms(5), of "ndatasrv cfg" start] by blast
  have live: "\<exists>i. found = Some i \<and> 0 \<le> i \<and> i \<noteq> bad" if a: "start = bad" "0 \<le> bad"
    "nat bad < ndatasrv cfg" "\<exists>n < ndatasrv cfg. int n \<noteq> bad \<and> nvbs (servers cfg ! n) \<noteq> 0"
  proof -
    obtain n where n: "n < ndatasrv cfg" "n \<noteq> nat bad" "nvbs (servers cfg ! n) \<noteq> 0" using a(2,4) by auto
    obtain i where i: "remap_loop cfg (ndatasrv cfg) (int (nat bad)) = Inr (Some (int i))" "i \<noteq> nat bad"
      using remap_loop_avoids [OF assms(5,6) a(3) n] by blast
    then show ?thesis using found(1) a(1,2) by auto
  qed
  show ?thesis
  proof (cases found)
    case None
    then show ?thesis using found(1) old live by (intro exI [of _ "- 1"] exI [of _ old]) auto
  next
    case (Some i)
    have upd: "mem_set old 0 i = Inr (old[0 := i])" "set_row cfg vbid (old[0 := i]) = cfg\<lparr>vbuckets := Some (vbs[nat vbid := old[0 := i]])\<rparr>"
      "length (old[0 := i]) = 4" "old[0 := i] ! 0 = i"
      using old(2) assms(1) by (auto simp: mem_set_def set_row_def)
    show ?thesis using found Some old(1) upd live
      by (intro exI [of _ "if i = bad then - 1 else i"] exI [of _ "old[0 := i]"]) auto
  qed
qed

lemma update_ketama_long_authority:
  assumes "length stack = 64" and "0 < ndatasrv cfg" and "ndatasrv cfg \<le> length (servers cfg)"
    and "\<forall>s \<in> set (take (ndatasrv cfg) (servers cfg)). authority s \<noteq> None \<and> 108 < length (the (authority s))"
  shows "update_ketama alloc stack cfg = Inl OutOfBounds"
proof -
  define ds where "ds = take (ndatasrv cfg) (servers cfg)"
  have "length (c_qsort server_cmp ds) \<noteq> 0" using assms(2,3) by (simp add: ds_def)
  then obtain d ds' where d: "c_qsort server_cmp ds = d # ds'" by (metis length_0_conv neq_Nil_conv)
  then have "d \<in> set ds" by (metis list.set_intros(1) set_c_qsort)
  then have "ketama_points stack 0 (d # ds') = Inl OutOfBounds" "ketama_hashes stack 0 (the (authority d)) [0] = Inl OutOfBounds"
    using ketama_hashes_fault [OF assms(1), of "the (authority d)" "[0..<40]" 0]
      ketama_hashes_fault [OF assms(1), of "the (authority d)" "[0]" 0] assms(4) by (auto simp: ds_def)
  then show ?thesis using assms(3,4) d by (auto simp: update_ketama_def mem_read_def ds_def Let_def)
qed

section \<open>Properties\<close>


definition sample_pair :: CONFIG where
  "sample_pair = lcbvb_create\<lparr>nsrv := 2, ndatasrv := 2, servers :=
     [no_server\<lparr>authority := Some ''b:11210''\<rparr>, no_server\<lparr>authority := Some ''a:11210''\<rparr>]\<rparr>"


text \<open>
  \<^bold>\<open>C23\<close>. After a node answered that it does not own a vBucket, the remapping changes at most the row
  of that vBucket. When another node has become the master meanwhile, that node is returned and nothing
  changes. Otherwise the result is negative, or it is a node other than the rejected one that is now the
  master in the map, and with the heuristic it is a data node to which vBuckets are assigned. Without a
  fast-forward map the heuristic does find a node whenever another data node has vBuckets.
\<close>

theorem lcbvb_nmv_remap_ex_spec:
  assumes "vbuckets cfg = Some vbs" and "0 \<le> vbid" and "nat vbid < length vbs" and "\<forall>row \<in> set vbs. length row = 4"
    and "\<forall>ff. ffvbuckets cfg = Some ff \<longrightarrow> nat vbid < length ff \<and> (\<forall>row \<in> set ff. length row = 4)"
    and "ndatasrv cfg \<le> length (servers cfg)" and "ndatasrv cfg < 2 ^ 32"
  shows "\<exists>rv row. lcbvb_nmv_remap_ex cfg vbid bad heuristic = Inr (cfg\<lparr>vbuckets := Some (vbs[nat vbid := row])\<rparr>, rv) \<and>
    length row = 4 \<and>
    (if bad \<noteq> vbs ! nat vbid ! 0 then rv = vbs ! nat vbid ! 0 \<and> row = vbs ! nat vbid
     else (rv < 0 \<or> rv \<noteq> bad \<and> row ! 0 = rv \<and>
         (heuristic \<longrightarrow> nat rv < ndatasrv cfg \<and> nvbs (servers cfg ! nat rv) \<noteq> 0)) \<and>
       (heuristic \<and> ffvbuckets cfg = None \<and> 0 \<le> bad \<and> nat bad < ndatasrv cfg \<and>
         (\<exists>n < ndatasrv cfg. int n \<noteq> bad \<and> nvbs (servers cfg ! n) \<noteq> 0) \<longrightarrow> 0 \<le> rv))"
proof -
  define old where "old = vbs ! nat vbid"
  have old: "length old = 4" "arr_get (vbuckets cfg) vbid = Inr old"
    using assms(1-4) by (simp_all add: old_def arr_get_def mem_get_def)
  have slot: "vb_slot (vbuckets cfg) vbid 0 = Inr (old ! 0)"
    using old by (auto simp: vb_slot_def mem_get_def)
  have same: "cfg = cfg\<lparr>vbuckets := Some (vbs[nat vbid := old])\<rparr>" using assms(1) by (simp add: old_def)
  show ?thesis
  proof (cases "bad = old ! 0")
    case False
    then show ?thesis using same old slot
      by (intro exI [of _ "old ! 0"] exI [of _ old]) (simp add: lcbvb_nmv_remap_ex_def old_def)
  next
    case True
    obtain row1 rv1 where fw: "(case ffvbuckets cfg of
              None \<Rightarrow> Inr (cfg, bad)
            | Some ff \<Rightarrow>
                res_bind (arr_get (Some ff) vbid) (\<lambda>row.
                res_bind (mem_get row 0) (\<lambda>rv.
                  if rv \<noteq> bad \<and> rv > - 1 then Inr (set_row cfg vbid row, rv) else Inr (cfg, rv)))) =
        Inr (cfg\<lparr>vbuckets := Some (vbs[nat vbid := row1])\<rparr>, rv1)"
      and row1: "length row1 = 4" "rv1 < 0 \<or> rv1 = bad \<or> row1 ! 0 = rv1"
      and none: "ffvbuckets cfg = None \<longrightarrow> rv1 = bad"
      using remap_forward [OF assms(1-5), of bad] by (elim exE conjE)
    define cfg1 where "cfg1 = cfg\<lparr>vbuckets := Some (vbs[nat vbid := row1])\<rparr>"
    have c1: "servers cfg1 = servers cfg" "ndatasrv cfg1 = ndatasrv cfg"
      "vbuckets cfg1 = Some (vbs[nat vbid := row1])" by (simp_all add: cfg1_def)
    note remap = lcbvb_nmv_remap_ex_def slot res_bind_simps True [symmetric] fw [folded cfg1_def] prod.case
    show ?thesis
    proof (cases heuristic)
      case False
      then have "lcbvb_nmv_remap_ex cfg vbid bad heuristic = Inr (cfg1, if rv1 = bad then - 1 else rv1)"
        unfolding remap by simp
      then show ?thesis using row1 True False
        by (intro exI [of _ "if rv1 = bad then - 1 else rv1"] exI [of _ row1]) (auto simp: old_def cfg1_def)
    next
      case h: True
      have "nat vbid < length (vbs[nat vbid := row1])" "length (vbs[nat vbid := row1] ! nat vbid) = 4"
        using assms(3) row1(1) by simp_all
      from remap_heuristic [OF c1(3) assms(2) this, unfolded c1(1,2), OF assms(6,7), of rv1 bad]
      obtain rv row where res: "lcbvb_nmv_remap_ex cfg vbid bad heuristic =
          Inr (cfg1\<lparr>vbuckets := Some (vbs[nat vbid := row1, nat vbid := row])\<rparr>, rv)" and row: "length row = 4"
        "rv < 0 \<or> rv \<noteq> bad \<and> row ! 0 = rv \<and> nat rv < ndatasrv cfg \<and> nvbs (servers cfg ! nat rv) \<noteq> 0"
        "rv1 = bad \<and> 0 \<le> bad \<and> nat bad < ndatasrv cfg \<and>
          (\<exists>n < ndatasrv cfg. int n \<noteq> bad \<and> nvbs (servers cfg ! n) \<noteq> 0) \<longrightarrow> 0 \<le> rv"
        unfolding remap eqTrueI [OF h] simp_thms if_True if_False c1(2) by (elim exE conjE)
      have "lcbvb_nmv_remap_ex cfg vbid bad heuristic = Inr (cfg\<lparr>vbuckets := Some (vbs[nat vbid := row])\<rparr>, rv)"
        using res by (simp add: cfg1_def)
      then show ?thesis using row none True by (intro exI [of _ rv] exI [of _ row]) (auto simp: old_def)
    qed
  qed
qed

definition sample_vbmap :: CONFIG where
  "sample_vbmap = lcbvb_create\<lparr>nvb := 2, ndatasrv := 3, nsrv := 3, nrepl := 1,
     servers := [no_server\<lparr>nvbs := 2\<rparr>, no_server, no_server\<lparr>nvbs := 1\<rparr>],
     vbuckets := Some [[0, 2, 0, 0], [2, 0, 0, 0]]\<rparr>"

theorem lcbvb_nmv_remap_ex_spec_witness:
  "\<exists>rv row. lcbvb_nmv_remap_ex sample_vbmap 0 0 True =
     Inr (sample_vbmap\<lparr>vbuckets := Some ([[0, 2, 0, 0], [2, 0, 0, 0]][nat 0 := row])\<rparr>, rv) \<and> 0 \<le> rv \<and> rv \<noteq> 0 \<and> row ! 0 = rv"
proof -
  have s: "ndatasrv sample_vbmap = 3" "length (servers sample_vbmap) = 3" "ffvbuckets sample_vbmap = None"
    "vbuckets sample_vbmap = Some [[0, 2, 0, 0], [2, 0, 0, 0]]" "nvbs (servers sample_vbmap ! 2) \<noteq> 0"
    by (simp_all add: sample_vbmap_def lcbvb_create_def)
  have ex: "\<exists>n < ndatasrv sample_vbmap. int n \<noteq> 0 \<and> nvbs (servers sample_vbmap ! n) \<noteq> 0"
    using s by (intro exI [of _ 2]) simp
  obtain rv row where r: "lcbvb_nmv_remap_ex sample_vbmap 0 0 True =
      Inr (sample_vbmap\<lparr>vbuckets := Some ([[0, 2, 0, 0], [2, 0, 0, 0]][nat 0 := row])\<rparr>, rv)"
    "if (0::int) \<noteq> [[0, 2, 0, 0], [2, 0, 0, 0]] ! nat 0 ! 0
     then rv = [[0, 2, 0, 0], [2, 0, 0, 0]] ! nat 0 ! 0 \<and> row = [[0, 2, 0, 0], [2, 0, 0, 0]] ! nat 0
     else (rv < 0 \<or> rv \<noteq> 0 \<and> row ! 0 = rv \<and>
         (True \<longrightarrow> nat rv < ndatasrv sample_vbmap \<and> nvbs (servers sample_vbmap ! nat rv) \<noteq> 0)) \<and>
       (True \<and> ffvbuckets sample_vbmap = None \<and> 0 \<le> (0::int) \<and> nat 0 < ndatasrv sample_vbmap \<and>
         (\<exists>n < ndatasrv sample_vbmap. int n \<noteq> 0 \<and> nvbs (servers sample_vbmap ! n) \<noteq> 0) \<longrightarrow> 0 \<le> rv)"
    using lcbvb_nmv_remap_ex_spec [of sample_vbmap "[[0, 2, 0, 0], [2, 0, 0, 0]]" 0 0 True, OF s(4)] s(1-3)
    by (elim meta_impE) (simp_all, blast)
  have "0 \<le> rv \<and> rv \<noteq> 0 \<and> row ! 0 = rv" using r(2) ex s(1,3) by auto
  then show ?thesis using r(1) by blast
qed

end
