(* ===== verification/Vb_Gen.thy ===== *)
theory Vb_Gen
  imports Vb_Map
begin

text \<open>
  Generated configurations and the comparison of two configurations, from \<open>src/vbucket/vbucket.c\<close>. The
  generator distributes the vBuckets over the data nodes in ring order and counts the slots each node
  holds; the comparison drives the decision to relocate pending commands.
\<close>

section \<open>Counting the vBuckets of a node\<close>

text \<open>
  The loop over the slots of a row, shared by \<open>set_vb_count\<close> and \<open>lcbvb_genconfig_ex\<close>; \<open>ok\<close> is the
  condition under which a slot counts.
\<close>

function count_row :: "(int \<Rightarrow> bool) \<Rightarrow> nat \<Rightarrow> VBUCKET \<Rightarrow> nat \<Rightarrow> SERVER list \<Rightarrow> SERVER list res" where
  "count_row ok limit row jj srvs =
     (if jj < limit then
        res_bind (mem_get row jj) (\<lambda>ix.
          if ok ix then
            res_bind (arr_get (Some srvs) ix) (\<lambda>s.
              count_row ok limit row (Suc jj) (srvs[nat ix := s\<lparr>nvbs := uadd 32 (nvbs s) 1\<rparr>]))
          else count_row ok limit row (Suc jj) srvs)
      else Inr srvs)"
  by pat_completeness auto
termination
  by (relation "measure (\<lambda>(ok, limit, row, jj, srvs). limit - jj)") auto

declare count_row.simps [simp del]

fun count_rows :: "(int \<Rightarrow> bool) \<Rightarrow> nat \<Rightarrow> VBUCKET list \<Rightarrow> SERVER list \<Rightarrow> SERVER list res" where
  "count_rows ok limit [] srvs = Inr srvs"
| "count_rows ok limit (row # rows) srvs = res_bind (count_row ok limit row 0 srvs) (count_rows ok limit rows)"

section \<open>Generation\<close>

definition copy_service :: "c_strdup \<Rightarrow> string \<Rightarrow> SERVICES \<Rightarrow> SERVICES" where
  "copy_service strdup host src =
     (let dst = src\<lparr>hoststrs := replicate SVCTYPE__MAX None,
                    views_base := Option.bind (views_base src) strdup,
                    query_base := Option.bind (query_base src) strdup,
                    fts_base := Option.bind (fts_base src) strdup,
                    cbas_base := Option.bind (cbas_base src) strdup,
                    eventing_base := Option.bind (eventing_base src) strdup\<rparr> in
      if data dst \<noteq> 0 then
        dst\<lparr>hoststrs := (hoststrs dst)[svctype_ix SVC_DATA := strdup (copy_address 4096 host (data dst))]\<rparr>
      else dst)"

text \<open>Counting the data nodes: \<open>None\<close> when one follows a node without data service.\<close>

fun count_data :: "bool \<Rightarrow> nat \<Rightarrow> SERVER list \<Rightarrow> nat option" where
  "count_data in_nondata n [] = Some n"
| "count_data in_nondata n (srv # srvs) =
     (if data (svc srv) \<noteq> 0 then (if in_nondata then None else count_data in_nondata (Suc n) srvs)
      else count_data True n srvs)"

text \<open>The replica slots of a row.\<close>

function gen_row :: "nat \<Rightarrow> nat \<Rightarrow> nat \<Rightarrow> nat \<Rightarrow> VBUCKET \<Rightarrow> VBUCKET res" where
  "gen_row srvix nd limit jj row =
     (if jj < limit then
        if nd = 0 then Inl DivisionByZero
        else res_bind (mem_set row jj (int ((srvix + jj) mod nd))) (gen_row srvix nd limit (Suc jj))
      else Inr row)"
  by pat_completeness auto
termination
  by (relation "measure (\<lambda>(srvix, nd, limit, jj, row). limit - jj)") auto

declare gen_row.simps [simp del]

fun gen_rows :: "nat \<Rightarrow> nat \<Rightarrow> nat \<Rightarrow> VBUCKET list \<Rightarrow> VBUCKET list res" where
  "gen_rows srvix nd limit [] = Inr []"
| "gen_rows srvix nd limit (row # rows) =
     res_bind (mem_set row 0 (int srvix)) (\<lambda>row1.
     res_bind (gen_row srvix nd limit 1 row1) (\<lambda>row2.
       if nd = 0 then Inl DivisionByZero
       else res_bind (gen_rows ((srvix + 1) mod nd) nd limit rows) (\<lambda>rows'. Inr (row2 # rows'))))"

definition gen_server :: "c_strdup \<Rightarrow> SERVER \<Rightarrow> SERVER res" where
  "gen_server strdup src =
     res_bind (c_deref (hostname src)) (\<lambda>host.
     res_bind (c_deref (strdup host)) (\<lambda>host'.
       Inr (src\<lparr>hostname := Some host',
                viewpath := Option.bind (viewpath src) strdup,
                querypath := Option.bind (querypath src) strdup,
                ftspath := Option.bind (ftspath src) strdup,
                cbaspath := Option.bind (cbaspath src) strdup,
                eventingpath := Option.bind (eventingpath src) strdup,
                svc := copy_service strdup host (svc src),
                svc_ssl := copy_service strdup host (svc_ssl src),
                authority := strdup (copy_address MAX_AUTHORITY_SIZE host' (data (svc src)))\<rparr>)))"

fun gen_servers :: "c_strdup \<Rightarrow> SERVER list \<Rightarrow> SERVER list res" where
  "gen_servers strdup [] = Inr []"
| "gen_servers strdup (src # srcs) =
     res_bind (gen_server strdup src) (\<lambda>dst. res_bind (gen_servers strdup srcs) (\<lambda>dsts. Inr (dst # dsts)))"

text \<open>
  \<open>malloc_vb\<close> allocates the map; its contents are arbitrary. The table of nodes and the scratch array, whose
  \<open>calloc\<close> the code does not check, are taken to be allocated. The result is the return code and the
  configuration.
\<close>

type_synonym malloc_vb = "nat \<Rightarrow> VBUCKET list option"

definition malloc_vb_ok :: "malloc_vb \<Rightarrow> bool" where
  "malloc_vb_ok malloc \<longleftrightarrow>
     (\<forall>n. \<exists>m. malloc n = Some m \<and> length m = n \<and> (\<forall>row \<in> set m. length row = 4))"

definition lcbvb_genconfig_ex ::
  "c_strdup \<Rightarrow> malloc_vb \<Rightarrow> string option \<Rightarrow> string option \<Rightarrow> SERVER list \<Rightarrow> nat \<Rightarrow> nat \<Rightarrow> (int \<times> CONFIG) res" where
  "lcbvb_genconfig_ex strdup malloc name uuid srcs nreplica nvbuckets =
     lcb_assert (srcs \<noteq> [])
       (let bn = strdup (case name of None \<Rightarrow> ''default'' | Some s \<Rightarrow> s);
            vb = lcbvb_create\<lparr>dtype := DIST_VBUCKET, nvb := nvbuckets, nrepl := nreplica, nsrv := length srcs,
                 bname := bn, bname_len := (case bn of None \<Rightarrow> 0 | Some s \<Rightarrow> length s),
                 buuid := Option.bind uuid strdup\<rparr> in
        if length srcs \<le> nreplica then Inr (- 1, vb\<lparr>errstr := Some ''nservers must be > nreplicas''\<rparr>)
        else if 4 < nreplica then Inr (- 1, vb\<lparr>errstr := Some ''Replicas must be <= 4''\<rparr>)
        else
          case count_data False 0 srcs of
            None \<Rightarrow>
              Inr (- 1, vb\<lparr>errstr := Some ''All data servers must be specified before non-data servers'',
                           ndatasrv := length (takeWhile (\<lambda>s. data (svc s) \<noteq> 0) srcs)\<rparr>)
          | Some nd \<Rightarrow>
              let vb1 = vb\<lparr>ndatasrv := nd\<rparr>;
                  mem = (if nvbuckets = 0 then Some [] else malloc nvbuckets) in
              case mem of
                None \<Rightarrow> Inr (- 1, vb1\<lparr>errstr := Some ''Couldn't allocate vbucket array''\<rparr>)
              | Some rows \<Rightarrow>
                  res_bind (gen_rows 0 nd (nreplica + 1) rows) (\<lambda>rows'.
                  res_bind (gen_servers strdup srcs) (\<lambda>dsts.
                  res_bind (count_rows (\<lambda>ix. 0 \<le> ix) (nreplica + 1) rows' dsts) (\<lambda>dsts'.
                    Inr (0, vb1\<lparr>vbuckets := (if nvbuckets = 0 then None else Some rows'),
                                servers := dsts', randbuf := replicate (length srcs) 0\<rparr>)))))"

definition genconfig_server :: "nat \<Rightarrow> SERVER" where
  "genconfig_server ii =
     no_server\<lparr>svc := no_services\<lparr>data := c_u16 (1000 + int ii), views := c_u16 (2000 + int ii),
                 mgmt := c_u16 (3000 + int ii), views_base := Some ''/default''\<rparr>,
               hostname := Some ''localhost''\<rparr>"

definition lcbvb_genconfig :: "c_strdup \<Rightarrow> malloc_vb \<Rightarrow> nat \<Rightarrow> nat \<Rightarrow> nat \<Rightarrow> (int \<times> CONFIG) res" where
  "lcbvb_genconfig strdup malloc nservers nreplica nvbuckets =
     lcbvb_genconfig_ex strdup malloc (Some ''default'') None (map genconfig_server [0..<nservers]) nreplica nvbuckets"

text \<open>The forward map shifts every slot; the loop runs over \<open>ndatasrv\<close> slots of each row.\<close>

function ff_row :: "nat \<Rightarrow> nat \<Rightarrow> VBUCKET \<Rightarrow> VBUCKET res" where
  "ff_row nd jj row =
     (if jj < nd then
        res_bind (mem_get row jj) (\<lambda>ix.
        res_bind (mem_set row jj (int (c_unsigned (ix + 1) mod nd))) (ff_row nd (Suc jj)))
      else Inr row)"
  by pat_completeness auto
termination
  by (relation "measure (\<lambda>(nd, jj, row). nd - jj)") auto

declare ff_row.simps [simp del]

fun ff_rows :: "nat \<Rightarrow> VBUCKET list \<Rightarrow> VBUCKET list res" where
  "ff_rows nd [] = Inr []"
| "ff_rows nd (row # rows) = res_bind (ff_row nd 0 row) (\<lambda>r. res_bind (ff_rows nd rows) (\<lambda>rs. Inr (r # rs)))"

definition lcbvb_genffmap :: "CONFIG \<Rightarrow> CONFIG res" where
  "lcbvb_genffmap cfg =
     lcb_assert (nrepl cfg \<noteq> 0)
       (if nvb cfg = 0 then Inr (cfg\<lparr>ffvbuckets := Some []\<rparr>)
        else
          res_bind (c_deref (vbuckets cfg)) (\<lambda>vbs.
          res_bind (mem_read vbs 0 (nvb cfg)) (\<lambda>rows.
          res_bind (ff_rows (ndatasrv cfg) rows) (\<lambda>ff. Inr (cfg\<lparr>ffvbuckets := Some ff\<rparr>)))))"

section \<open>Comparison\<close>

record CONFIGDIFF =
  servers_added :: "string list"
  servers_removed :: "string list"
  n_vb_changes :: int
  sequence_changed :: bool
  n_repl_changed :: bool

definition infostr :: "SERVER \<Rightarrow> string \<Rightarrow> string" where
  "infostr srv auth =
     auth @ ''(Data='' @ dec_digits (data (svc srv)) @ '', Index='' @ dec_digits (ixquery (svc srv)) @
     '', Query='' @ dec_digits (n1ql (svc srv)) @ '')''"

fun find_authority :: "string \<Rightarrow> SERVER list \<Rightarrow> bool res" where
  "find_authority auth [] = Inr False"
| "find_authority auth (old # olds) =
     res_bind (c_deref (authority old)) (\<lambda>a. if c_strcmp auth a = 0 then Inr True else find_authority auth olds)"

fun vb_list_diff :: "SERVER list \<Rightarrow> SERVER list \<Rightarrow> string list res" where
  "vb_list_diff olds [] = Inr []"
| "vb_list_diff olds (srv # srvs) =
     res_bind (c_deref (authority srv)) (\<lambda>auth.
     res_bind (find_authority auth olds) (\<lambda>found.
     res_bind (vb_list_diff olds srvs) (\<lambda>out.
       Inr (if found then out else infostr srv auth # out))))"

definition compute_vb_list_diff :: "CONFIG \<Rightarrow> CONFIG \<Rightarrow> string list res" where
  "compute_vb_list_diff from to =
     res_bind (mem_read (servers to) 0 (nsrv to)) (\<lambda>new.
     res_bind (mem_read (servers from) 0 (nsrv from)) (\<lambda>olds. vb_list_diff olds new))"

fun seq_differs :: "SERVER list \<Rightarrow> SERVER list \<Rightarrow> bool res" where
  "seq_differs (a # as) (b # bs) =
     res_bind (c_deref (authority a)) (\<lambda>sa.
     res_bind (c_deref (authority b)) (\<lambda>sb.
     res_bind (seq_differs as bs) (\<lambda>d. Inr (c_strcmp sa sb \<noteq> 0 \<or> d))))"
| "seq_differs _ _ = Inr False"

text \<open>The number of changed slots of a row, from slot \<open>jj\<close> on.\<close>

function row_changes :: "nat \<Rightarrow> nat \<Rightarrow> VBUCKET \<Rightarrow> VBUCKET \<Rightarrow> int res" where
  "row_changes jj limit vba vbb =
     (if jj < limit then
        res_bind (mem_get vba jj) (\<lambda>a. res_bind (mem_get vbb jj) (\<lambda>b.
        res_bind (row_changes (Suc jj) limit vba vbb) (\<lambda>n. Inr ((if a \<noteq> b then 1 else 0) + n))))
      else Inr 0)"
  by pat_completeness auto
termination
  by (relation "measure (\<lambda>(jj, limit, vba, vbb). limit - jj)") auto

declare row_changes.simps [simp del]

fun map_changes :: "nat \<Rightarrow> VBUCKET list \<Rightarrow> VBUCKET list \<Rightarrow> int res" where
  "map_changes limit (vba # as) (vbb # bs) =
     res_bind (row_changes 0 limit vba vbb) (\<lambda>m. res_bind (map_changes limit as bs) (\<lambda>n. Inr (m + n)))"
| "map_changes limit _ _ = Inr 0"

definition vb_rows :: "CONFIG \<Rightarrow> VBUCKET list res" where
  "vb_rows cfg = (if nvb cfg = 0 then Inr [] else res_bind (c_deref (vbuckets cfg)) (\<lambda>vbs. mem_read vbs 0 (nvb cfg)))"

definition lcbvb_compare :: "CONFIG \<Rightarrow> CONFIG \<Rightarrow> CONFIGDIFF res" where
  "lcbvb_compare from to =
     res_bind (compute_vb_list_diff from to) (\<lambda>added.
     res_bind (compute_vb_list_diff to from) (\<lambda>removed.
     res_bind
       (if nsrv to = nsrv from then
          res_bind (mem_read (servers from) 0 (nsrv from)) (\<lambda>as.
          res_bind (mem_read (servers to) 0 (nsrv to)) (\<lambda>bs. seq_differs as bs))
        else Inr True) (\<lambda>seq.
     let repl = (nrepl to \<noteq> nrepl from) in
     res_bind
       (if nvb from = nvb to then
          res_bind (vb_rows from) (\<lambda>as. res_bind (vb_rows to) (\<lambda>bs.
            map_changes (if repl then 1 else max 1 (uadd 32 (nrepl from) 1)) as bs))
        else Inr (- 1)) (\<lambda>changes.
       Inr \<lparr>servers_added = added, servers_removed = removed, n_vb_changes = changes,
            sequence_changed = seq, n_repl_changed = repl\<rparr>))))"

definition LCBVB_SERVERS_MODIFIED :: nat where
  "LCBVB_SERVERS_MODIFIED = 1"

definition LCBVB_MAP_MODIFIED :: nat where
  "LCBVB_MAP_MODIFIED = 2"

definition LCBVB_REPLICAS_MODIFIED :: nat where
  "LCBVB_REPLICAS_MODIFIED = 4"

definition lcbvb_get_changetype :: "CONFIGDIFF \<Rightarrow> nat" where
  "lcbvb_get_changetype diff =
     (if n_vb_changes diff \<noteq> 0 then LCBVB_MAP_MODIFIED else 0) OR
     (if servers_added diff \<noteq> [] \<or> servers_removed diff \<noteq> [] \<or> sequence_changed diff
      then LCBVB_SERVERS_MODIFIED else 0) OR
     (if n_repl_changed diff then LCBVB_REPLICAS_MODIFIED else 0)"

section \<open>The generated map\<close>

lemma gen_row_ok:
  assumes "0 < nd" and "limit \<le> length row"
  shows "\<exists>row'. gen_row srvix nd limit jj row = Inr row' \<and> length row' = length row \<and>
    (\<forall>j < length row. row' ! j = (if jj \<le> j \<and> j < limit then int ((srvix + j) mod nd) else row ! j))"
  using assms
proof (induction srvix nd limit jj row rule: gen_row.induct)
  case (1 srvix nd limit jj row)
  show ?case
  proof (cases "jj < limit")
    case True
    define row1 where "row1 = row[jj := int ((srvix + jj) mod nd)]"
    have set: "mem_set row jj (int ((srvix + jj) mod nd)) = Inr row1"
      using True "1.prems" by (simp add: mem_set_def row1_def)
    obtain row' where row': "gen_row srvix nd limit (Suc jj) row1 = Inr row'" "length row' = length row1"
      "\<forall>j < length row1. row' ! j = (if Suc jj \<le> j \<and> j < limit then int ((srvix + j) mod nd) else row1 ! j)"
      using "1.IH" [OF True, of row1] "1.prems" by (auto simp: row1_def)
    have "gen_row srvix nd limit jj row = Inr row'"
      using True "1.prems" set row'(1) by (subst gen_row.simps) simp
    moreover have "\<forall>j < length row. row' ! j = (if jj \<le> j \<and> j < limit then int ((srvix + j) mod nd) else row ! j)"
    proof (intro allI impI)
      fix j assume j: "j < length row"
      then show "row' ! j = (if jj \<le> j \<and> j < limit then int ((srvix + j) mod nd) else row ! j)"
        using row'(3) True by (cases "j = jj") (auto simp: row1_def)
    qed
    ultimately show ?thesis using row'(2) by (simp add: row1_def)
  next
    case False
    then show ?thesis by (subst gen_row.simps) auto
  qed
qed

lemma gen_rows_ok:
  assumes "0 < nd" and "0 < limit" and "limit \<le> 4" and "\<forall>row \<in> set rows. length row = 4"
  shows "\<exists>rows'. gen_rows srvix nd limit rows = Inr rows' \<and> length rows' = length rows \<and>
    (\<forall>i < length rows. length (rows' ! i) = 4 \<and> (\<forall>j < limit. rows' ! i ! j = (if i = 0 \<and> j = 0 then int srvix else int ((srvix + i + j) mod nd))))"
  using assms(4)
proof (induction rows arbitrary: srvix)
  case (Cons row rows)
  define row1 where "row1 = row[0 := int srvix]"
  have row1: "mem_set row 0 (int srvix) = Inr row1" "length row1 = 4"
    using Cons.prems by (auto simp: mem_set_def row1_def)
  obtain row2 where row2: "gen_row srvix nd limit 1 row1 = Inr row2" "length row2 = 4"
    "\<forall>j < 4. row2 ! j = (if 1 \<le> j \<and> j < limit then int ((srvix + j) mod nd) else row1 ! j)"
    using gen_row_ok [OF assms(1), of limit row1 srvix 1] assms(3) row1(2) by auto
  obtain rows' where rows': "gen_rows ((srvix + 1) mod nd) nd limit rows = Inr rows'" "length rows' = length rows"
    "\<forall>i < length rows. length (rows' ! i) = 4 \<and> (\<forall>j < limit. rows' ! i ! j =
       (if i = 0 \<and> j = 0 then int ((srvix + 1) mod nd) else int (((srvix + 1) mod nd + i + j) mod nd)))"
    using Cons.IH [of "(srvix + 1) mod nd"] Cons.prems by auto
  have "gen_rows srvix nd limit (row # rows) = Inr (row2 # rows')"
    using row1 row2 rows' assms(1) by simp
  moreover have "length ((row2 # rows') ! i) = 4 \<and> (\<forall>j < limit. (row2 # rows') ! i ! j =
      (if i = 0 \<and> j = 0 then int srvix else int ((srvix + i + j) mod nd)))" if "i < length (row # rows)" for i
  proof (cases i)
    case 0
    have "row1 ! 0 = int srvix" using row1 Cons.prems by (auto simp: row1_def)
    then show ?thesis using 0 row2 assms(3) by auto
  next
    case (Suc i')
    have "((srvix + 1) mod nd + i' + j) mod nd = (srvix + i + j) mod nd" for j
      using mod_add_left_eq [of "srvix + 1" nd "i' + j"] by (simp add: Suc add.assoc)
    then show ?thesis using Suc rows'(3) that by auto
  qed
  ultimately show ?case using rows'(2) by auto
qed simp

lemma count_row_ok:
  assumes "limit \<le> length row" and "\<forall>j < limit. 0 \<le> row ! j \<and> nat (row ! j) < length srvs \<and> ok (row ! j)"
    and "\<forall>k < length srvs. nvbs (srvs ! k) < 2 ^ 32"
  shows "\<exists>srvs'. count_row ok limit row jj srvs = Inr srvs' \<and> length srvs' = length srvs \<and>
    (\<forall>k < length srvs. srvs' ! k =
       (srvs ! k)\<lparr>nvbs := (nvbs (srvs ! k) + count_list (drop jj (take limit row)) (int k)) mod 2 ^ 32\<rparr>)"
  using assms
proof (induction ok limit row jj srvs rule: count_row.induct)
  case (1 ok limit row jj srvs)
  show ?case
  proof (cases "jj < limit")
    case True
    define ix srvs1 where "ix = nat (row ! jj)"
      and "srvs1 = srvs[ix := (srvs ! ix)\<lparr>nvbs := uadd 32 (nvbs (srvs ! ix)) 1\<rparr>]"
    have ix: "row ! jj = int ix" "ix < length srvs" "ok (row ! jj)" using "1.prems"(2) True by (simp_all add: ix_def)
    have get: "mem_get row jj = Inr (row ! jj)" "arr_get (Some srvs) (row ! jj) = Inr (srvs ! ix)"
      using True "1.prems"(1) ix by (simp_all add: mem_get_def arr_get_def)
    have dr: "drop jj (take limit row) = int ix # drop (Suc jj) (take limit row)"
      using True "1.prems"(1) ix(1) Cons_nth_drop_Suc [of jj "take limit row"] by simp
    have len: "length srvs1 = length srvs" by (simp add: srvs1_def)
    have "nvbs (srvs1 ! k) < 2 ^ 32" if "k < length srvs1" for k
      using that "1.prems"(3) ix(2) by (cases "k = ix") (simp_all add: srvs1_def uadd_def)
    then obtain srvs' where s': "count_row ok limit row (Suc jj) srvs1 = Inr srvs'" "length srvs' = length srvs"
      "\<forall>k < length srvs. srvs' ! k =
         (srvs1 ! k)\<lparr>nvbs := (nvbs (srvs1 ! k) + count_list (drop (Suc jj) (take limit row)) (int k)) mod 2 ^ 32\<rparr>"
      using "1.IH"(1) [OF True ix(3), of "srvs ! ix"] "1.prems"(1,2) unfolding ix(1) nat_int srvs1_def [symmetric] len
      by auto
    have "count_row ok limit row jj srvs = Inr srvs'"
      using True get ix s'(1) by (subst count_row.simps) (simp add: srvs1_def)
    moreover have "srvs' ! k =
       (srvs ! k)\<lparr>nvbs := (nvbs (srvs ! k) + count_list (drop jj (take limit row)) (int k)) mod 2 ^ 32\<rparr>"
      if "k < length srvs" for k
      using that s'(3) ix(2) by (cases "k = ix") (simp_all add: dr srvs1_def uadd_def mod_simps)
    ultimately show ?thesis using s'(2) by auto
  next
    case False
    then show ?thesis using "1.prems"(3) by (subst count_row.simps) simp
  qed
qed

lemma count_rows_ok:
  assumes "\<forall>row \<in> set rows. limit \<le> length row \<and> (\<forall>j < limit. 0 \<le> row ! j \<and> nat (row ! j) < length srvs \<and> ok (row ! j))"
    and "\<forall>k < length srvs. nvbs (srvs ! k) < 2 ^ 32"
  shows "\<exists>srvs'. count_rows ok limit rows srvs = Inr srvs' \<and> length srvs' = length srvs \<and>
    (\<forall>k < length srvs. srvs' ! k =
       (srvs ! k)\<lparr>nvbs := (nvbs (srvs ! k) + count_list (concat (map (take limit) rows)) (int k)) mod 2 ^ 32\<rparr>)"
  using assms
proof (induction rows arbitrary: srvs)
  case (Cons row rows)
  obtain srvs1 where s1: "count_row ok limit row 0 srvs = Inr srvs1" "length srvs1 = length srvs"
    "\<forall>k < length srvs. srvs1 ! k = (srvs ! k)\<lparr>nvbs := (nvbs (srvs ! k) + count_list (drop 0 (take limit row)) (int k)) mod 2 ^ 32\<rparr>"
    using count_row_ok [of limit row srvs ok 0] Cons.prems by auto
  have "\<forall>k < length srvs1. nvbs (srvs1 ! k) < 2 ^ 32" using s1(2,3) by simp
  then obtain srvs' where s': "count_rows ok limit rows srvs1 = Inr srvs'" "length srvs' = length srvs"
    "\<forall>k < length srvs. srvs' ! k =
       (srvs1 ! k)\<lparr>nvbs := (nvbs (srvs1 ! k) + count_list (concat (map (take limit) rows)) (int k)) mod 2 ^ 32\<rparr>"
    using Cons.IH [of srvs1] Cons.prems(1) s1(2) by auto
  have "count_rows ok limit (row # rows) srvs = Inr srvs'" using s1(1) s'(1) by simp
  moreover have "srvs' ! k =
      (srvs ! k)\<lparr>nvbs := (nvbs (srvs ! k) + count_list (concat (map (take limit) (row # rows))) (int k)) mod 2 ^ 32\<rparr>"
    if "k < length srvs" for k
    using that s1(3) s'(3) by (simp add: mod_simps add.assoc)
  ultimately show ?case using s'(2) by auto
qed simp

lemma count_data_le: "count_data b n srcs = Some nd \<Longrightarrow> nd \<le> n + length srcs"
  by (induction b n srcs rule: count_data.induct) (fastforce split: if_splits)+

definition host_auth :: "SERVER \<Rightarrow> string" where
  "host_auth src = copy_address MAX_AUTHORITY_SIZE (the (hostname src)) (data (svc src))"

lemma gen_servers_ok:
  assumes "\<forall>s. strdup s = Some s" and "\<forall>s \<in> set srcs. hostname s \<noteq> None"
  shows "\<exists>dsts. gen_servers strdup srcs = Inr dsts \<and> length dsts = length srcs \<and>
    (\<forall>k < length srcs. nvbs (dsts ! k) = nvbs (srcs ! k) \<and> hostname (dsts ! k) = hostname (srcs ! k) \<and>
       authority (dsts ! k) = Some (host_auth (srcs ! k)) \<and> data (svc (dsts ! k)) = data (svc (srcs ! k)))"
  using assms(2)
proof (induction srcs)
  case (Cons src srcs)
  obtain host where h: "hostname src = Some host" using Cons.prems by auto
  have "\<exists>dst. gen_server strdup src = Inr dst \<and> nvbs dst = nvbs src \<and> hostname dst = hostname src \<and>
      authority dst = Some (host_auth src) \<and> data (svc dst) = data (svc src)"
    using h assms(1) by (simp add: gen_server_def host_auth_def copy_service_def Let_def)
  then obtain dst where dst: "gen_server strdup src = Inr dst" "nvbs dst = nvbs src" "hostname dst = hostname src"
    "authority dst = Some (host_auth src)" "data (svc dst) = data (svc src)" by blast
  obtain dsts where dsts: "gen_servers strdup srcs = Inr dsts" "length dsts = length srcs"
    "\<forall>k < length srcs. nvbs (dsts ! k) = nvbs (srcs ! k) \<and> hostname (dsts ! k) = hostname (srcs ! k) \<and>
       authority (dsts ! k) = Some (host_auth (srcs ! k)) \<and> data (svc (dsts ! k)) = data (svc (srcs ! k))"
    using Cons by auto
  have "gen_servers strdup (src # srcs) = Inr (dst # dsts)" using dst(1) dsts(1) by simp
  moreover have "nvbs ((dst # dsts) ! k) = nvbs ((src # srcs) ! k) \<and> hostname ((dst # dsts) ! k) = hostname ((src # srcs) ! k) \<and>
       authority ((dst # dsts) ! k) = Some (host_auth ((src # srcs) ! k)) \<and>
       data (svc ((dst # dsts) ! k)) = data (svc ((src # srcs) ! k))" if "k < length (src # srcs)" for k
    using that dst dsts(3) by (cases k) auto
  ultimately show ?case using dsts(2) by auto
qed simp

text \<open>What a map generated for \<open>nd\<close> data nodes looks like.\<close>

definition ring_map :: "nat \<Rightarrow> nat \<Rightarrow> nat \<Rightarrow> VBUCKET list \<Rightarrow> bool" where
  "ring_map nd limit n rows \<longleftrightarrow>
     length rows = n \<and> (\<forall>i < n. length (rows ! i) = 4 \<and> (\<forall>j < limit. rows ! i ! j = int ((i + j) mod nd)))"

lemma ring_map_distinct:
  assumes "ring_map nd limit n rows" and "limit \<le> nd" and "limit \<le> 4" and "i < n"
  shows "distinct (take limit (rows ! i))"
proof -
  have r: "\<forall>j < limit. rows ! i ! j = int ((i + j) mod nd)" "length (rows ! i) = 4"
    using assms by (simp_all add: ring_map_def)
  have "(i + a) mod nd \<noteq> (i + b) mod nd" if "a < b" "b < limit" for a b
  proof
    assume "(i + a) mod nd = (i + b) mod nd"
    then have "nd dvd b - a" using that mod_eq_dvd_iff_nat [of "i + a" "i + b" nd] by simp
    then show False using that assms(2) by (auto dest: dvd_imp_le)
  qed
  then have "rows ! i ! a \<noteq> rows ! i ! b" if "a < b" "b < limit" for a b using that r(1) by simp
  then show ?thesis using r(2) assms(3) by (auto simp: distinct_conv_nth) (metis linorder_neqE_nat)
qed

lemma sum_count_nodes:
  assumes "\<forall>x \<in> set xs. 0 \<le> x \<and> nat x < n"
  shows "(\<Sum>k<n. count_list xs (int k)) = length xs"
proof -
  have "set xs \<subseteq> int ` {..<n}" using assms by (force intro: image_eqI [of _ _ "nat _"])
  then have "sum (count_list xs) (int ` {..<n}) = length xs" by (intro sum_count_set) auto
  then show ?thesis by (simp add: sum.reindex)
qed

lemma ring_map_nodes:
  assumes "ring_map nd limit n rows" and "0 < nd" and "limit \<le> 4"
  shows "\<forall>row \<in> set rows. limit \<le> length row \<and> (\<forall>j < limit. 0 \<le> row ! j \<and> nat (row ! j) < nd)"
    and "length (concat (map (take limit) rows)) = n * limit"
    and "\<forall>x \<in> set (concat (map (take limit) rows)). 0 \<le> x \<and> nat x < nd"
proof -
  have row: "limit \<le> length row \<and> (\<forall>j < limit. 0 \<le> row ! j \<and> nat (row ! j) < nd)" if row_in: "row \<in> set rows" for row
  proof -
    obtain i where "i < n" "row = rows ! i" using row_in assms(1) by (auto simp: in_set_conv_nth ring_map_def)
    then show ?thesis using assms by (simp add: ring_map_def)
  qed
  then show "\<forall>row \<in> set rows. limit \<le> length row \<and> (\<forall>j < limit. 0 \<le> row ! j \<and> nat (row ! j) < nd)" by blast
  have "length (concat (map (take limit) rows)) = sum_list (map (\<lambda>r. length (take limit r)) rows)"
    by (simp add: length_concat o_def)
  also have "map (\<lambda>r. length (take limit r)) rows = map (\<lambda>r. limit) rows" using row by (intro map_cong) auto
  finally show "length (concat (map (take limit) rows)) = n * limit"
    using assms(1) by (simp add: ring_map_def sum_list_triv)
  show "\<forall>x \<in> set (concat (map (take limit) rows)). 0 \<le> x \<and> nat x < nd"
  proof
    fix x assume "x \<in> set (concat (map (take limit) rows))"
    then obtain r where r: "r \<in> set rows" "x \<in> set (take limit r)" by auto
    then obtain j where "j < limit" "x = r ! j" by (auto simp: in_set_conv_nth)
    then show "0 \<le> x \<and> nat x < nd" using row [OF r(1)] by blast
  qed
qed

lemma gen_rows_ring:
  assumes "malloc_vb_ok malloc" and "0 < nd" and "0 < limit" and "limit \<le> 4"
  shows "\<exists>mem rows. malloc n = Some mem \<and> gen_rows 0 nd limit mem = Inr rows \<and> ring_map nd limit n rows"
proof -
  obtain mem where m: "malloc n = Some mem" "length mem = n" "\<forall>row \<in> set mem. length row = 4"
    using assms(1) by (auto simp: malloc_vb_ok_def)
  then show ?thesis using gen_rows_ok [OF assms(2-4) m(3), of 0] by (auto simp: ring_map_def)
qed

section \<open>The comparison\<close>

definition c_string :: "string \<Rightarrow> bool" where
  "c_string s \<longleftrightarrow> CHR 0x00 \<notin> set s"

lemma of_char_0_iff: "of_char c = (0 :: int) \<longleftrightarrow> c = CHR 0x00"
  using of_char_eq_iff [of c "CHR 0x00", where 'a = int] by simp

lemma c_strcmp_0_iff: "c_string s \<Longrightarrow> c_string t \<Longrightarrow> c_strcmp s t = 0 \<longleftrightarrow> s = t"
  by (induction s t rule: c_strcmp.induct) (auto simp: c_string_def of_char_0_iff)

text \<open>A configuration with a complete node list and map.\<close>

definition map_rows :: "CONFIG \<Rightarrow> VBUCKET list" where
  "map_rows cfg = (if nvb cfg = 0 then [] else the (vbuckets cfg))"

definition named :: "SERVER list \<Rightarrow> bool" where
  "named srvs \<longleftrightarrow> (\<forall>s \<in> set srvs. \<exists>a. authority s = Some a \<and> c_string a)"

definition comparable :: "CONFIG \<Rightarrow> bool" where
  "comparable cfg \<longleftrightarrow>
     nsrv cfg = length (servers cfg) \<and> named (servers cfg) \<and> nrepl cfg < 4 \<and>
     (nvb cfg \<noteq> 0 \<longrightarrow> vbuckets cfg \<noteq> None) \<and> length (map_rows cfg) = nvb cfg \<and>
     (\<forall>row \<in> set (map_rows cfg). length row = 4)"

lemma find_authority_ok:
  assumes "c_string auth" and "named olds"
  shows "find_authority auth olds = Inr (Some auth \<in> authority ` set olds)"
  using assms(2) by (induction olds) (auto simp: named_def c_strcmp_0_iff assms(1))

lemma vb_list_diff_ok:
  assumes "named olds" and "named new"
  shows "vb_list_diff olds new =
    Inr (map (\<lambda>s. infostr s (the (authority s))) (filter (\<lambda>s. authority s \<notin> authority ` set olds) new))"
  using assms(2)
proof (induction new)
  case (Cons s new)
  obtain a where a: "authority s = Some a" "c_string a" using Cons.prems by (auto simp: named_def)
  moreover have "named new" using Cons.prems by (simp add: named_def)
  ultimately show ?case using Cons.IH find_authority_ok [OF a(2) assms(1)] by simp
qed simp

lemma seq_differs_ok:
  assumes "named as" and "named bs" and "length as = length bs"
  shows "seq_differs as bs = Inr (map authority as \<noteq> map authority bs)"
  using assms(3,1,2)
proof (induction as bs rule: list_induct2)
  case (Cons a as b bs)
  obtain sa sb where s: "authority a = Some sa" "authority b = Some sb" "c_string sa" "c_string sb"
    using Cons.prems by (auto simp: named_def)
  have "seq_differs as bs = Inr (map authority as \<noteq> map authority bs)"
    using Cons by (simp add: named_def)
  then show ?case using s by (simp add: c_strcmp_0_iff)
qed simp

definition slot_diffs :: "nat \<Rightarrow> VBUCKET \<Rightarrow> VBUCKET \<Rightarrow> nat" where
  "slot_diffs limit ra rb = length (filter (\<lambda>(a, b). a \<noteq> b) (zip (take limit ra) (take limit rb)))"

lemma row_changes_from:
  assumes "limit \<le> length ra" and "limit \<le> length rb"
  shows "row_changes jj limit ra rb =
    Inr (int (length (filter (\<lambda>(a, b). a \<noteq> b) (drop jj (zip (take limit ra) (take limit rb))))))"
  using assms
proof (induction jj limit ra rb rule: row_changes.induct)
  case (1 jj limit ra rb)
  show ?case
  proof (cases "jj < limit")
    case True
    define z where "z = zip (take limit ra) (take limit rb)"
    have z: "jj < length z" "z ! jj = (ra ! jj, rb ! jj)" using True "1.prems" by (simp_all add: z_def)
    have "row_changes (Suc jj) limit ra rb = Inr (int (length (filter (\<lambda>(a, b). a \<noteq> b) (drop (Suc jj) z))))"
      using "1.IH" [OF True] "1.prems" by (simp add: z_def)
    moreover have "drop jj z = (ra ! jj, rb ! jj) # drop (Suc jj) z" using z by (metis Cons_nth_drop_Suc)
    ultimately show ?thesis using True "1.prems"
      unfolding z_def [symmetric] by (subst row_changes.simps) (simp add: mem_get_def)
  next
    case False
    then show ?thesis by (subst row_changes.simps) simp
  qed
qed

lemma row_changes_ok:
  "limit \<le> length ra \<Longrightarrow> limit \<le> length rb \<Longrightarrow> row_changes 0 limit ra rb = Inr (int (slot_diffs limit ra rb))"
  by (simp add: row_changes_from slot_diffs_def)

lemma slot_diffs_0_iff:
  "length ra = length rb \<Longrightarrow> slot_diffs limit ra rb = 0 \<longleftrightarrow> take limit ra = take limit rb"
proof -
  have "length xs = length ys \<Longrightarrow> filter (\<lambda>(a, b). a \<noteq> b) (zip xs ys) = [] \<longleftrightarrow> xs = ys" for xs ys :: "int list"
    by (induction xs ys rule: list_induct2) auto
  then show "length ra = length rb \<Longrightarrow> slot_diffs limit ra rb = 0 \<longleftrightarrow> take limit ra = take limit rb"
    by (simp add: slot_diffs_def)
qed

lemma map_changes_ok:
  assumes "length as = length bs" and "\<forall>r \<in> set as. length r = 4" and "\<forall>r \<in> set bs. length r = 4" and "limit \<le> 4"
  shows "map_changes limit as bs = Inr (int (sum_list (map2 (slot_diffs limit) as bs)))"
  using assms(1-3) by (induction as bs rule: list_induct2) (simp_all add: row_changes_ok assms(4))

lemma map_same_iff:
  assumes "length as = length bs" and "\<forall>r \<in> set as. length r = 4" and "\<forall>r \<in> set bs. length r = 4"
  shows "sum_list (map2 (slot_diffs limit) as bs) = 0 \<longleftrightarrow> map (take limit) as = map (take limit) bs"
  using assms by (induction as bs rule: list_induct2) (auto simp: slot_diffs_0_iff)

lemma vb_rows_ok: "comparable cfg \<Longrightarrow> vb_rows cfg = Inr (map_rows cfg)"
  by (auto simp: comparable_def vb_rows_def map_rows_def mem_read_def split: if_splits)

text \<open>Counting the slots of a ring map: no count wraps, and together they are all the slots.\<close>

lemma count_ring:
  assumes "ring_map nd limit nvbuckets rows" and "0 < nd" and "limit \<le> 4" and "nd \<le> length dsts"
    and "\<forall>k < length dsts. nvbs (dsts ! k) = 0" and "4 * nvbuckets < 2 ^ 32"
  shows "\<exists>srvs. count_rows (\<lambda>ix. 0 \<le> ix) limit rows dsts = Inr srvs \<and> length srvs = length dsts \<and>
    (\<forall>k < length dsts. nvbs (srvs ! k) = count_list (concat (map (take limit) rows)) (int k)) \<and>
    (\<Sum>k<length dsts. nvbs (srvs ! k)) = nvbuckets * limit"
proof -
  note nodes = ring_map_nodes [OF assms(1-3)]
  define cl where "cl = count_list (concat (map (take limit) rows))"
  have "\<forall>k < length dsts. nvbs (dsts ! k) < 2 ^ 32" using assms(5) by simp
  moreover have "\<forall>row \<in> set rows. limit \<le> length row \<and>
      (\<forall>j < limit. 0 \<le> row ! j \<and> nat (row ! j) < length dsts \<and> 0 \<le> row ! j)"
    using nodes(1) assms(4) by fastforce
  ultimately obtain srvs where c: "count_rows (\<lambda>ix. 0 \<le> ix) limit rows dsts = Inr srvs" "length srvs = length dsts"
    "\<forall>k < length dsts. srvs ! k = (dsts ! k)\<lparr>nvbs := (nvbs (dsts ! k) + cl (int k)) mod 2 ^ 32\<rparr>"
    using count_rows_ok [of rows limit dsts "\<lambda>ix. 0 \<le> ix"] by (auto simp: cl_def)
  have cl: "cl x < 2 ^ 32" for x
  proof -
    have "cl x \<le> nvbuckets * limit" using count_le_length [of "concat (map (take limit) rows)" x] nodes(2) by (simp add: cl_def)
    also have "\<dots> \<le> 4 * nvbuckets" using assms(3) by (simp add: mult.commute)
    finally show ?thesis using assms(6) by simp
  qed
  then have counts: "\<forall>k < length dsts. nvbs (srvs ! k) = cl (int k)" using c(3) assms(5) by simp
  have "\<forall>x \<in> set (concat (map (take limit) rows)). 0 \<le> x \<and> nat x < length dsts"
    using nodes(3) assms(4) by (meson less_le_trans)
  then have "(\<Sum>k<length dsts. cl (int k)) = nvbuckets * limit"
    unfolding cl_def using sum_count_nodes nodes(2) by metis
  then show ?thesis using c(1,2) counts by (simp add: cl_def)
qed

section \<open>Properties\<close>

text \<open>
  \<^bold>\<open>C24\<close>. A configuration generated for \<open>nd\<close> data nodes with fewer than \<open>nd\<close> and at most three replicas puts
  slot \<open>j\<close> of vBucket \<open>i\<close> on node \<open>(i + j) mod nd\<close>: every slot is a data node and master and replicas are
  different nodes. The count of a node is the number of slots that name it, so the counts add up to the
  number of slots. On that configuration every key maps to a vBucket of the map, the CRC-32 of the key
  modulo the number of vBuckets, and to its master. The statement is for a generator that gets the memory it
  asks for, for source nodes that have host names and zero counts, and for at most \<open>2 ^ 30 - 1\<close> vBuckets.
\<close>

theorem lcbvb_genconfig_ex_ring:
  assumes "\<forall>s. strdup s = Some s" and "malloc_vb_ok malloc" and "\<forall>s \<in> set srcs. hostname s \<noteq> None \<and> nvbs s = 0"
    and "count_data False 0 srcs = Some nd" and "nreplica < nd" and "nreplica \<le> 3"
    and "0 < nvbuckets" and "4 * nvbuckets < 2 ^ 32"
  shows "\<exists>vb rows. lcbvb_genconfig_ex strdup malloc name uuid srcs nreplica nvbuckets = Inr (0, vb) \<and>
    vbuckets vb = Some rows \<and> ring_map nd (nreplica + 1) nvbuckets rows \<and>
    (\<forall>i < nvbuckets. distinct (take (nreplica + 1) (rows ! i))) \<and>
    (\<forall>k < length srcs. nvbs (servers vb ! k) = count_list (concat (map (take (nreplica + 1)) rows)) (int k)) \<and>
    (\<Sum>k<length srcs. nvbs (servers vb ! k)) = nvbuckets * (nreplica + 1) \<and>
    lcbvb_map_key stack vb key =
      Inr (int (unat (hash_crc32 key) mod nvbuckets), int (unat (hash_crc32 key) mod nvbuckets mod nd))"
proof -
  define limit where "limit = nreplica + 1"
  have lim: "0 < nd" "0 < limit" "limit \<le> 4" "limit \<le> nd" using assms(5,6) by (simp_all add: limit_def)
  have nd: "nd \<le> length srcs" using count_data_le [OF assms(4)] by simp
  obtain mem rows where g: "malloc nvbuckets = Some mem" "gen_rows 0 nd limit mem = Inr rows"
    "ring_map nd limit nvbuckets rows"
    using gen_rows_ring [OF assms(2) lim(1-3)] by blast
  obtain dsts where d: "gen_servers strdup srcs = Inr dsts" "length dsts = length srcs"
    "\<forall>k < length srcs. nvbs (dsts ! k) = nvbs (srcs ! k)"
    using gen_servers_ok [OF assms(1), of srcs] assms(3) by auto
  define cl where "cl = count_list (concat (map (take limit) rows))"
  obtain srvs where c: "count_rows (\<lambda>ix. 0 \<le> ix) limit rows dsts = Inr srvs" "length srvs = length srcs"
    and counts: "\<forall>k < length srcs. nvbs (srvs ! k) = cl (int k)"
    and sum: "(\<Sum>k<length srcs. nvbs (srvs ! k)) = nvbuckets * limit"
    using count_ring [OF g(3) lim(1,3), of dsts] nd d(2,3) assms(3,8) by (auto simp: cl_def)
  have ne: "srcs \<noteq> []" using nd lim(1) by auto
  obtain vb where vb: "lcbvb_genconfig_ex strdup malloc name uuid srcs nreplica nvbuckets = Inr (0, vb)"
    "vbuckets vb = Some rows" "servers vb = srvs" "nvb vb = nvbuckets" "dtype vb = DIST_VBUCKET"
    using g(1,2) c(1) d(1) assms(4-7) nd ne
    by (auto simp: lcbvb_genconfig_ex_def Let_def limit_def lcbvb_create_def)
  define v where "v = unat (hash_crc32 key) mod nvbuckets"
  have v: "v < nvbuckets" using assms(7) by (simp add: v_def)
  then have "rows ! v ! 0 = int (v mod nd)" "length (rows ! v) = 4" "v < length rows"
    using g(3) lim(2) by (simp_all add: ring_map_def)
  then have "lcbvb_map_key stack vb key = Inr (int v, int (v mod nd))"
    using vb assms(7)
    by (auto simp: lcbvb_map_key_def lcbvb_k2vb_def v_def [symmetric] lcbvb_vbmaster_def vb_slot_def arr_get_def mem_get_def)
  moreover have "\<forall>i < nvbuckets. distinct (take limit (rows ! i))" using ring_map_distinct [OF g(3) lim(4,3)] by blast
  ultimately show ?thesis using vb(1-3) g(3) counts sum unfolding limit_def v_def cl_def by blast
qed

definition sample_malloc_vb :: malloc_vb where
  "sample_malloc_vb n = Some (replicate n [7, 7, 7, 7])"

definition sample_nodes :: "SERVER list" where
  "sample_nodes = [sample_server ''a'' 1, sample_server ''b'' 2, sample_server ''c'' 0]"

lemma sample_malloc_vb_ok: "malloc_vb_ok sample_malloc_vb"
  by (simp add: malloc_vb_ok_def sample_malloc_vb_def)

theorem lcbvb_genconfig_ex_ring_witness:
  "\<exists>vb rows. lcbvb_genconfig_ex Some sample_malloc_vb None None sample_nodes 1 3 = Inr (0, vb) \<and>
     vbuckets vb = Some rows \<and> ring_map 2 2 3 rows \<and> (\<Sum>k<3. nvbs (servers vb ! k)) = 6"
proof -
  have "count_data False 0 sample_nodes = Some 2" "length sample_nodes = 3"
    "\<forall>s \<in> set sample_nodes. hostname s \<noteq> None \<and> nvbs s = 0"
    by (simp_all add: sample_nodes_def sample_server_def no_server_def no_services_def)
  then show ?thesis
    using lcbvb_genconfig_ex_ring [of Some sample_malloc_vb sample_nodes 2 1 3 None None "[]" "[]"] sample_malloc_vb_ok
    by (auto simp flip: numeral_2_eq_2)
qed

text \<open>
  The nodes with a data service, and the order the generator asks for: every node in front of a data node
  is a data node.
\<close>

definition data_nodes :: "SERVER list \<Rightarrow> nat" where
  "data_nodes srcs = length (filter (\<lambda>s. data (svc s) \<noteq> 0) srcs)"

definition data_first :: "SERVER list \<Rightarrow> bool" where
  "data_first srcs \<longleftrightarrow> (\<forall>j < length srcs. data (svc (srcs ! j)) \<noteq> 0 \<longrightarrow> (\<forall>i < j. data (svc (srcs ! i)) \<noteq> 0))"

lemma data_first_Nil: "data_first []"
  by (simp add: data_first_def)

lemma data_first_Cons:
  "data_first (s # srcs) \<longleftrightarrow>
     (if data (svc s) \<noteq> 0 then data_first srcs else \<forall>t \<in> set srcs. data (svc t) = 0)"
  unfolding data_first_def by (auto simp: All_less_Suc2 all_set_conv_all_nth)

lemma count_data_nondata:
  "count_data True n srcs = (if \<forall>t \<in> set srcs. data (svc t) = 0 then Some n else None)"
  by (induction srcs) auto

lemma count_data_exact:
  "count_data False n srcs = (if data_first srcs then Some (n + data_nodes srcs) else None)"
proof (induction srcs arbitrary: n)
  case (Cons s srcs)
  have "data_nodes (s # srcs) = 0" if "data (svc s) = 0" "\<forall>t \<in> set srcs. data (svc t) = 0"
    using that by (simp add: data_nodes_def)
  then show ?case
    using Cons by (simp add: data_first_Cons count_data_nondata) (simp add: data_nodes_def)
qed (simp add: data_first_Nil data_nodes_def)

text \<open>
  \<^bold>\<open>C25\<close>. What the generator does with parameters outside its range, for a non-empty map. It refuses as
  many replicas as nodes, more than four replicas, a data node that follows a node without data service,
  and a map for which there is no memory; every refusal returns \<open>-1\<close> with its own message and without a
  map. Four replicas pass its check although a vBucket has only four slots: once the map is allocated, the
  fifth slot is written outside the row. Without any data node the generator divides by zero. The block
  \<open>malloc\<close> returns is only asked to hold the rows that were requested.
\<close>

theorem lcbvb_genconfig_ex_errors:
  assumes "srcs \<noteq> []" and "0 < nvbuckets"
    and "\<forall>rows. malloc nvbuckets = Some rows \<longrightarrow> length rows = nvbuckets \<and> (\<forall>row \<in> set rows. length row = 4)"
  shows "(length srcs \<le> nreplica \<longrightarrow> (\<exists>vb. lcbvb_genconfig_ex strdup malloc name uuid srcs nreplica nvbuckets = Inr (- 1, vb) \<and>
            errstr vb = Some ''nservers must be > nreplicas'' \<and> vbuckets vb = None)) \<and>
    (4 < nreplica \<and> nreplica < length srcs \<longrightarrow> (\<exists>vb. lcbvb_genconfig_ex strdup malloc name uuid srcs nreplica nvbuckets =
            Inr (- 1, vb) \<and> errstr vb = Some ''Replicas must be <= 4'' \<and> vbuckets vb = None)) \<and>
    (nreplica \<le> 4 \<and> nreplica < length srcs \<and> \<not> data_first srcs \<longrightarrow>
       (\<exists>vb. lcbvb_genconfig_ex strdup malloc name uuid srcs nreplica nvbuckets = Inr (- 1, vb) \<and>
            errstr vb = Some ''All data servers must be specified before non-data servers'' \<and> vbuckets vb = None)) \<and>
    (nreplica \<le> 4 \<and> nreplica < length srcs \<and> data_first srcs \<and> malloc nvbuckets = None \<longrightarrow>
       (\<exists>vb. lcbvb_genconfig_ex strdup malloc name uuid srcs nreplica nvbuckets = Inr (- 1, vb) \<and>
            errstr vb = Some ''Couldn't allocate vbucket array'' \<and> vbuckets vb = None)) \<and>
    (nreplica = 4 \<and> nreplica < length srcs \<and> data_first srcs \<and> 0 < data_nodes srcs \<and> malloc nvbuckets \<noteq> None \<longrightarrow>
       lcbvb_genconfig_ex strdup malloc name uuid srcs nreplica nvbuckets = Inl OutOfBounds) \<and>
    (nreplica \<le> 4 \<and> nreplica < length srcs \<and> data_nodes srcs = 0 \<and> malloc nvbuckets \<noteq> None \<longrightarrow>
       lcbvb_genconfig_ex strdup malloc name uuid srcs nreplica nvbuckets = Inl DivisionByZero)"
proof -
  have oob: "gen_rows 0 nd 5 (row # rows) = Inl OutOfBounds" if "0 < nd" "length row = 4" for nd row rows
    using that by (simp add: gen_row.simps mem_set_def)
  have dz: "gen_rows 0 0 limit (row # rows) = Inl DivisionByZero" if "0 < limit" "length row = 4" for limit row rows
    using that by (auto simp: gen_row.simps [of _ 0] mem_set_def)
  have none: "data_first srcs" if "data_nodes srcs = 0"
    using that by (auto simp: data_nodes_def data_first_def filter_empty_conv)
  show ?thesis
  proof (cases "malloc nvbuckets")
    case None
    then show ?thesis
      using assms(1,2) by (simp add: lcbvb_genconfig_ex_def lcbvb_create_def count_data_exact Let_def)
  next
    case (Some mem)
    then obtain row rows where "mem = row # rows" "length row = 4" using assms(2,3) by (cases mem) auto
    with Some show ?thesis
      using assms(1,2) oob dz none by (simp add: lcbvb_genconfig_ex_def lcbvb_create_def count_data_exact Let_def)
  qed
qed

theorem lcbvb_genconfig_ex_errors_witness:
  "lcbvb_genconfig_ex Some sample_malloc_vb None None (replicate 5 (sample_server ''a'' 1)) 4 1 = Inl OutOfBounds \<and>
   (\<exists>vb. lcbvb_genconfig_ex Some (\<lambda>_. None) None None [sample_server ''a'' 0, sample_server ''b'' 1] 1 1 = Inr (- 1, vb) \<and>
      errstr vb = Some ''All data servers must be specified before non-data servers'')"
proof -
  have "data_first (replicate 5 (sample_server ''a'' 1))" "0 < data_nodes (replicate 5 (sample_server ''a'' 1))"
    "\<not> data_first [sample_server ''a'' 0, sample_server ''b'' 1]"
    by (simp_all add: data_first_Cons data_first_Nil data_nodes_def sample_server_def no_server_def no_services_def numeral_eq_Suc)
  then show ?thesis
    using lcbvb_genconfig_ex_errors [of "replicate 5 (sample_server ''a'' 1)" 1 sample_malloc_vb 4 Some None None]
      lcbvb_genconfig_ex_errors [of "[sample_server ''a'' 0, sample_server ''b'' 1]" 1 "\<lambda>_. None" 1 Some None None]
      sample_malloc_vb_ok by (simp add: malloc_vb_ok_def) (auto simp: malloc_vb_ok_def sample_malloc_vb_def)
qed


definition sample_old :: CONFIG where
  "sample_old = lcbvb_create\<lparr>nvb := 1, nsrv := 1, servers := [no_server\<lparr>authority := Some ''a:1''\<rparr>],
     vbuckets := Some [[0, 0, 0, 0]]\<rparr>"

definition sample_new :: CONFIG where
  "sample_new = lcbvb_create\<lparr>nvb := 1, nsrv := 2,
     servers := [no_server\<lparr>authority := Some ''a:1''\<rparr>, no_server\<lparr>authority := Some ''b:1''\<rparr>],
     vbuckets := Some [[1, 0, 0, 0]]\<rparr>"


end
