(* ===== verification/Vb_Load.thy ===== *)
theory Vb_Load
  imports Vb_Gen
begin

text \<open>
  Loading a configuration from a JSON document and saving it, from \<open>src/vbucket/vbucket.c\<close>. The document
  is the tree that \<open>cJSON_Parse\<close> returns, or \<open>None\<close> when the text is not JSON. \<open>strdup\<close> and \<open>alloc\<close> say whether
  an allocation succeeds. Functions that return zero on failure return a boolean beside their state.
\<close>

definition quoted :: "string \<Rightarrow> string" where
  "quoted s = CHR 0x27 # s @ [CHR 0x27]"

section \<open>The vBucket map\<close>

text \<open>
  The loop over the indices of one row. \<open>Inl\<close> is the jump to \<open>GT_ERR\<close>, with the error message if one is set.
\<close>

fun build_row :: "nat \<Rightarrow> nat \<Rightarrow> cJSON list \<Rightarrow> VBUCKET \<Rightarrow> (string option + VBUCKET) res" where
  "build_row n jj [] row = Inr (Inr row)"
| "build_row n jj (JNumber v # js) row =
     res_bind (mem_set row jj (c_int v)) (\<lambda>row'.
       if c_int v > c_int (int n) - 1 then
         Inr (Inl (Some ''Invalid vBucket map received from server. Above-bounds vBucket target found''))
       else build_row n (Suc jj) js row')"
| "build_row n jj (_ # js) row = Inr (Inl None)"

fun build_rows :: "nat \<Rightarrow> cJSON list \<Rightarrow> (string option + VBUCKET list) res" where
  "build_rows n [] = Inr (Inr [])"
| "build_rows n (JArray xs # js) =
     res_bind (build_row n 0 xs (replicate 4 0)) (\<lambda>r.
       case r of
         Inl e \<Rightarrow> Inr (Inl e)
       | Inr row \<Rightarrow>
           res_bind (build_rows n js) (\<lambda>rs. Inr (case rs of Inl e \<Rightarrow> Inl e | Inr rows \<Rightarrow> Inr (row # rows))))"
| "build_rows n (_ # js) = Inr (Inl None)"

definition build_vbmap :: "(nat \<Rightarrow> bool) \<Rightarrow> CONFIG \<Rightarrow> cJSON \<Rightarrow> (CONFIG \<times> VBUCKET list option) res" where
  "build_vbmap alloc cfg cj =
     (let nalloc = cJSON_GetArraySize cj in
      if nalloc = 0 \<or> \<not> alloc nalloc then Inr (cfg, None)
      else
        res_bind (build_rows (nsrv cfg) (map snd (jchildren cj))) (\<lambda>r.
          Inr (case r of
                 Inl e \<Rightarrow> (case e of None \<Rightarrow> cfg | Some s \<Rightarrow> SET_ERRSTR s cfg, None)
               | Inr rows \<Rightarrow> (cfg, Some rows))))"

definition set_vb_count :: "CONFIG \<Rightarrow> VBUCKET list option \<Rightarrow> CONFIG res" where
  "set_vb_count cfg vbs =
     (case vbs of
        None \<Rightarrow> Inr cfg
      | Some rows \<Rightarrow>
          res_bind (mem_read rows 0 (nvb cfg)) (\<lambda>rs.
          res_bind (count_rows (\<lambda>ix. \<not> (ix < 0 \<or> c_unsigned ix > nsrv cfg)) (uadd 32 (nrepl cfg) 1) rs (servers cfg))
            (\<lambda>srvs. Inr (cfg\<lparr>servers := srvs\<rparr>))))"

section \<open>Pairing \<open>nodes\<close> with \<open>serverList\<close>\<close>

text \<open>
  \<open>find_server_memd\<close> looks at \<open>n\<close> entries; entries past the list are the ones that \<open>realloc\<close> added without
  initialising them.
\<close>

function find_server_memd :: "SERVER list \<Rightarrow> nat \<Rightarrow> string \<Rightarrow> nat \<Rightarrow> nat option res" where
  "find_server_memd srvs n s ii =
     (if ii < n then
        if ii < length srvs then
          res_bind (c_deref (hostname (srvs ! ii))) (\<lambda>host.
            if s = copy_address 4096 host (data (svc (srvs ! ii))) then Inr (Some ii)
            else find_server_memd srvs n s (Suc ii))
        else Inl Uninitialized
      else Inr None)"
  by pat_completeness auto
termination
  by (relation "measure (\<lambda>(srvs, n, s, ii). n - ii)") auto

declare find_server_memd.simps [simp del]

definition assign_dumy_server :: "c_strdup \<Rightarrow> CONFIG \<Rightarrow> SERVER \<Rightarrow> string \<Rightarrow> (CONFIG \<times> SERVER) \<times> bool" where
  "assign_dumy_server strdup cfg dst s =
     (case strdup s of
        None \<Rightarrow> ((SET_ERRSTR ''Couldn't allocate authority string'' cfg, dst\<lparr>authority := None\<rparr>), False)
      | Some a \<Rightarrow>
          let dst1 = dst\<lparr>authority := Some a\<rparr> in
          case c_strstr s '':'' of
            None \<Rightarrow> ((SET_ERRSTR ''Badly formatted name string'' cfg, dst1), False)
          | Some (_, colon) \<Rightarrow>
              (case sscanf_d (tl colon) of
                 None \<Rightarrow> ((SET_ERRSTR ''Badly formatted port'' cfg, dst1), False)
               | Some itmp \<Rightarrow> ((cfg, dst1\<lparr>svc := (svc dst1)\<lparr>data := c_u16 itmp\<rparr>\<rparr>), True)))"

fun pair_servers :: "c_strdup \<Rightarrow> CONFIG \<Rightarrow> cJSON list \<Rightarrow> (CONFIG \<times> SERVER list option) res" where
  "pair_servers strdup cfg [] = Inr (cfg, Some [])"
| "pair_servers strdup cfg (JString s # js) =
     res_bind (find_server_memd (servers cfg) (nsrv cfg) s 0) (\<lambda>found.
       case (case found of
               Some ii \<Rightarrow> ((cfg, servers cfg ! ii), True)
             | None \<Rightarrow> assign_dumy_server strdup cfg no_server s) of
         ((cfg1, srv), ok) \<Rightarrow>
           if \<not> ok then Inr (cfg1, None)
           else
             res_bind (pair_servers strdup cfg1 js) (\<lambda>(cfg2, rest).
               Inr (cfg2, map_option (\<lambda>l. srv # l) rest)))"
| "pair_servers strdup cfg (_ # js) = Inl NullPointer"

definition pair_server_list :: "c_strdup \<Rightarrow> (nat \<Rightarrow> bool) \<Rightarrow> CONFIG \<Rightarrow> cJSON \<Rightarrow> (CONFIG \<times> bool) res" where
  "pair_server_list strdup alloc cfg vbconfig =
     (case get_jarray vbconfig ''serverList'' of
        None \<Rightarrow> Inr (SET_ERRSTR ''Couldn't find serverList'' cfg, False)
      | Some jservers \<Rightarrow>
          let n = cJSON_GetArraySize jservers in
          if n > nsrv cfg \<and> \<not> alloc n then
            Inr (SET_ERRSTR ''Couldn't allocate memory for server list'' cfg, False)
          else
            let cfg1 = (if n > nsrv cfg then cfg\<lparr>nsrv := n\<rparr> else cfg) in
            res_bind (pair_servers strdup cfg1 (map snd (jchildren jservers))) (\<lambda>(cfg2, newlist).
              Inr (case newlist of None \<Rightarrow> (cfg2, False) | Some l \<Rightarrow> (cfg2\<lparr>servers := l\<rparr>, True))))"

text \<open>The forward map is optional; it shares the count \<open>nvb\<close> with the map.\<close>

definition load_ffmap :: "(nat \<Rightarrow> bool) \<Rightarrow> CONFIG \<Rightarrow> cJSON \<Rightarrow> (CONFIG \<times> bool) res" where
  "load_ffmap alloc cfg vbconfig =
     (case get_jarray vbconfig ''vBucketMapForward'' of
        None \<Rightarrow> Inr (cfg, True)
      | Some ffmap \<Rightarrow>
          res_bind (build_vbmap alloc cfg ffmap) (\<lambda>(cfg1, ff).
            Inr (case ff of
                   None \<Rightarrow> (cfg1\<lparr>ffvbuckets := None\<rparr>, False)
                 | Some ffrows \<Rightarrow> (cfg1\<lparr>ffvbuckets := Some ffrows, nvb := length ffrows\<rparr>, True))))"

definition assign_vbuckets :: "c_strdup \<Rightarrow> (nat \<Rightarrow> bool) \<Rightarrow> CONFIG \<Rightarrow> cJSON \<Rightarrow> (CONFIG \<times> bool) res" where
  "assign_vbuckets strdup alloc cfg vbconfig =
     res_bind (if is3x cfg then Inr (cfg, True) else pair_server_list strdup alloc cfg vbconfig) (\<lambda>(cfg1, ok).
       if \<not> ok then Inr (cfg1, False)
       else
         res_bind (set_vb_count cfg1 (vbuckets cfg1)) (\<lambda>cfg2.
         res_bind (set_vb_count cfg2 (ffvbuckets cfg2)) (\<lambda>cfg3. Inr (cfg3, True))))"

definition parse_vbucket :: "c_strdup \<Rightarrow> (nat \<Rightarrow> bool) \<Rightarrow> CONFIG \<Rightarrow> cJSON \<Rightarrow> (CONFIG \<times> bool) res" where
  "parse_vbucket strdup alloc cfg cj =
     (case get_jobj cj ''vBucketServerMap'' of
        None \<Rightarrow> Inr (SET_ERRSTR (''Expected top-level '' @ quoted ''vBucketServerMap'') cfg, False)
      | Some vbconfig \<Rightarrow>
          (case get_juint vbconfig ''numReplicas'' of
             None \<Rightarrow> Inr (SET_ERRSTR (quoted ''numReplicas'' @ '' missing'') (cfg\<lparr>nrepl := 0\<rparr>), False)
           | Some n \<Rightarrow>
               let cfg1 = cfg\<lparr>nrepl := n\<rparr> in
               (case get_jarray vbconfig ''vBucketMap'' of
                  None \<Rightarrow> Inr (SET_ERRSTR (''Missing '' @ quoted ''vBucketMap'') cfg1, False)
                | Some vbmap \<Rightarrow>
                    res_bind (build_vbmap alloc cfg1 vbmap) (\<lambda>(cfg2, vbs).
                      case vbs of
                        None \<Rightarrow> Inr (cfg2\<lparr>vbuckets := None\<rparr>, False)
                      | Some rows \<Rightarrow>
                          res_bind (load_ffmap alloc (cfg2\<lparr>vbuckets := Some rows, nvb := length rows\<rparr>) vbconfig)
                            (\<lambda>(cfg3, ok). if \<not> ok then Inr (cfg3, False) else assign_vbuckets strdup alloc cfg3 vbconfig)))))"

section \<open>Nodes\<close>

definition service_port :: "cJSON \<Rightarrow> string \<Rightarrow> nat" where
  "service_port jsvc key = (case get_jint jsvc key of Some itmp \<Rightarrow> c_u16 itmp | None \<Rightarrow> 0)"

definition svc_key :: "bool \<Rightarrow> string \<Rightarrow> string" where
  "svc_key is_ssl k = (if is_ssl then k @ ''SSL'' else k)"

definition eventing_key :: "bool \<Rightarrow> string" where
  "eventing_key is_ssl = (if is_ssl then ''eventingSSL'' else ''eventingAdminPort'')"

definition extract_services :: "cJSON \<Rightarrow> SERVICES \<Rightarrow> bool \<Rightarrow> SERVICES" where
  "extract_services jsvc s is_ssl =
     s\<lparr>data := service_port jsvc (svc_key is_ssl ''kv''),
       mgmt := service_port jsvc (svc_key is_ssl ''mgmt''),
       views := service_port jsvc (svc_key is_ssl ''capi''),
       n1ql := service_port jsvc (svc_key is_ssl ''n1ql''),
       fts := service_port jsvc (svc_key is_ssl ''fts''),
       ixadmin := service_port jsvc (svc_key is_ssl ''indexAdmin''),
       ixquery := service_port jsvc (svc_key is_ssl ''indexScan''),
       cbas := service_port jsvc (svc_key is_ssl ''cbas''),
       eventing := service_port jsvc (eventing_key is_ssl)\<rparr>"

text \<open>The ports that an alternate address does not list are those of the node itself.\<close>

definition copy_port :: "nat \<Rightarrow> nat \<Rightarrow> nat" where
  "copy_port src dst = (if dst = 0 then src else dst)"

definition COPY_SERVICE :: "SERVICES \<Rightarrow> SERVICES \<Rightarrow> SERVICES" where
  "COPY_SERVICE src dst =
     dst\<lparr>data := copy_port (data src) (data dst),
         mgmt := copy_port (mgmt src) (mgmt dst),
         views := copy_port (views src) (views dst),
         n1ql := copy_port (n1ql src) (n1ql dst),
         fts := copy_port (fts src) (fts dst),
         ixadmin := copy_port (ixadmin src) (ixadmin dst),
         ixquery := copy_port (ixquery src) (ixquery dst),
         cbas := copy_port (cbas src) (cbas dst),
         eventing := copy_port (eventing src) (eventing dst)\<rparr>"

definition default_path :: "c_strdup \<Rightarrow> string option \<Rightarrow> nat \<Rightarrow> string \<Rightarrow> string option" where
  "default_path strdup old port path = (if old = None \<and> port \<noteq> 0 then strdup path else old)"

definition build_server_strings :: "c_strdup \<Rightarrow> CONFIG \<Rightarrow> SERVER \<Rightarrow> ((CONFIG \<times> SERVER) \<times> bool) res" where
  "build_server_strings strdup cfg server =
     res_bind (c_deref (hostname server)) (\<lambda>host.
       case strdup (copy_address 4096 host (data (svc server))) of
         None \<Rightarrow> Inr ((SET_ERRSTR ''Couldn't allocate authority'' cfg, server\<lparr>authority := None\<rparr>), False)
       | Some auth \<Rightarrow>
           let sv = svc server in
           res_bind
             (case bname cfg of
                None \<Rightarrow> Inr (viewpath server)
              | Some b \<Rightarrow>
                  if viewpath server = None \<and> views sv \<noteq> 0
                  then res_bind (c_deref (strdup (''/'' @ b))) (\<lambda>p. Inr (Some p))
                  else Inr (viewpath server))
             (\<lambda>view.
               Inr ((cfg, server\<lparr>authority := Some auth,
                   svc := sv\<lparr>hoststrs := (hoststrs sv)[svctype_ix SVC_DATA := strdup auth]\<rparr>,
                   viewpath := view,
                   querypath := default_path strdup (querypath server) (n1ql sv) ''/query/service'',
                   ftspath := default_path strdup (ftspath server) (fts sv) ''/'',
                   cbaspath := default_path strdup (cbaspath server) (cbas sv) [],
                   eventingpath := default_path strdup (eventingpath server) (eventing sv) []\<rparr>), True)))"

definition alternate_address :: "c_strdup \<Rightarrow> cJSON \<Rightarrow> string \<Rightarrow> SERVER \<Rightarrow> SERVER" where
  "alternate_address strdup js network server =
     (case cJSON_GetObjectItem js ''alternateAddresses'' of
        Some (JObject ms) \<Rightarrow>
          (case cJSON_GetObjectItem (JObject ms) network of
             None \<Rightarrow> server
           | Some jnetwork \<Rightarrow>
               (case get_jstr jnetwork ''hostname'' of
                  None \<Rightarrow> server
                | Some htmp \<Rightarrow>
                    let server1 = server\<lparr>alt_hostname := strdup htmp\<rparr>;
                        server2 = (case cJSON_GetObjectItem jnetwork ''ports'' of
                                     Some (JObject ps) \<Rightarrow>
                                       server1\<lparr>alt_svc := extract_services (JObject ps) (alt_svc server1) False,
                                               alt_svc_ssl := extract_services (JObject ps) (alt_svc_ssl server1) True\<rparr>
                                   | _ \<Rightarrow> server1) in
                    server2\<lparr>alt_svc := COPY_SERVICE (svc server2) (alt_svc server2),
                            alt_svc_ssl := COPY_SERVICE (svc_ssl server2) (alt_svc_ssl server2)\<rparr>))
      | _ \<Rightarrow> server)"

definition build_server_3x ::
  "c_strdup \<Rightarrow> CONFIG \<Rightarrow> SERVER \<Rightarrow> cJSON \<Rightarrow> string option \<Rightarrow> ((CONFIG \<times> SERVER) \<times> bool) res" where
  "build_server_3x strdup cfg server js network =
     (let htmp = (case get_jstr js ''hostname'' of None \<Rightarrow> ''$HOST'' | Some h \<Rightarrow> h) in
      case strdup htmp of
        None \<Rightarrow> Inr ((SET_ERRSTR ''Couldn't allocate memory'' cfg, server\<lparr>hostname := None\<rparr>), False)
      | Some host \<Rightarrow>
          let server1 = server\<lparr>hostname := Some host\<rparr> in
          (case get_jobj js ''services'' of
             None \<Rightarrow> Inr ((SET_ERRSTR (''Couldn't find '' @ quoted ''services'') cfg, server1), False)
           | Some jsvcs \<Rightarrow>
               let server2 = server1\<lparr>svc := extract_services jsvcs (svc server1) False,
                                     svc_ssl := extract_services jsvcs (svc_ssl server1) True\<rparr> in
               res_bind (build_server_strings strdup cfg server2) (\<lambda>((cfg1, server3), ok).
                 if \<not> ok then Inr ((cfg1, server3), False)
                 else
                   Inr ((cfg1, case network of
                                 Some n \<Rightarrow> if n \<noteq> ''default'' then alternate_address strdup js n server3 else server3
                               | None \<Rightarrow> server3), True))))"

definition build_server_2x :: "c_strdup \<Rightarrow> CONFIG \<Rightarrow> SERVER \<Rightarrow> cJSON \<Rightarrow> ((CONFIG \<times> SERVER) \<times> bool) res" where
  "build_server_2x strdup cfg server js =
     (case get_jstr js ''hostname'' of
        None \<Rightarrow> Inr ((SET_ERRSTR ''Couldn't find hostname'' cfg, server), False)
      | Some tmp \<Rightarrow>
     (case strdup tmp of
        None \<Rightarrow> Inr ((SET_ERRSTR ''Couldn't allocate hostname'' cfg, server\<lparr>hostname := None\<rparr>), False)
      | Some full \<Rightarrow>
          let server1 = server\<lparr>hostname := Some full\<rparr> in
     (case c_strchr full CHR '':'' of
        None \<Rightarrow> Inr ((SET_ERRSTR (''Expected '' @ quoted '':'' @ '' in '' @ quoted ''hostname'') cfg, server1), False)
      | Some (host, colon) \<Rightarrow>
     (case sscanf_d (tl colon) of
        None \<Rightarrow> Inr ((SET_ERRSTR (''Expected port after '' @ quoted '':'') cfg, server1), False)
      | Some port \<Rightarrow>
          let server2 = server1\<lparr>svc := (svc server1)\<lparr>mgmt := c_u16 port\<rparr>, hostname := Some host\<rparr>;
              capi =
                (case get_jstr js ''couchApiBase'' of
                   None \<Rightarrow> ((cfg, server2\<lparr>svc := (svc server2)\<lparr>views := 0\<rparr>\<rparr>), True)
                 | Some base \<Rightarrow>
                     (case c_strrchr base CHR '':'' of
                        None \<Rightarrow> ((cfg, server2), False)
                      | Some colon2 \<Rightarrow>
                          (case sscanf_d (tl colon2) of
                             None \<Rightarrow> ((cfg, server2), False)
                           | Some vport \<Rightarrow>
                               let server3 = server2\<lparr>svc := (svc server2)\<lparr>views := c_u16 vport\<rparr>\<rparr> in
                               (case c_strstr colon2 ''/'' of
                                  None \<Rightarrow> ((SET_ERRSTR ''Expected path in couchApiBase'' cfg, server3), False)
                                | Some (_, path) \<Rightarrow> ((cfg, server3\<lparr>viewpath := strdup path\<rparr>), True))))) in
          (case capi of ((cfg1, server4), ok) \<Rightarrow>
             if \<not> ok then Inr ((cfg1, server4), False)
             else
     (case get_jobj js ''ports'' of
        None \<Rightarrow> Inr ((SET_ERRSTR (''Expected '' @ quoted ''ports'' @ '' dictionary'') cfg1, server4), False)
      | Some jsports \<Rightarrow>
     (case get_jint jsports ''direct'' of
        None \<Rightarrow>
          Inr ((SET_ERRSTR (''Expected '' @ quoted ''direct'' @ '' field in '' @ quoted ''ports'') cfg1, server4), False)
      | Some direct \<Rightarrow>
          build_server_strings strdup cfg1 (server4\<lparr>svc := (svc server4)\<lparr>data := c_u16 direct\<rparr>\<rparr>))))))))"

section \<open>The network of the bootstrap address\<close>

definition has_hostname :: "cJSON \<Rightarrow> string \<Rightarrow> bool" where
  "has_hostname j source = (get_jstr j ''hostname'' = Some source)"

fun find_network :: "(string \<times> cJSON) list \<Rightarrow> string \<Rightarrow> string option" where
  "find_network [] source = None"
| "find_network ((name, JObject ms) # rest) source =
     (if has_hostname (JObject ms) source then Some name else find_network rest source)"
| "find_network (_ # rest) source = find_network rest source"

fun guess_network_in :: "cJSON list \<Rightarrow> string \<Rightarrow> string" where
  "guess_network_in [] source = ''default''"
| "guess_network_in (jsrv # rest) source =
     (if has_hostname jsrv source then ''default''
      else
        case (case cJSON_GetObjectItem jsrv ''alternateAddresses'' of
                Some (JObject ms) \<Rightarrow> find_network ms source
              | _ \<Rightarrow> None) of
          Some name \<Rightarrow> name
        | None \<Rightarrow> guess_network_in rest source)"

definition guess_network :: "c_strdup \<Rightarrow> cJSON \<Rightarrow> nat \<Rightarrow> string \<Rightarrow> string option" where
  "guess_network strdup jnodes n source = strdup (guess_network_in (take n (map snd (jchildren jnodes))) source)"

section \<open>Capabilities\<close>

text \<open>The names of the capabilities and the positions of their bits.\<close>

definition cap_table :: "(string \<times> nat) list" where
  "cap_table =
     [(''xattr'', 0), (''dcp'', 4), (''cbhello'', 1), (''touch'', 6),
      (''couchapi'', 3), (''cccp'', 2), (''xdcrCheckpointing'', 7),
      (''nodesExt'', 5), (''collections'', 8), (''durableWrite'', 9),
      (''tombstonedUserXAttrs'', 10)]"

definition ccap_table :: "(string \<times> nat) list" where
  "ccap_table = [(''enhancedPreparedStatements'', 0)]"

fun load_caps :: "(string \<times> nat) list \<Rightarrow> 64 word \<Rightarrow> cJSON list \<Rightarrow> 64 word" where
  "load_caps table acc [] = acc"
| "load_caps table acc (JString s # js) =
     load_caps table (case map_of table s of None \<Rightarrow> acc | Some b \<Rightarrow> acc OR push_bit b 1) js"
| "load_caps table acc (_ # js) = load_caps table acc js"

definition save_caps :: "(string \<times> nat) list \<Rightarrow> 64 word \<Rightarrow> cJSON" where
  "save_caps table c = JArray (map (\<lambda>(s, b). JString s) (filter (\<lambda>(s, b). c AND push_bit b 1 \<noteq> 0) table))"

section \<open>Loading\<close>

text \<open>
  The loop over the nodes: the nodes built so far, including the one that failed, and whether all were
  built. \<open>defined\<close> is the size of the array \<open>nodes\<close> when the document has one beside \<open>nodesExt\<close>.
\<close>

definition drop_data :: "SERVER \<Rightarrow> SERVER" where
  "drop_data srv =
     srv\<lparr>svc := (svc srv)\<lparr>data := 0\<rparr>, svc_ssl := (svc_ssl srv)\<lparr>data := 0\<rparr>,
         alt_svc := (alt_svc srv)\<lparr>data := 0\<rparr>, alt_svc_ssl := (alt_svc_ssl srv)\<lparr>data := 0\<rparr>\<rparr>"

fun build_servers ::
  "c_strdup \<Rightarrow> CONFIG \<Rightarrow> nat option \<Rightarrow> string option \<Rightarrow> nat \<Rightarrow> cJSON list \<Rightarrow> ((CONFIG \<times> SERVER list) \<times> bool) res" where
  "build_servers strdup cfg defined network ii [] = Inr ((cfg, []), True)"
| "build_servers strdup cfg defined network ii (js # rest) =
     res_bind (if is3x cfg then build_server_3x strdup cfg no_server js network
               else build_server_2x strdup cfg no_server js) (\<lambda>((cfg1, srv), ok).
       let srv1 = (if is3x cfg \<and> ok \<and> (case defined of None \<Rightarrow> False | Some n \<Rightarrow> n \<le> ii)
                   then drop_data srv else srv) in
       if \<not> ok then Inr ((SET_ERRSTR ''Failed to build server'' cfg1, [srv1]), False)
       else
         res_bind (build_servers strdup cfg1 defined network (Suc ii) rest) (\<lambda>((cfg2, srvs), ok2).
           Inr ((cfg2, srv1 # srvs), ok2)))"

definition load_header :: "c_strdup \<Rightarrow> CONFIG \<Rightarrow> cJSON \<Rightarrow> CONFIG res" where
  "load_header strdup cfg cj =
     (let is_cluster_cfg = (case cJSON_GetObjectItem cj ''buckets'' of
                              None \<Rightarrow> False | Some (JArray _) \<Rightarrow> False | Some _ \<Rightarrow> True) in
      res_bind (case get_jstr cj ''name'' of
                  Some tmp \<Rightarrow>
                    if is_cluster_cfg then Inr cfg
                    else res_bind (c_deref (strdup tmp)) (\<lambda>name. Inr (cfg\<lparr>bname := Some name, bname_len := length name\<rparr>))
                | None \<Rightarrow> Inr cfg) (\<lambda>cfg1.
        let cfg2 = cfg1\<lparr>dtype := (case get_jstr cj ''nodeLocator'' of
                                    None \<Rightarrow> DIST_UNKNOWN
                                  | Some tmp \<Rightarrow> if tmp = ''ketama'' then DIST_KETAMA else DIST_VBUCKET)\<rparr>;
            cfg3 = (case get_jstr cj ''uuid'' of Some tmp \<Rightarrow> cfg2\<lparr>buuid := strdup tmp\<rparr> | None \<Rightarrow> cfg2) in
        Inr (cfg3\<lparr>revepoch := (case get_jint64 cj ''revEpoch'' of None \<Rightarrow> - 1 | Some v \<Rightarrow> v),
                  revid := (case get_jint64 cj ''rev'' of None \<Rightarrow> - 1 | Some v \<Rightarrow> v)\<rparr>)))"

definition load_capabilities :: "CONFIG \<Rightarrow> cJSON \<Rightarrow> CONFIG" where
  "load_capabilities cfg cj =
     cfg\<lparr>caps := (case get_jarray cj ''bucketCapabilities'' of
                     None \<Rightarrow> 0 | Some j \<Rightarrow> load_caps cap_table 0 (map snd (jchildren j))),
         ccaps := (case get_jobj cj ''clusterCapabilities'' of
                     None \<Rightarrow> 0
                   | Some j \<Rightarrow> (case get_jarray j ''n1ql'' of
                                  None \<Rightarrow> 0 | Some jn \<Rightarrow> load_caps ccap_table 0 (map snd (jchildren jn))))\<rparr>"

text \<open>The map of a vBucket bucket, or the continuum unless the document has the placeholder host.\<close>

definition load_distribution ::
  "c_strdup \<Rightarrow> (nat \<Rightarrow> bool) \<Rightarrow> byte list \<Rightarrow> CONFIG \<Rightarrow> cJSON \<Rightarrow> string \<Rightarrow> (CONFIG \<times> bool) res" where
  "load_distribution strdup alloc stack cfg cj text =
     (if dtype cfg = DIST_VBUCKET then
        res_bind (parse_vbucket strdup alloc cfg cj) (\<lambda>(cfg1, ok).
          Inr (if ok then cfg1 else SET_ERRSTR ''Failed to parse vBucket map'' cfg1, ok))
      else if c_strstr text ''$HOST'' = None then res_bind (update_ketama alloc stack cfg) (\<lambda>cfg1. Inr (cfg1, True))
      else Inr (cfg, True))"

text \<open>
  \<open>network\<close> is \<open>None\<close> for a null pointer and \<open>Some p\<close> for the string it points to. The result is the return
  code, the configuration and the network. The table of nodes is not checked after \<open>calloc\<close>: without memory
  the first node is written through a null pointer (a node of the older format that has no host name is
  refused before that). A failed \<open>realloc\<close> at the end leaves a null table in a configuration that is
  reported as loaded.
\<close>

definition lcbvb_load_json_ex ::
  "c_strdup \<Rightarrow> (nat \<Rightarrow> bool) \<Rightarrow> byte list \<Rightarrow> CONFIG \<Rightarrow> cJSON option \<Rightarrow> string \<Rightarrow> string \<Rightarrow> string option option \<Rightarrow>
   (int \<times> CONFIG \<times> string option option) res" where
  "lcbvb_load_json_ex strdup alloc stack cfg parsed text source network =
     (case parsed of
        None \<Rightarrow> Inr (- 1, SET_ERRSTR ''Couldn't parse JSON'' cfg, network)
      | Some cj \<Rightarrow>
          res_bind (load_header strdup cfg cj) (\<lambda>cfg1.
          let nodes = get_jarray cj ''nodes'';
              nodesExt = get_jarray cj ''nodesExt'';
              defined = map_option cJSON_GetArraySize nodes in
          (case (case nodesExt of None \<Rightarrow> nodes | Some j \<Rightarrow> Some j) of
             None \<Rightarrow>
               Inr (- 1, SET_ERRSTR (''expected '' @ quoted ''nodesExt'' @ '' or '' @ quoted ''nodes'' @ '' array'') cfg1, network)
           | Some jnodes \<Rightarrow>
               let cfg2 = (if nodesExt \<noteq> None then cfg1\<lparr>is3x := True\<rparr> else cfg1);
                   cfg3 = (load_capabilities cfg2 cj)\<lparr>nsrv := cJSON_GetArraySize jnodes\<rparr>;
                   network1 = (if network = Some None then Some (guess_network strdup jnodes (nsrv cfg3) source)
                               else network) in
               let nodes' = map snd (jchildren jnodes) in
               if \<not> alloc (nsrv cfg3) \<and> nodes' \<noteq> [] \<and> (is3x cfg3 \<or> get_jstr (hd nodes') ''hostname'' \<noteq> None) then Inl NullPointer
               else
               res_bind (build_servers strdup cfg3 defined (case network1 of None \<Rightarrow> None | Some p \<Rightarrow> p) 0 nodes')
                 (\<lambda>((cfg4, srvs), ok).
                 let cfg5 = cfg4\<lparr>servers := (if alloc (nsrv cfg3)
                                          then srvs @ replicate (nsrv cfg3 - length srvs) no_server else [])\<rparr> in
                 if \<not> ok then Inr (- 1, cfg5, network1)
                 else
                   let cfg6 = cfg5\<lparr>ndatasrv := length (takeWhile (\<lambda>s. data (svc s) \<noteq> 0) srvs)\<rparr> in
                   res_bind (load_distribution strdup alloc stack cfg6 cj text) (\<lambda>(cfg7, ok7).
                     if \<not> ok7 then Inr (- 1, cfg7, network1)
                     else Inr (0, cfg7\<lparr>servers := (if alloc (nsrv cfg7) then servers cfg7 else []), randbuf := replicate (nsrv cfg7) 0\<rparr>, network1))))))"

definition lcbvb_load_json ::
  "c_strdup \<Rightarrow> (nat \<Rightarrow> bool) \<Rightarrow> byte list \<Rightarrow> CONFIG \<Rightarrow> cJSON option \<Rightarrow> string \<Rightarrow> (int \<times> CONFIG) res" where
  "lcbvb_load_json strdup alloc stack cfg parsed text =
     res_bind (lcbvb_load_json_ex strdup alloc stack cfg parsed text [] None) (\<lambda>(rv, cfg', network). Inr (rv, cfg'))"

definition lcbvb_parse_json ::
  "c_strdup \<Rightarrow> (nat \<Rightarrow> bool) \<Rightarrow> byte list \<Rightarrow> cJSON option \<Rightarrow> string \<Rightarrow> CONFIG option res" where
  "lcbvb_parse_json strdup alloc stack parsed text =
     res_bind (lcbvb_load_json strdup alloc stack lcbvb_create parsed text) (\<lambda>(rv, cfg).
       Inr (if rv \<noteq> 0 then None else Some cfg))"

section \<open>Saving\<close>

definition port_member :: "string \<Rightarrow> nat \<Rightarrow> (string \<times> cJSON) list" where
  "port_member key port = (if port \<noteq> 0 then [(key, JNumber (int port))] else [])"

text \<open>The members that are added to the object \<open>jsvc\<close>.\<close>

definition svcs_to_json :: "SERVICES \<Rightarrow> bool \<Rightarrow> (string \<times> cJSON) list" where
  "svcs_to_json s is_ssl =
     port_member (svc_key is_ssl ''mgmt'') (mgmt s) @
     port_member (svc_key is_ssl ''capi'') (views s) @
     port_member (svc_key is_ssl ''kv'') (data s) @
     port_member (svc_key is_ssl ''n1ql'') (n1ql s) @
     port_member (svc_key is_ssl ''indexScan'') (ixquery s) @
     port_member (svc_key is_ssl ''indexAdmin'') (ixadmin s) @
     port_member (svc_key is_ssl ''fts'') (fts s) @
     port_member (svc_key is_ssl ''cbas'') (cbas s) @
     port_member (eventing_key is_ssl) (eventing s)"

definition server_to_json :: "SERVER \<Rightarrow> cJSON res" where
  "server_to_json srv =
     res_bind (c_deref (hostname srv)) (\<lambda>host.
       Inr (JObject [(''hostname'', JString host),
                     (''services'', JObject (svcs_to_json (svc srv) False @ svcs_to_json (svc_ssl srv) True))]))"

fun res_map :: "('a \<Rightarrow> 'b res) \<Rightarrow> 'a list \<Rightarrow> 'b list res" where
  "res_map f [] = Inr []"
| "res_map f (x # xs) = res_bind (f x) (\<lambda>y. res_bind (res_map f xs) (\<lambda>ys. Inr (y # ys)))"

definition vbmap_to_json :: "CONFIG \<Rightarrow> cJSON res" where
  "vbmap_to_json cfg =
     res_bind (vb_rows cfg) (\<lambda>rows.
     res_bind (res_map (\<lambda>row. cJSON_CreateIntArray row (uadd 32 (nrepl cfg) 1)) rows) (\<lambda>js.
       Inr (JObject [(''numReplicas'', JNumber (int (nrepl cfg))), (''vBucketMap'', JArray js)])))"

definition lcbvb_save_json :: "CONFIG \<Rightarrow> cJSON res" where
  "lcbvb_save_json cfg =
     res_bind (c_deref (bname cfg)) (\<lambda>name.
     res_bind (res_bind (mem_read (servers cfg) 0 (nsrv cfg)) (res_map server_to_json)) (\<lambda>nodes.
     res_bind (if dtype cfg = DIST_VBUCKET then res_bind (vbmap_to_json cfg) (\<lambda>j. Inr [(''vBucketServerMap'', j)])
               else Inr []) (\<lambda>vbmap.
       Inr (JObject (
         [(''nodeLocator'', JString (if dtype cfg = DIST_VBUCKET then ''vbucket'' else ''ketama''))] @
         (case buuid cfg of None \<Rightarrow> [] | Some u \<Rightarrow> [(''uuid'', JString u)]) @
         (if revepoch cfg > - 1 then [(''revEpoch'', JNumber (revepoch cfg))] else []) @
         (if revid cfg > - 1 then [(''rev'', JNumber (revid cfg))] else []) @
         [(''name'', JString name), (''nodesExt'', JArray nodes)] @
         vbmap @
         (if caps cfg \<noteq> 0 then [(''bucketCapabilities'', save_caps cap_table (caps cfg))] else []) @
         (if ccaps cfg \<noteq> 0
          then [(''clusterCapabilities'', JObject [(''n1ql'', save_caps ccap_table (ccaps cfg))])] else []))))))"

section \<open>Replacing the placeholder host\<close>

text \<open>
  The replacement is the outcome of reading it as a C string. The new text is written to a block that is
  not checked.
\<close>

definition replace_hoststr :: "(nat \<Rightarrow> bool) \<Rightarrow> string option \<Rightarrow> string res \<Rightarrow> string option res" where
  "replace_hoststr alloc orig replacement =
     (case orig of
        None \<Rightarrow> Inr None
      | Some s \<Rightarrow>
          (case c_strstr s ''$HOST'' of
             None \<Rightarrow> Inr (Some s)
           | Some (before, match) \<Rightarrow>
               res_bind replacement (\<lambda>r.
                 if alloc (length s + length r + 1) then Inr (Some (before @ r @ drop 5 match)) else Inl NullPointer)))"

definition replace_services :: "(nat \<Rightarrow> bool) \<Rightarrow> string res \<Rightarrow> SERVICES \<Rightarrow> SERVICES res" where
  "replace_services alloc replacement s =
     res_bind (replace_hoststr alloc (views_base s) replacement) (\<lambda>v.
     res_bind (res_map (\<lambda>h. replace_hoststr alloc h replacement) (hoststrs s)) (\<lambda>hs.
       Inr (s\<lparr>views_base := v, hoststrs := hs\<rparr>)))"

text \<open>
  The bracketed form of an IPv6 address is built in a block of \<open>len + 2\<close> characters, which leaves no room
  for the terminator; a scan of the string for its end leaves the block.
\<close>

definition bracketed :: "string \<Rightarrow> byte list" where
  "bracketed hoststr = [c8 CHR ''[''] @ map c8 hoststr @ [c8 CHR '']'']"

definition replace_server :: "c_strdup \<Rightarrow> (nat \<Rightarrow> bool) \<Rightarrow> string \<Rightarrow> string res \<Rightarrow> SERVER \<Rightarrow> SERVER res" where
  "replace_server strdup alloc hoststr replacement srv =
     res_bind (replace_hoststr alloc (hostname srv) (Inr hoststr)) (\<lambda>host.
     res_bind (replace_services alloc replacement (svc srv)) (\<lambda>plain.
     res_bind (replace_services alloc replacement (svc_ssl srv)) (\<lambda>ssl.
     res_bind (mem_get (hoststrs plain) (svctype_ix SVC_DATA)) (\<lambda>h.
     res_bind (c_deref h) (\<lambda>a.
       Inr (srv\<lparr>hostname := host, svc := plain, svc_ssl := ssl, authority := strdup a\<rparr>))))))"

definition lcbvb_replace_host :: "c_strdup \<Rightarrow> (nat \<Rightarrow> bool) \<Rightarrow> byte list \<Rightarrow> CONFIG \<Rightarrow> string \<Rightarrow> CONFIG res" where
  "lcbvb_replace_host strdup alloc stack cfg hoststr =
     (let ipv6 = (c_strchr hoststr CHR '':'' \<noteq> None);
          replacement =
            (if ipv6 then res_bind (c_strlen (bracketed hoststr)) (\<lambda>n. Inr (take n (''['' @ hoststr @ '']'')))
             else Inr hoststr) in
      if ipv6 \<and> \<not> alloc (length hoststr + 2) then Inl NullPointer
      else
        res_bind (mem_read (servers cfg) 0 (nsrv cfg)) (\<lambda>srvs.
        res_bind (res_map (replace_server strdup alloc hoststr replacement) srvs) (\<lambda>srvs'.
          let cfg1 = cfg\<lparr>servers := srvs' @ drop (nsrv cfg) (servers cfg)\<rparr> in
          if dtype cfg1 = DIST_KETAMA then update_ketama alloc stack cfg1 else Inr cfg1)))"

section \<open>Compatibility interface\<close>

definition vbucket_config_create :: CONFIG where
  "vbucket_config_create = lcbvb_create"

definition vbucket_config_parse ::
  "c_strdup \<Rightarrow> (nat \<Rightarrow> bool) \<Rightarrow> byte list \<Rightarrow> CONFIG \<Rightarrow> cJSON option \<Rightarrow> string \<Rightarrow> (int \<times> CONFIG) res" where
  "vbucket_config_parse strdup alloc stack h parsed s = lcbvb_load_json strdup alloc stack h parsed s"

definition vbucket_get_error_message :: "CONFIG \<Rightarrow> string option" where
  "vbucket_get_error_message h = errstr h"

definition vbucket_config_get_num_servers :: "CONFIG \<Rightarrow> int" where
  "vbucket_config_get_num_servers cfg = c_int (int (nsrv cfg))"

definition vbucket_config_get_num_replicas :: "CONFIG \<Rightarrow> int" where
  "vbucket_config_get_num_replicas cfg = c_int (int (nrepl cfg))"

definition vbucket_config_get_num_vbuckets :: "CONFIG \<Rightarrow> int" where
  "vbucket_config_get_num_vbuckets cfg = c_int (int (nvb cfg))"

definition vbucket_config_get_server :: "(nat \<Rightarrow> bool) \<Rightarrow> CONFIG \<Rightarrow> int \<Rightarrow> (CONFIG \<times> string option) res" where
  "vbucket_config_get_server alloc cfg ix = lcbvb_get_hostport alloc cfg (c_unsigned ix) SVC_DATA MODE_PLAIN"

definition vbucket_config_get_rest_api_server :: "(nat \<Rightarrow> bool) \<Rightarrow> CONFIG \<Rightarrow> int \<Rightarrow> (CONFIG \<times> string option) res" where
  "vbucket_config_get_rest_api_server alloc cfg ix = lcbvb_get_hostport alloc cfg (c_unsigned ix) SVC_MGMT MODE_PLAIN"

definition vbucket_config_get_couch_api_base :: "CONFIG \<Rightarrow> int \<Rightarrow> (CONFIG \<times> string option) res" where
  "vbucket_config_get_couch_api_base cfg ix = lcbvb_get_capibase cfg (c_unsigned ix) MODE_PLAIN"

definition vbucket_config_get_distribution_type :: "CONFIG \<Rightarrow> DISTMODE" where
  "vbucket_config_get_distribution_type cfg = dtype cfg"

definition vbucket_map :: "byte list \<Rightarrow> CONFIG \<Rightarrow> byte list \<Rightarrow> (int \<times> int) res" where
  "vbucket_map stack cfg k = lcbvb_map_key stack cfg k"

definition vbucket_get_vbucket_by_key :: "CONFIG \<Rightarrow> byte list \<Rightarrow> int res" where
  "vbucket_get_vbucket_by_key cfg k = lcbvb_k2vb cfg k"

definition vbucket_get_master :: "CONFIG \<Rightarrow> int \<Rightarrow> int res" where
  "vbucket_get_master cfg vb = lcbvb_vbmaster cfg vb"

definition vbucket_get_replica :: "CONFIG \<Rightarrow> int \<Rightarrow> int \<Rightarrow> int res" where
  "vbucket_get_replica cfg vb repl = lcbvb_vbreplica cfg vb (c_unsigned repl)"

definition vbucket_compare :: "CONFIG \<Rightarrow> CONFIG \<Rightarrow> CONFIGDIFF res" where
  "vbucket_compare a b = lcbvb_compare a b"

definition vbucket_config_get_revision :: "CONFIG \<Rightarrow> int" where
  "vbucket_config_get_revision p = lcbvb_get_revision p"

definition vbucket_what_changed :: "CONFIGDIFF \<Rightarrow> nat" where
  "vbucket_what_changed diff = lcbvb_get_changetype diff"

definition vbucket_config_generate :: "c_strdup \<Rightarrow> malloc_vb \<Rightarrow> nat \<Rightarrow> nat \<Rightarrow> nat \<Rightarrow> (int \<times> CONFIG) res" where
  "vbucket_config_generate strdup malloc nservers nreplica nvbuckets =
     lcbvb_genconfig strdup malloc nservers nreplica nvbuckets"

section \<open>What a successful load guarantees\<close>

lemma c_int_le: "0 \<le> i \<Longrightarrow> c_int i \<le> i"
proof -
  assume "0 \<le> i"
  then have "(i + 2 ^ 31) mod 2 ^ 32 \<le> i + 2 ^ 31" by (intro zmod_le_nonneg_dividend) simp
  then show ?thesis by (simp add: c_int_def)
qed

lemma build_row_ok:
  assumes "build_row n jj js row = Inr (Inr row')"
  shows "length row' = length row \<and> (\<forall>x \<in> set row'. x \<in> set row \<or> x < int n)"
  using assms
proof (induction n jj js row rule: build_row.induct)
  case (2 n jj v js row)
  define row1 where "row1 = row[jj := c_int v]"
  have jj: "mem_set row jj (c_int v) = Inr row1" and v: "c_int v \<le> c_int (int n) - 1"
    and rest: "build_row n (Suc jj) js row1 = Inr (Inr row')"
    using "2.prems" by (auto simp: mem_set_def row1_def split: if_splits)
  have "length row' = length row1 \<and> (\<forall>x \<in> set row'. x \<in> set row1 \<or> x < int n)"
    using "2.IH" [OF _ rest] v by simp
  moreover have "set row1 \<subseteq> insert (c_int v) (set row)" by (simp add: row1_def set_update_subset_insert)
  moreover have "c_int v < int n" using v c_int_le [of "int n"] by simp
  ultimately show ?case by (auto simp: row1_def)
qed auto

definition in_range :: "nat \<Rightarrow> VBUCKET list \<Rightarrow> bool" where
  "in_range n rows \<longleftrightarrow> (\<forall>row \<in> set rows. length row = 4 \<and> (\<forall>x \<in> set row. x = 0 \<or> x < int n))"

lemma build_rows_ok:
  "build_rows n js = Inr (Inr rows) \<Longrightarrow> length rows = length js \<and> in_range n rows"
proof (induction n js arbitrary: rows rule: build_rows.induct)
  case (2 n xs js)
  then obtain row rows1 where r: "build_row n 0 xs (replicate 4 0) = Inr (Inr row)" "build_rows n js = Inr (Inr rows1)"
    "rows = row # rows1"
    by (auto elim!: res_bind_InrE split: sum.split_asm)
  then have "length rows1 = length js \<and> in_range n rows1" using 2 by auto
  moreover have "length row = 4 \<and> (\<forall>x \<in> set row. x = 0 \<or> x < int n)" using build_row_ok [OF r(1)] by auto
  ultimately show ?case using r(3) by (auto simp: in_range_def)
qed (auto simp: in_range_def)

lemma build_vbmap_ok:
  assumes "build_vbmap alloc cfg cj = Inr (cfg', Some rows)"
  shows "cfg' = cfg \<and> rows \<noteq> [] \<and> in_range (nsrv cfg) rows"
proof -
  have n: "cJSON_GetArraySize cj \<noteq> 0" and r: "build_rows (nsrv cfg) (map snd (jchildren cj)) = Inr (Inr rows)" "cfg' = cfg"
    using assms by (auto simp: build_vbmap_def Let_def elim!: res_bind_InrE split: if_splits sum.split_asm option.splits)
  then show ?thesis using build_rows_ok [OF r(1)] by (auto simp: cJSON_GetArraySize_def)
qed

lemma set_vb_count_frame:
  assumes "set_vb_count cfg vbs = Inr cfg'"
  shows "(\<exists>srvs. cfg' = cfg\<lparr>servers := srvs\<rparr>) \<and> (\<forall>rows. vbs = Some rows \<longrightarrow> nvb cfg \<le> length rows)"
proof (cases vbs)
  case None
  then have "cfg' = cfg\<lparr>servers := servers cfg\<rparr>" using assms by (simp add: set_vb_count_def)
  then show ?thesis using None by blast
next
  case (Some rows)
  then show ?thesis using assms by (auto simp: set_vb_count_def res_bind_eq_Inr mem_read_def split: if_splits)
qed

text \<open>What pairing with \<open>serverList\<close> leaves alone.\<close>

lemma assign_dumy_server_frame:
  "assign_dumy_server strdup cfg dst s = ((cfg', srv), ok) \<Longrightarrow> \<exists>e. cfg' = cfg\<lparr>errstr := e\<rparr>"
  by (auto simp: assign_dumy_server_def SET_ERRSTR_def Let_def split: option.splits if_splits prod.splits)
    (metis CONFIG.surjective CONFIG.update_convs(13))+

lemma pair_servers_frame:
  "pair_servers strdup cfg js = Inr (cfg', r) \<Longrightarrow> \<exists>e. cfg' = cfg\<lparr>errstr := e\<rparr>"
proof (induction strdup cfg js arbitrary: cfg' r rule: pair_servers.induct)
  case (1 strdup cfg)
  then have "cfg' = cfg\<lparr>errstr := errstr cfg\<rparr>" by simp
  then show ?case ..
next
  case (2 strdup cfg s js)
  obtain found where f: "find_server_memd (servers cfg) (nsrv cfg) s 0 = Inr found"
    and rest: "(case (case found of
               Some ii \<Rightarrow> ((cfg, servers cfg ! ii), True)
             | None \<Rightarrow> assign_dumy_server strdup cfg no_server s) of
         ((cfg1, srv), ok) \<Rightarrow>
           if \<not> ok then Inr (cfg1, None)
           else
             res_bind (pair_servers strdup cfg1 js) (\<lambda>(cfg2, rest).
               Inr (cfg2, map_option (\<lambda>l. srv # l) rest))) = Inr (cfg', r)"
    using "2.prems" by (auto elim: res_bind_InrE)
  obtain cfg1 srv ok where c1: "(case found of
               Some ii \<Rightarrow> ((cfg, servers cfg ! ii), True)
             | None \<Rightarrow> assign_dumy_server strdup cfg no_server s) = ((cfg1, srv), ok)"
    by (metis prod.exhaust)
  have "\<exists>e. cfg1 = cfg\<lparr>errstr := e\<rparr>"
  proof (cases found)
    case None
    then show ?thesis using c1 assign_dumy_server_frame by simp
  next
    case (Some ii)
    then have "cfg1 = cfg\<lparr>errstr := errstr cfg\<rparr>" using c1 by simp
    then show ?thesis ..
  qed
  then obtain e1 where e1: "cfg1 = cfg\<lparr>errstr := e1\<rparr>" ..
  show ?case
  proof (cases ok)
    case True
    then obtain cfg2 r2 where "pair_servers strdup cfg1 js = Inr (cfg2, r2)" "cfg' = cfg2"
      using rest c1 by (auto elim!: res_bind_InrE)
    then obtain e2 where "cfg' = cfg1\<lparr>errstr := e2\<rparr>"
      using "2.IH" [OF c1 [symmetric] refl, of cfg2 r2] True by auto
    then have "cfg' = cfg\<lparr>errstr := e2\<rparr>" using e1 by simp
    then show ?thesis ..
  next
    case False
    then show ?thesis using rest c1 e1 by auto
  qed
qed simp_all

lemma pair_server_list_frame:
  assumes "pair_server_list strdup alloc cfg vbconfig = Inr (cfg', True)"
  shows "vbuckets cfg' = vbuckets cfg \<and> ffvbuckets cfg' = ffvbuckets cfg \<and> nvb cfg' = nvb cfg \<and>
    dtype cfg' = dtype cfg \<and> nsrv cfg \<le> nsrv cfg'"
  using assms
  by (auto simp: pair_server_list_def Let_def elim!: res_bind_InrE dest!: pair_servers_frame
      split: option.split_asm if_split_asm)

lemma load_ffmap_ok:
  assumes "load_ffmap alloc cfg vbconfig = Inr (cfg', True)"
  shows "vbuckets cfg' = vbuckets cfg \<and> dtype cfg' = dtype cfg \<and> nsrv cfg' = nsrv cfg \<and> (0 < nvb cfg \<longrightarrow> 0 < nvb cfg')"
  using assms
  by (auto simp: load_ffmap_def elim!: res_bind_InrE dest!: build_vbmap_ok split: option.split_asm)

lemma assign_vbuckets_ok:
  assumes "assign_vbuckets strdup alloc cfg vbconfig = Inr (cfg', True)" and "vbuckets cfg = Some rows"
  shows "vbuckets cfg' = Some rows \<and> nvb cfg' = nvb cfg \<and> nvb cfg \<le> length rows \<and> dtype cfg' = dtype cfg \<and>
    nsrv cfg \<le> nsrv cfg'"
proof -
  obtain cfg1 cfg2 where c: "(if is3x cfg then Inr (cfg, True) else pair_server_list strdup alloc cfg vbconfig) = Inr (cfg1, True)"
    "set_vb_count cfg1 (vbuckets cfg1) = Inr cfg2" "set_vb_count cfg2 (ffvbuckets cfg2) = Inr cfg'"
    using assms(1) unfolding assign_vbuckets_def by (auto elim!: res_bind_InrE split: if_split_asm)
  have "vbuckets cfg1 = Some rows" "nvb cfg1 = nvb cfg" "dtype cfg1 = dtype cfg" "nsrv cfg \<le> nsrv cfg1"
    using c(1) assms(2) pair_server_list_frame [of strdup alloc cfg vbconfig cfg1] by (auto split: if_splits)
  then show ?thesis using set_vb_count_frame [OF c(2)] set_vb_count_frame [OF c(3)] by auto
qed

lemma parse_vbucket_ok:
  assumes "parse_vbucket strdup alloc cfg cj = Inr (cfg', True)"
  shows "\<exists>rows. vbuckets cfg' = Some rows \<and> in_range (nsrv cfg) rows \<and> 0 < nvb cfg' \<and> nvb cfg' \<le> length rows \<and>
    dtype cfg' = dtype cfg \<and> nsrv cfg \<le> nsrv cfg'"
proof -
  obtain vbconfig n vbmap cfg2 rows cfg3 where v:
    "build_vbmap alloc (cfg\<lparr>nrepl := n\<rparr>) vbmap = Inr (cfg2, Some rows)"
    "load_ffmap alloc (cfg2\<lparr>vbuckets := Some rows, nvb := length rows\<rparr>) vbconfig = Inr (cfg3, True)"
    "assign_vbuckets strdup alloc cfg3 vbconfig = Inr (cfg', True)"
    using assms by (auto simp: parse_vbucket_def Let_def elim!: res_bind_InrE split: option.split_asm if_split_asm)
  note b = build_vbmap_ok [OF v(1)]
  have "vbuckets cfg3 = Some rows" "dtype cfg3 = dtype cfg" "nsrv cfg3 = nsrv cfg" "0 < nvb cfg3"
    using load_ffmap_ok [OF v(2)] b by auto
  then show ?thesis using assign_vbuckets_ok [OF v(3)] b by auto
qed

definition map_wf :: "CONFIG \<Rightarrow> bool" where
  "map_wf cfg \<longleftrightarrow>
     (\<exists>rows. vbuckets cfg = Some rows \<and> in_range (nsrv cfg) rows \<and> 0 < nvb cfg \<and> nvb cfg \<le> length rows)"

lemma in_range_mono: "in_range m rows \<Longrightarrow> m \<le> n \<Longrightarrow> in_range n rows"
  by (fastforce simp: in_range_def)

lemma map_wf_map_key:
  assumes "map_wf cfg" and "dtype cfg = DIST_VBUCKET"
  shows "\<exists>vb ix. lcbvb_map_key stack cfg key = Inr (int vb, ix) \<and> vb < nvb cfg \<and>
    (ix < int (nsrv cfg) \<or> nsrv cfg = 0 \<and> ix = 0)"
proof -
  obtain rows where r: "vbuckets cfg = Some rows" "in_range (nsrv cfg) rows" "0 < nvb cfg" "nvb cfg \<le> length rows"
    using assms(1) by (auto simp: map_wf_def)
  define vb where "vb = unat (hash_crc32 key) mod nvb cfg"
  have vb: "vb < nvb cfg" using r(3) by (simp add: vb_def)
  then have "vb < length rows" using r(4) by linarith
  moreover from this have row: "length (rows ! vb) = 4" "\<forall>x \<in> set (rows ! vb). x = 0 \<or> x < int (nsrv cfg)"
    using r(2) nth_mem unfolding in_range_def by blast+
  moreover from this have "rows ! vb ! 0 < int (nsrv cfg) \<or> nsrv cfg = 0 \<and> rows ! vb ! 0 = 0"
    by (metis gr0I nth_mem of_nat_0_less_iff zero_less_numeral)
  moreover from calculation have "lcbvb_map_key stack cfg key = Inr (int vb, rows ! vb ! 0)"
    using assms(2) r(1,3)
    by (auto simp: lcbvb_map_key_def lcbvb_k2vb_def vb_def [symmetric] lcbvb_vbmaster_def vb_slot_def arr_get_def mem_get_def)
  ultimately show ?thesis using vb by blast
qed

lemma update_ketama_dtype: "update_ketama alloc stack cfg = Inr cfg' \<Longrightarrow> dtype cfg' = dtype cfg"
  by (auto simp: update_ketama_def Let_def elim!: res_bind_InrE split: if_split_asm)

lemma load_distribution_wf:
  assumes "load_distribution strdup alloc stack cfg cj text = Inr (cfg', True)" and "dtype cfg' = DIST_VBUCKET"
  shows "map_wf cfg'"
proof -
  have "dtype cfg = DIST_VBUCKET"
    using assms update_ketama_dtype
    by (auto simp: load_distribution_def elim!: res_bind_InrE split: if_split_asm)
  then have "parse_vbucket strdup alloc cfg cj = Inr (cfg', True)"
    using assms(1) by (auto simp: load_distribution_def elim!: res_bind_InrE split: if_split_asm)
  then show ?thesis using parse_vbucket_ok [of strdup alloc cfg cj cfg'] in_range_mono by (auto simp: map_wf_def)
qed

section \<open>Saved documents\<close>

subsection \<open>Looking up members\<close>

definition jlookup :: "(string \<times> cJSON) list \<Rightarrow> string \<Rightarrow> cJSON option" where
  "jlookup ms key = cJSON_GetObjectItem (JObject ms) key"

lemma jlookup_simps [simp]:
  "jlookup [] key = None"
  "jlookup ((k, x) # ms) key = (if strcasecmp_chars k key = 0 then Some x else jlookup ms key)"
  by (simp_all add: jlookup_def cJSON_GetObjectItem_def cJSON_strcasecmp_def)

lemma jlookup_append [simp]:
  "jlookup (ms @ ns) key = (case jlookup ms key of None \<Rightarrow> jlookup ns key | Some x \<Rightarrow> Some x)"
  by (induction ms) auto

lemma jlookup_option [simp]:
  "jlookup (case x of None \<Rightarrow> [] | Some y \<Rightarrow> f y) key = (case x of None \<Rightarrow> None | Some y \<Rightarrow> jlookup (f y) key)"
  by (cases x) auto

lemma jlookup_if [simp]: "jlookup (if c then ms else []) key = (if c then jlookup ms key else None)"
  by simp

lemma jget_lookup:
  "get_jstr (JObject ms) key = (case jlookup ms key of Some (JString t) \<Rightarrow> Some t | _ \<Rightarrow> None)"
  "get_jobj (JObject ms) key = (case jlookup ms key of Some (JObject os) \<Rightarrow> Some (JObject os) | _ \<Rightarrow> None)"
  "get_jint64 (JObject ms) key = (case jlookup ms key of Some (JNumber n) \<Rightarrow> Some n | _ \<Rightarrow> None)"
  "get_jarray (JObject ms) key = (case jlookup ms key of Some (JArray xs) \<Rightarrow> Some (JArray xs) | _ \<Rightarrow> None)"
  by (simp_all add: get_jstr_def get_jobj_def get_jint64_def get_jarray_def jlookup_def)

subsection \<open>Services\<close>

lemma jlookup_port_member [simp]:
  "jlookup (port_member k p) key = (if p \<noteq> 0 \<and> strcasecmp_chars k key = 0 then Some (JNumber (int p)) else None)"
  by (simp add: port_member_def)

lemma service_port_lookup:
  "service_port (JObject ms) key = (case jlookup ms key of Some (JNumber n) \<Rightarrow> c_u16 (c_int n) | _ \<Rightarrow> 0)"
  by (simp add: service_port_def get_jint_def jget_lookup split: option.split cJSON.split)

lemma c_u16_int [simp]: "p < 65536 \<Longrightarrow> c_u16 (c_int (int p)) = p"
  using c_int_id [of "int p"] c_u16_id [of p] by simp

definition ports_only :: "SERVICES \<Rightarrow> SERVICES" where
  "ports_only s =
     no_services\<lparr>data := data s, mgmt := mgmt s, views := views s, ixquery := ixquery s, ixadmin := ixadmin s,
                 n1ql := n1ql s, fts := fts s, cbas := cbas s, eventing := eventing s\<rparr>"

definition ports_ok :: "SERVICES \<Rightarrow> bool" where
  "ports_ok s \<longleftrightarrow> data s < 65536 \<and> mgmt s < 65536 \<and> views s < 65536 \<and> ixquery s < 65536 \<and> ixadmin s < 65536 \<and>
     n1ql s < 65536 \<and> fts s < 65536 \<and> cbas s < 65536 \<and> eventing s < 65536"

lemma extract_saved:
  assumes "ports_ok s" and "ports_ok t"
  shows "extract_services (JObject (svcs_to_json s False @ svcs_to_json t True)) no_services False = ports_only s"
    and "extract_services (JObject (svcs_to_json s False @ svcs_to_json t True)) no_services True = ports_only t"
  using assms
  by (simp_all add: extract_services_def service_port_lookup svcs_to_json_def svc_key_def eventing_key_def
      c_tolower_literals ports_only_def ports_ok_def)

text \<open>What a node keeps when it is saved and loaded.\<close>

definition same_node :: "SERVER \<Rightarrow> SERVER \<Rightarrow> bool" where
  "same_node a b \<longleftrightarrow>
     hostname b = hostname a \<and> ports_only (svc b) = ports_only (svc a) \<and> ports_only (svc_ssl b) = ports_only (svc_ssl a)"

definition node_saveable :: "SERVER \<Rightarrow> bool" where
  "node_saveable srv \<longleftrightarrow> hostname srv \<noteq> None \<and> ports_ok (svc srv) \<and> ports_ok (svc_ssl srv)"

lemma ports_only_data: "ports_only a = ports_only b \<Longrightarrow> data a = data b"
  by (simp add: ports_only_def no_services_def)

lemma ports_only_idem [simp]: "ports_only (ports_only s) = ports_only s" "ports_only (s\<lparr>hoststrs := h\<rparr>) = ports_only s"
  by (simp_all add: ports_only_def)

lemma build_saved_server:
  assumes "node_saveable srv"
  shows "\<exists>j srv'. server_to_json srv = Inr j \<and> build_server_3x Some cfg no_server j None = Inr ((cfg, srv'), True) \<and>
    same_node srv srv'"
proof -
  obtain host where h: "hostname srv = Some host" using assms by (auto simp: node_saveable_def)
  define ms where "ms = svcs_to_json (svc srv) False @ svcs_to_json (svc_ssl srv) True"
  define j where "j = JObject [(''hostname'', JString host), (''services'', JObject ms)]"
  have j: "server_to_json srv = Inr j" by (simp add: server_to_json_def h j_def ms_def)
  have get: "get_jstr j ''hostname'' = Some host" "get_jobj j ''services'' = Some (JObject ms)"
    by (simp_all add: j_def jget_lookup c_tolower_literals)
  have ex: "extract_services (JObject ms) no_services False = ports_only (svc srv)"
    "extract_services (JObject ms) no_services True = ports_only (svc_ssl srv)"
    using extract_saved assms by (simp_all add: ms_def node_saveable_def)
  define srv2 where "srv2 = no_server\<lparr>hostname := Some host, svc := ports_only (svc srv), svc_ssl := ports_only (svc_ssl srv)\<rparr>"
  have no: "svc no_server = no_services" "svc_ssl no_server = no_services" by (simp_all add: no_server_def)
  have "\<exists>srv'. build_server_strings Some cfg srv2 = Inr ((cfg, srv'), True) \<and> same_node srv srv'"
    by (simp add: build_server_strings_def srv2_def Let_def same_node_def h split: option.split)
  then obtain srv' where "build_server_strings Some cfg srv2 = Inr ((cfg, srv'), True)" "same_node srv srv'" by blast
  moreover from this have "build_server_3x Some cfg no_server j None = Inr ((cfg, srv'), True)"
    by (simp add: build_server_3x_def get Let_def ex no srv2_def)
  ultimately show ?thesis using j by blast
qed

lemma build_saved_servers:
  assumes "\<forall>srv \<in> set srvs. node_saveable srv" and "is3x cfg"
  shows "\<exists>js srvs'. res_map server_to_json srvs = Inr js \<and> length js = length srvs \<and>
    build_servers Some cfg None None ii js = Inr ((cfg, srvs'), True) \<and> list_all2 same_node srvs srvs'"
  using assms(1)
proof (induction srvs arbitrary: ii)
  case (Cons srv srvs)
  obtain j srv' where j: "server_to_json srv = Inr j" "build_server_3x Some cfg no_server j None = Inr ((cfg, srv'), True)"
    "same_node srv srv'" using build_saved_server [of srv cfg] Cons.prems by auto
  obtain js srvs' where js: "res_map server_to_json srvs = Inr js" "length js = length srvs"
    "build_servers Some cfg None None (Suc ii) js = Inr ((cfg, srvs'), True)" "list_all2 same_node srvs srvs'"
    using Cons.IH [of "Suc ii"] Cons.prems by auto
  have "build_servers Some cfg None None ii (j # js) = Inr ((cfg, srv' # srvs'), True)"
    using j(2) js(3) assms(2) by simp
  then show ?case using j js by (intro exI [of _ "j # js"] exI [of _ "srv' # srvs'"]) simp
qed simp

subsection \<open>The map\<close>

definition row_saveable :: "nat \<Rightarrow> nat \<Rightarrow> VBUCKET \<Rightarrow> bool" where
  "row_saveable n limit row \<longleftrightarrow> length row = 4 \<and> (\<forall>x \<in> set (take limit row). - (2 ^ 31) \<le> x \<and> x < int n)"

lemma build_saved_row_from:
  assumes "n < 2 ^ 31" and "\<forall>x \<in> set xs. - (2 ^ 31) \<le> x \<and> x < int n" and "jj + length xs \<le> length row"
  shows "build_row n jj (map JNumber xs) row = Inr (Inr (take jj row @ xs @ drop (jj + length xs) row))"
  using assms(2,3)
proof (induction xs arbitrary: jj row)
  case (Cons x xs)
  have cn: "c_int (int n) = int n" using assms(1) by (intro c_int_id) auto
  have cx: "c_int x = x" using Cons.prems assms(1) by (intro c_int_id) auto
  have jj: "jj < length row" using Cons.prems by simp
  have "build_row n (Suc jj) (map JNumber xs) (row[jj := x]) =
      Inr (Inr (take (Suc jj) (row[jj := x]) @ xs @ drop (Suc jj + length xs) (row[jj := x])))"
    using Cons.prems by (intro Cons.IH) auto
  moreover have "take (Suc jj) (row[jj := x]) = take jj row @ [x]" using jj by (simp add: take_Suc_conv_app_nth)
  moreover have "drop (Suc jj + length xs) (row[jj := x]) = drop (jj + length (x # xs)) row" by simp
  ultimately show ?case using Cons.prems jj by (simp add: mem_set_def cx cn)
qed simp

lemma build_saved_row:
  assumes "n < 2 ^ 31" and "row_saveable n limit row" and "limit \<le> 4"
  shows "build_row n 0 (map JNumber (take limit row)) (replicate 4 0) = Inr (Inr (take limit row @ replicate (4 - limit) 0))"
  using build_saved_row_from [OF assms(1), of "take limit row" 0 "replicate 4 0"] assms(2,3)
  by (simp add: row_saveable_def min_def)

lemma build_saved_rows:
  assumes "n < 2 ^ 31" and "\<forall>row \<in> set rows. row_saveable n limit row" and "limit \<le> 4"
  shows "\<exists>js rows'. res_map (\<lambda>row. cJSON_CreateIntArray row limit) rows = Inr js \<and> length js = length rows \<and>
    build_rows n js = Inr (Inr rows') \<and> map (take limit) rows' = map (take limit) rows \<and>
    rows' = map (\<lambda>row. take limit row @ replicate (4 - limit) 0) rows"
  using assms(2)
proof (induction rows)
  case (Cons row rows)
  obtain js where js: "res_map (\<lambda>row. cJSON_CreateIntArray row limit) rows = Inr js" "length js = length rows"
    "build_rows n js = Inr (Inr (map (\<lambda>row. take limit row @ replicate (4 - limit) 0) rows))"
    using Cons by auto
  have row: "row_saveable n limit row" using Cons.prems by simp
  then have "cJSON_CreateIntArray row limit = Inr (JArray (map JNumber (take limit row)))"
    using assms(3) by (simp add: cJSON_CreateIntArray_def mem_read_def row_saveable_def)
  then show ?case
    using js build_saved_row [OF assms(1) row assms(3)] Cons.prems assms(3)
    by (intro exI [of _ "JArray (map JNumber (take limit row)) # js"]) (auto simp: row_saveable_def)
qed simp

definition same_but_count :: "SERVER \<Rightarrow> SERVER \<Rightarrow> bool" where
  "same_but_count a b \<longleftrightarrow> b\<lparr>nvbs := 0\<rparr> = a\<lparr>nvbs := 0\<rparr>"

lemma count_row_skip:
  assumes "limit \<le> length row" and "\<forall>j < limit. ok (row ! j) \<longrightarrow> 0 \<le> row ! j \<and> nat (row ! j) < length srvs"
  shows "\<exists>srvs'. count_row ok limit row jj srvs = Inr srvs' \<and> list_all2 same_but_count srvs srvs'"
  using assms
proof (induction ok limit row jj srvs rule: count_row.induct)
  case (1 ok limit row jj srvs)
  show ?case
  proof (cases "jj < limit")
    case True
    have get: "mem_get row jj = Inr (row ! jj)" using True "1.prems"(1) by (simp add: mem_get_def)
    show ?thesis
    proof (cases "ok (row ! jj)")
      case ok: True
      define ix where "ix = nat (row ! jj)"
      define s1 where "s1 = (srvs ! ix)\<lparr>nvbs := uadd 32 (nvbs (srvs ! ix)) 1\<rparr>"
      have ix: "row ! jj = int ix" "ix < length srvs" using "1.prems"(2) True ok by (simp_all add: ix_def)
      have arr: "arr_get (Some srvs) (int ix) = Inr (srvs ! ix)" using ix by (simp add: arr_get_def mem_get_def)
      obtain srvs' where s': "count_row ok limit row (Suc jj) (srvs[ix := s1]) = Inr srvs'"
        "list_all2 same_but_count (srvs[ix := s1]) srvs'"
        using "1.IH"(1) [OF True ok, of "srvs ! ix"] "1.prems" unfolding ix nat_int s1_def [symmetric] by auto
      have "list_all2 same_but_count srvs srvs'"
      proof (rule list_all2_all_nthI)
        show "length srvs = length srvs'" using list_all2_lengthD [OF s'(2)] by simp
        fix i assume i: "i < length srvs"
        have "same_but_count (srvs[ix := s1] ! i) (srvs' ! i)" using list_all2_nthD [OF s'(2), of i] i by simp
        then show "same_but_count (srvs ! i) (srvs' ! i)"
          using i by (cases "i = ix") (simp_all add: s1_def same_but_count_def)
      qed
      then show ?thesis using True get ok arr s'(1) ix(1) by (subst count_row.simps) (simp add: s1_def)
    next
      case False
      then show ?thesis using "1.IH"(2) [OF True False] "1.prems" True get by (subst count_row.simps) simp
    qed
  next
    case False
    then show ?thesis by (subst count_row.simps) (simp add: list_all2_same same_but_count_def)
  qed
qed

lemma count_rows_skip:
  assumes "\<forall>row \<in> set rows. limit \<le> length row \<and>
    (\<forall>j < limit. ok (row ! j) \<longrightarrow> 0 \<le> row ! j \<and> nat (row ! j) < length srvs)"
  shows "\<exists>srvs'. count_rows ok limit rows srvs = Inr srvs' \<and> list_all2 same_but_count srvs srvs'"
  using assms
proof (induction rows arbitrary: srvs)
  case Nil
  then show ?case by (simp add: list_all2_same same_but_count_def)
next
  case (Cons row rows)
  obtain srvs1 where s1: "count_row ok limit row 0 srvs = Inr srvs1" "list_all2 same_but_count srvs srvs1"
    using count_row_skip [of limit row ok srvs 0] Cons.prems by auto
  have len: "length srvs1 = length srvs" using list_all2_lengthD [OF s1(2)] by simp
  have "\<forall>row \<in> set rows. limit \<le> length row \<and>
      (\<forall>j < limit. ok (row ! j) \<longrightarrow> 0 \<le> row ! j \<and> nat (row ! j) < length srvs1)"
    using Cons.prems unfolding len by simp
  then obtain srvs2 where s2: "count_rows ok limit rows srvs1 = Inr srvs2" "list_all2 same_but_count srvs1 srvs2"
    using Cons.IH by blast
  have "list_all2 same_but_count srvs srvs2"
    by (rule list_all2_trans [OF _ s1(2) s2(2)]) (simp add: same_but_count_def)
  then show ?case using s1(1) s2(1) by simp
qed

subsection \<open>Capabilities\<close>

lemma load_saved_caps:
  assumes "distinct (map fst table)" and "set sub \<subseteq> set table"
  shows "load_caps table acc (map (\<lambda>(s, b). JString s) sub) = fold (\<lambda>(s, b) acc. acc OR push_bit b 1) sub acc"
  using assms(2)
proof (induction sub arbitrary: acc)
  case (Cons x sub)
  obtain s b where x: "x = (s, b)" by (cases x)
  then have "map_of table s = Some b" using assms(1) Cons.prems by simp
  then show ?case using Cons x by simp
qed simp

lemma bit_cap: "m < 64 \<Longrightarrow> bit (push_bit m 1 :: 64 word) n \<longleftrightarrow> n = m"
  by (auto simp: bit_simps)

lemma bit_fold_or:
  assumes "\<forall>(s, b) \<in> set sub. b < 64"
  shows "bit (fold (\<lambda>(s, b) acc. acc OR push_bit b 1) sub (acc :: 64 word)) n \<longleftrightarrow> bit acc n \<or> n \<in> snd ` set sub"
  using assms by (induction sub arbitrary: acc) (auto simp: bit_or_iff bit_cap simp del: push_bit_of_1)

lemma and_push_bit_1: "(c :: 64 word) AND push_bit i 1 \<noteq> 0 \<longleftrightarrow> bit c i"
  by (metis and_exp_eq_0_iff_not_bit push_bit_of_1)

lemma caps_round_trip:
  assumes "distinct (map fst table)" and "\<forall>n < k. n \<in> snd ` set table"
    and "\<forall>(s, b) \<in> set table. b < 64" and "take_bit k c = c"
  shows "load_caps table 0 (map snd (jchildren (save_caps table c))) = c"
proof -
  define sub where "sub = filter (\<lambda>(s, b). c AND push_bit b 1 \<noteq> 0) table"
  have l: "load_caps table 0 (map snd (jchildren (save_caps table c))) = fold (\<lambda>(s, b) acc. acc OR push_bit b 1) sub 0"
    using load_saved_caps [OF assms(1), of sub 0]
    by (auto simp: save_caps_def sub_def comp_def simp del: push_bit_of_1)
  have sub: "set sub = {x \<in> set table. bit c (snd x)}"
    unfolding sub_def and_push_bit_1 by auto
  have "bit c n \<Longrightarrow> n < k" for n using assms(4) by (metis bit_take_bit_iff)
  then have "n \<in> snd ` set sub \<longleftrightarrow> bit c n" for n using assms(2) by (auto simp: sub)
  moreover have "\<forall>(s, b) \<in> set sub. b < 64" using assms(3) by (auto simp: sub)
  ultimately have "fold (\<lambda>(s, b) acc. acc OR push_bit b 1) sub 0 = c"
    by (intro bit_word_eqI) (simp add: bit_fold_or del: push_bit_of_1)
  then show ?thesis using l by simp
qed

lemma caps_saved: "take_bit 11 c = c \<Longrightarrow> load_caps cap_table 0 (map snd (jchildren (save_caps cap_table c))) = c"
proof (rule caps_round_trip)
  show "\<forall>n < 11. n \<in> snd ` set cap_table" by (auto simp: cap_table_def) arith
qed (simp_all add: cap_table_def)

lemma ccaps_saved: "take_bit 1 c = c \<Longrightarrow> load_caps ccap_table 0 (map snd (jchildren (save_caps ccap_table c))) = c"
  by (rule caps_round_trip [where k = 1]) (simp_all add: ccap_table_def)

section \<open>Properties\<close>

text \<open>
  \<^bold>\<open>C27\<close>. Whatever document is loaded, when the load of a vBucket configuration succeeds its map is well
  formed: it is not empty, every row has its four slots, and every slot is zero, the value of a slot the
  document does not list, or below the number of nodes. So every key then maps without an access out of bounds
  or a division by zero to a vBucket of the map and to an index below the number of nodes. The one exception is
  a configuration without nodes, which the loader accepts: there the index can be zero, the index of no node.
\<close>

theorem lcbvb_load_json_ex_safe:
  assumes "lcbvb_load_json_ex strdup alloc stack cfg parsed text source network = Inr (0, cfg', network')"
    and "dtype cfg' = DIST_VBUCKET"
  shows "map_wf cfg' \<and>
    (\<exists>vb ix. lcbvb_map_key stack cfg' key = Inr (int vb, ix) \<and> vb < nvb cfg' \<and>
       (ix < int (nsrv cfg') \<or> nsrv cfg' = 0 \<and> ix = 0))"
proof -
  obtain cj cfg6 cfg7 where l: "load_distribution strdup alloc stack cfg6 cj text = Inr (cfg7, True)"
    "vbuckets cfg' = vbuckets cfg7" "nsrv cfg' = nsrv cfg7" "nvb cfg' = nvb cfg7" "dtype cfg' = dtype cfg7"
    using assms(1) by (auto simp: lcbvb_load_json_ex_def Let_def elim!: res_bind_InrE split: option.split_asm if_split_asm)
  then have "map_wf cfg7" using load_distribution_wf [OF l(1)] assms(2) by simp
  then have "map_wf cfg'" using l(2-) by (simp add: map_wf_def)
  then show ?thesis using map_wf_map_key assms(2) by blast
qed

definition sample_document :: cJSON where
  "sample_document =
     JObject [(''nodeLocator'', JString ''vbucket''),
       (''nodesExt'', JArray [JObject [(''services'', JObject [(''kv'', JNumber 11210)])]]),
       (''vBucketServerMap'', JObject [(''numReplicas'', JNumber 0), (''vBucketMap'', JArray [JArray [JNumber 0]])])]"

lemma sample_document_get:
  "get_jstr sample_document ''name'' = None" "get_jstr sample_document ''nodeLocator'' = Some ''vbucket''"
  "get_jstr sample_document ''uuid'' = None" "get_jarray sample_document ''nodes'' = None"
  "get_jint64 sample_document ''rev'' = None" "get_jint64 sample_document ''revEpoch'' = None"
  "get_jarray sample_document ''nodesExt'' = Some (JArray [JObject [(''services'', JObject [(''kv'', JNumber 11210)])]])"
  "get_jarray sample_document ''bucketCapabilities'' = None" "get_jobj sample_document ''clusterCapabilities'' = None"
  "cJSON_GetObjectItem sample_document ''buckets'' = None"
  "get_jobj sample_document ''vBucketServerMap'' =
     Some (JObject [(''numReplicas'', JNumber 0), (''vBucketMap'', JArray [JArray [JNumber 0]])])"
  by (simp_all add: sample_document_def jget_lookup c_tolower_literals jlookup_def [symmetric])

definition sample_nodeless :: cJSON where
  "sample_nodeless =
     JObject [(''nodeLocator'', JString ''vbucket''), (''nodesExt'', JArray []),
       (''vBucketServerMap'', JObject [(''numReplicas'', JNumber (- 1)), (''vBucketMap'', JArray [JArray []])])]"

lemma sample_nodeless_get:
  "get_jstr sample_nodeless ''name'' = None" "get_jstr sample_nodeless ''nodeLocator'' = Some ''vbucket''"
  "get_jstr sample_nodeless ''uuid'' = None" "get_jarray sample_nodeless ''nodes'' = None"
  "get_jint64 sample_nodeless ''rev'' = None" "get_jint64 sample_nodeless ''revEpoch'' = None"
  "get_jarray sample_nodeless ''nodesExt'' = Some (JArray [])"
  "get_jarray sample_nodeless ''bucketCapabilities'' = None" "get_jobj sample_nodeless ''clusterCapabilities'' = None"
  "cJSON_GetObjectItem sample_nodeless ''buckets'' = None"
  "get_jobj sample_nodeless ''vBucketServerMap'' =
     Some (JObject [(''numReplicas'', JNumber (- 1)), (''vBucketMap'', JArray [JArray []])])"
  by (simp_all add: sample_nodeless_def jget_lookup c_tolower_literals jlookup_def [symmetric])

lemmas load_sample =
  lcbvb_load_json_ex_def Let_def load_header_def load_capabilities_def
  cJSON_GetArraySize_def build_server_3x_def jget_lookup c_tolower_literals build_server_strings_def
  lcbvb_create_def extract_services_def service_port_lookup svc_key_def eventing_key_def no_server_def
  load_distribution_def parse_vbucket_def build_vbmap_def c_int_def mem_set_def get_juint_def load_ffmap_def
  assign_vbuckets_def set_vb_count_def mem_read_def c_unsigned_def count_row.simps arr_get_def mem_get_def uadd_def c_u16_def

theorem lcbvb_load_json_ex_safe_witness:
  "(\<exists>cfg' vb ix. lcbvb_load_json_ex Some (\<lambda>_. True) [] lcbvb_create (Some sample_document) [] [] None = Inr (0, cfg', None) \<and>
      map_wf cfg' \<and> lcbvb_map_key [] cfg' [] = Inr (int vb, ix) \<and> ix < int (nsrv cfg')) \<and>
   (\<exists>cfg'. lcbvb_load_json_ex Some (\<lambda>_. True) [] lcbvb_create (Some sample_nodeless) [] [] None = Inr (0, cfg', None) \<and>
      nsrv cfg' = 0 \<and> map_wf cfg' \<and> lcbvb_map_key [] cfg' [] = Inr (0, 0))"
proof -
  have "\<exists>cfg'. lcbvb_load_json_ex Some (\<lambda>_. True) [] lcbvb_create (Some sample_document) [] [] None = Inr (0, cfg', None) \<and>
      dtype cfg' = DIST_VBUCKET \<and> 0 < nsrv cfg'"
    by (simp add: load_sample sample_document_get)
  then obtain c1 where c1: "lcbvb_load_json_ex Some (\<lambda>_. True) [] lcbvb_create (Some sample_document) [] [] None = Inr (0, c1, None)"
    "dtype c1 = DIST_VBUCKET" "0 < nsrv c1" by (elim exE conjE)
  have zeros: "replicate 4 (0 :: int) = [0, 0, 0, 0]" by (simp add: eval_nat_numeral)
  have "\<exists>cfg'. lcbvb_load_json_ex Some (\<lambda>_. True) [] lcbvb_create (Some sample_nodeless) [] [] None = Inr (0, cfg', None) \<and>
      dtype cfg' = DIST_VBUCKET \<and> nsrv cfg' = 0 \<and> nvb cfg' = 1 \<and> vbuckets cfg' = Some [[0, 0, 0, 0]]"
    by (simp add: load_sample sample_nodeless_get zeros)
  then obtain c2 where c2: "lcbvb_load_json_ex Some (\<lambda>_. True) [] lcbvb_create (Some sample_nodeless) [] [] None = Inr (0, c2, None)"
    "dtype c2 = DIST_VBUCKET" "nsrv c2 = 0" "nvb c2 = 1" "vbuckets c2 = Some [[0, 0, 0, 0]]" by (elim exE conjE)
  have "lcbvb_map_key [] c2 [] = Inr (0, 0)"
    using c2(2-5) by (simp add: lcbvb_map_key_def lcbvb_k2vb_def lcbvb_vbmaster_def vb_slot_def arr_get_def mem_get_def)
  then show ?thesis
    using lcbvb_load_json_ex_safe [OF c1(1,2), of "[]"] lcbvb_load_json_ex_safe [OF c2(1,2), of "[]"] c1(1,3) c2(1,3) by auto
qed

definition saveable :: "CONFIG \<Rightarrow> bool" where
  "saveable cfg \<longleftrightarrow>
     dtype cfg = DIST_VBUCKET \<and> bname cfg \<noteq> None \<and> nsrv cfg = length (servers cfg) \<and> nsrv cfg < 2 ^ 31 \<and>
     list_all node_saveable (servers cfg) \<and> ndatasrv cfg = length (takeWhile (\<lambda>s. data (svc s) \<noteq> 0) (servers cfg)) \<and>
     nrepl cfg < 4 \<and> 0 < nvb cfg \<and> vbuckets cfg \<noteq> None \<and> length (the (vbuckets cfg)) = nvb cfg \<and>
     list_all (row_saveable (nsrv cfg) (nrepl cfg + 1)) (the (vbuckets cfg)) \<and>
     - 1 \<le> revepoch cfg \<and> - 1 \<le> revid cfg \<and> take_bit 11 (caps cfg) = caps cfg \<and> take_bit 1 (ccaps cfg) = ccaps cfg"

lemma same_node_data_prefix:
  "list_all2 same_node as bs \<Longrightarrow>
   length (takeWhile (\<lambda>s. data (svc s) \<noteq> 0) bs) = length (takeWhile (\<lambda>s. data (svc s) \<noteq> 0) as)"
  by (induction rule: list_all2_induct) (auto simp: same_node_def dest: ports_only_data)

lemma same_node_count:
  assumes "list_all2 same_node as bs" and "list_all2 same_but_count bs cs"
  shows "list_all2 same_node as cs"
proof (rule list_all2_trans [OF _ assms])
  fix a b c assume "same_node a b" "same_but_count b c"
  moreover from this(2) have "hostname c = hostname b" "svc c = svc b" "svc_ssl c = svc_ssl b"
    by (metis same_but_count_def SERVER.select_convs SERVER.surjective SERVER.update_convs(10))+
  ultimately show "same_node a c" by (simp add: same_node_def)
qed

lemma parse_saved_map:
  assumes "saveable cfg"
  obtains ms rows' where "vbmap_to_json cfg = Inr (JObject ms)"
    and "map (take (nrepl cfg + 1)) rows' = map (take (nrepl cfg + 1)) (the (vbuckets cfg))" and "length rows' = nvb cfg"
    and "\<And>cfg0 cj. get_jobj cj ''vBucketServerMap'' = Some (JObject ms) \<Longrightarrow> is3x cfg0 \<Longrightarrow> ffvbuckets cfg0 = None \<Longrightarrow>
      nsrv cfg0 = nsrv cfg \<Longrightarrow> length (servers cfg0) = nsrv cfg \<Longrightarrow>
      \<exists>srvs'. list_all2 same_but_count (servers cfg0) srvs' \<and>
        parse_vbucket Some (\<lambda>_. True) cfg0 cj =
        Inr (cfg0\<lparr>nrepl := nrepl cfg, vbuckets := Some rows', nvb := nvb cfg, servers := srvs'\<rparr>, True)"
proof -
  define rows limit where "rows = the (vbuckets cfg)" and "limit = nrepl cfg + 1"
  have r: "vbuckets cfg = Some rows" "length rows = nvb cfg" "0 < nvb cfg" "limit \<le> 4" "nsrv cfg < 2 ^ 31"
    "\<forall>row \<in> set rows. row_saveable (nsrv cfg) limit row" "uadd 32 (nrepl cfg) 1 = limit"
    using assms by (auto simp: saveable_def rows_def limit_def list_all_iff uadd_def)
  obtain js rows' where js: "res_map (\<lambda>row. cJSON_CreateIntArray row limit) rows = Inr js" "length js = length rows"
    "build_rows (nsrv cfg) js = Inr (Inr rows')" "map (take limit) rows' = map (take limit) rows"
    "rows' = map (\<lambda>row. take limit row @ replicate (4 - limit) 0) rows"
    using build_saved_rows [OF r(5,6,4)] by blast
  define ms where "ms = [(''numReplicas'', JNumber (int (nrepl cfg))), (''vBucketMap'', JArray js)]"
  have vr: "vb_rows cfg = Inr rows" using r(1-3) by (simp add: vb_rows_def mem_read_def)
  have save: "vbmap_to_json cfg = Inr (JObject ms)"
    unfolding vbmap_to_json_def vr r(7) res_bind_simps js(1) ms_def ..
  have get: "get_juint (JObject ms) ''numReplicas'' = Some (nrepl cfg)" "get_jarray (JObject ms) ''vBucketMap'' = Some (JArray js)"
    "get_jarray (JObject ms) ''vBucketMapForward'' = None"
    using assms c_unsigned_id [of "nrepl cfg"]
    by (simp_all add: ms_def get_juint_def jget_lookup c_tolower_literals saveable_def)
  have len: "length rows' = nvb cfg" using js(5) r(2) by simp
  have "\<exists>srvs'. list_all2 same_but_count (servers cfg0) srvs' \<and>
      parse_vbucket Some (\<lambda>_. True) cfg0 cj =
      Inr (cfg0\<lparr>nrepl := nrepl cfg, vbuckets := Some rows', nvb := nvb cfg, servers := srvs'\<rparr>, True)"
    if a: "get_jobj cj ''vBucketServerMap'' = Some (JObject ms)" "is3x cfg0" "ffvbuckets cfg0 = None"
      "nsrv cfg0 = nsrv cfg" "length (servers cfg0) = nsrv cfg" for cfg0 cj
  proof -
    define ok where "ok = (\<lambda>ix. \<not> (ix < 0 \<or> c_unsigned ix > nsrv cfg))"
    have "\<forall>row \<in> set rows'. limit \<le> length row \<and> (\<forall>j < limit. ok (row ! j) \<longrightarrow> 0 \<le> row ! j \<and> nat (row ! j) < length (servers cfg0))"
    proof
      fix row' assume "row' \<in> set rows'"
      then obtain row where row: "row \<in> set rows" "row' = take limit row @ replicate (4 - limit) 0" using js(5) by auto
      have sv: "row_saveable (nsrv cfg) limit row" using r(6) row(1) by blast
      have "row' ! j \<in> set (take limit row)" if j: "j < limit" for j
      proof -
        have "length (take limit row) = limit" using sv r(4) by (simp add: row_saveable_def)
        then show ?thesis using j row(2) nth_mem [of j "take limit row"] by (simp add: nth_append)
      qed
      then show "limit \<le> length row' \<and> (\<forall>j < limit. ok (row' ! j) \<longrightarrow> 0 \<le> row' ! j \<and> nat (row' ! j) < length (servers cfg0))"
        using sv r(4) row(2) a(5) by (fastforce simp: row_saveable_def ok_def)
    qed
    then obtain srvs' where cr: "count_rows ok limit rows' (servers cfg0) = Inr srvs'" "list_all2 same_but_count (servers cfg0) srvs'"
      using count_rows_skip by blast
    have "parse_vbucket Some (\<lambda>_. True) cfg0 cj =
        Inr (cfg0\<lparr>nrepl := nrepl cfg, vbuckets := Some rows', nvb := nvb cfg, servers := srvs'\<rparr>, True)"
      using a(2-4) js(2,3) r(2,3,7) len cr(1)
      by (simp add: parse_vbucket_def a(1) get Let_def build_vbmap_def cJSON_GetArraySize_def load_ffmap_def
          assign_vbuckets_def set_vb_count_def mem_read_def ok_def comp_def)
    then show ?thesis using cr(2) by blast
  qed
  then show ?thesis using that save js(4) len unfolding rows_def limit_def by blast
qed

text \<open>The document a vBucket configuration is saved as, given its nodes and its map, and what loading reads of it.\<close>

definition saved_doc :: "string \<Rightarrow> CONFIG \<Rightarrow> cJSON list \<Rightarrow> (string \<times> cJSON) list \<Rightarrow> cJSON" where
  "saved_doc name cfg js ms = JObject (
         [(''nodeLocator'', JString ''vbucket'')] @
         (case buuid cfg of None \<Rightarrow> [] | Some u \<Rightarrow> [(''uuid'', JString u)]) @
         (if revepoch cfg > - 1 then [(''revEpoch'', JNumber (revepoch cfg))] else []) @
         (if revid cfg > - 1 then [(''rev'', JNumber (revid cfg))] else []) @
         [(''name'', JString name), (''nodesExt'', JArray js)] @
         [(''vBucketServerMap'', JObject ms)] @
         (if caps cfg \<noteq> 0 then [(''bucketCapabilities'', save_caps cap_table (caps cfg))] else []) @
         (if ccaps cfg \<noteq> 0
          then [(''clusterCapabilities'', JObject [(''n1ql'', save_caps ccap_table (ccaps cfg))])] else []))"

lemma saved_doc_get:
  "get_jarray (saved_doc name cfg js ms) ''nodes'' = None"
  "get_jarray (saved_doc name cfg js ms) ''nodesExt'' = Some (JArray js)"
  "get_jobj (saved_doc name cfg js ms) ''vBucketServerMap'' = Some (JObject ms)"
  "get_jarray (saved_doc name cfg js ms) ''bucketCapabilities'' =
     (if caps cfg \<noteq> 0 then Some (save_caps cap_table (caps cfg)) else None)"
  "get_jobj (saved_doc name cfg js ms) ''clusterCapabilities'' =
     (if ccaps cfg \<noteq> 0 then Some (JObject [(''n1ql'', save_caps ccap_table (ccaps cfg))]) else None)"
  "get_jarray (JObject [(''n1ql'', save_caps ccap_table (ccaps cfg))]) ''n1ql'' = Some (save_caps ccap_table (ccaps cfg))"
  by (simp_all add: saved_doc_def jget_lookup c_tolower_literals save_caps_def split: option.split)

lemma load_saved_header:
  assumes "saveable cfg"
  shows "load_header Some lcbvb_create (saved_doc name cfg js ms) = Inr (lcbvb_create\<lparr>bname := Some name,
    bname_len := length name, buuid := buuid cfg, revepoch := revepoch cfg, revid := revid cfg\<rparr>)"
  using assms by (cases "buuid cfg")
    (auto simp: load_header_def Let_def saved_doc_def jget_lookup jlookup_def [symmetric] c_tolower_literals saveable_def lcbvb_create_def)

lemma load_saved_capabilities:
  assumes "saveable cfg" and "caps cfg0 = 0" and "ccaps cfg0 = 0"
  shows "load_capabilities cfg0 (saved_doc name cfg js ms) = cfg0\<lparr>caps := caps cfg, ccaps := ccaps cfg\<rparr>"
proof -
  have "load_caps cap_table 0 (map snd (jchildren (save_caps cap_table (caps cfg)))) = caps cfg"
    "load_caps ccap_table 0 (map snd (jchildren (save_caps ccap_table (ccaps cfg)))) = ccaps cfg"
    using assms(1) by (auto simp: saveable_def intro!: caps_saved ccaps_saved)
  then show ?thesis unfolding load_capabilities_def saved_doc_get by (simp add: assms(2,3) saved_doc_get(6))
qed


definition sample_saved :: CONFIG where
  "sample_saved = lcbvb_create\<lparr>bname := Some ''b'', nsrv := 2, ndatasrv := 1, nrepl := 1, nvb := 1, revid := 7, caps := 5,
     servers := [sample_server ''a'' 11210, sample_server ''c'' 0], vbuckets := Some [[0, - 1, 0, 0]]\<rparr>"


section \<open>The placeholder host\<close>

lemma c_strlen_unterminated: "0 \<notin> set s \<Longrightarrow> c_strlen s = Inl OutOfBounds"
  by (induction s) auto

lemma c8_0_iff: "c8 c = 0 \<longleftrightarrow> c = CHR 0x00"
proof -
  define n where "n = (of_char c :: nat)"
  have n: "n < 256" unfolding n_def by (rule nat_of_char_less_256)
  have "c8 c = word_of_nat n" unfolding c8_def n_def by (rule of_nat_of_char [symmetric])
  then have "unat (c8 c) = n" using n by (simp add: unsigned_of_nat take_bit_eq_mod)
  then have "c8 c = 0 \<longleftrightarrow> of_char c = (of_char CHR 0x00 :: nat)"
    unfolding n_def unat_eq_0 [symmetric] by simp
  then show ?thesis unfolding of_char_eq_iff .
qed

lemma bracketed_unterminated: "c_string hoststr \<Longrightarrow> c_strlen (bracketed hoststr) = Inl OutOfBounds"
  by (rule c_strlen_unterminated) (auto simp: bracketed_def c8_0_iff c_string_def)

text \<open>
  What a replacement should do: \<open>put_host\<close> replaces the first placeholder of a string, and \<open>hosted\<close> those of
  all strings of a node.
\<close>

fun put_host :: "string \<Rightarrow> string \<Rightarrow> string" where
  "put_host h [] = []"
| "put_host h (c # s) = (if take 5 (c # s) = ''$HOST'' then h @ drop 5 (c # s) else c # put_host h s)"

definition has_placeholder :: "string option \<Rightarrow> bool" where
  "has_placeholder s = (case s of None \<Rightarrow> False | Some t \<Rightarrow> \<exists>before after. t = before @ ''$HOST'' @ after)"

definition services_placeholder :: "SERVICES \<Rightarrow> bool" where
  "services_placeholder s \<longleftrightarrow> has_placeholder (views_base s) \<or> (\<exists>h \<in> set (hoststrs s). has_placeholder h)"

definition hosted_services :: "string \<Rightarrow> SERVICES \<Rightarrow> SERVICES" where
  "hosted_services h s =
     s\<lparr>views_base := map_option (put_host h) (views_base s), hoststrs := map (map_option (put_host h)) (hoststrs s)\<rparr>"

definition hosted :: "string \<Rightarrow> SERVER \<Rightarrow> SERVER" where
  "hosted h srv =
     srv\<lparr>hostname := map_option (put_host h) (hostname srv), svc := hosted_services h (svc srv),
         svc_ssl := hosted_services h (svc_ssl srv),
         authority := map_option (put_host h) (hoststrs (svc srv) ! svctype_ix SVC_DATA)\<rparr>"

definition has_address :: "SERVER \<Rightarrow> bool" where
  "has_address srv \<longleftrightarrow> hoststrs (svc srv) \<noteq> [] \<and> hoststrs (svc srv) ! svctype_ix SVC_DATA \<noteq> None"

lemma c_strstr_host_Cons:
  "c_strstr (c # s) ''$HOST'' = (if take 5 (c # s) = ''$HOST'' then Some ([], c # s)
     else map_option (\<lambda>(before, match). (c # before, match)) (c_strstr s ''$HOST''))"
proof -
  have "length ''$HOST'' = 5" by simp
  then show ?thesis by (simp only: c_strstr.simps)
qed

lemma c_strstr_host:
  "(case c_strstr s ''$HOST'' of None \<Rightarrow> s | Some (before, match) \<Rightarrow> before @ h @ drop 5 match) = put_host h s"
proof (induction s)
  case (Cons c s)
  then show ?case unfolding c_strstr_host_Cons put_host.simps by (cases "c_strstr s ''$HOST''") auto
qed simp

lemma c_strstr_None_iff: "c_strstr s ''$HOST'' = None \<longleftrightarrow> \<not> has_placeholder (Some s)"
proof (induction s)
  case (Cons c s)
  have "(\<exists>b a. c # s = b @ ''$HOST'' @ a) \<longleftrightarrow> take 5 (c # s) = ''$HOST'' \<or> (\<exists>b a. s = b @ ''$HOST'' @ a)"
  proof
    assume "\<exists>b a. c # s = b @ ''$HOST'' @ a"
    then obtain b a where "c # s = b @ ''$HOST'' @ a" by blast
    then show "take 5 (c # s) = ''$HOST'' \<or> (\<exists>b a. s = b @ ''$HOST'' @ a)" by (cases b) auto
  next
    assume "take 5 (c # s) = ''$HOST'' \<or> (\<exists>b a. s = b @ ''$HOST'' @ a)"
    moreover have "c # s = [] @ take 5 (c # s) @ drop 5 (c # s)" by simp
    ultimately show "\<exists>b a. c # s = b @ ''$HOST'' @ a" by (metis append_Cons)
  qed
  then show ?case using Cons unfolding c_strstr_host_Cons has_placeholder_def option.case by simp
qed (simp add: has_placeholder_def)

lemma put_host_named: "\<not> has_placeholder h \<Longrightarrow> map_option (put_host r) h = h"
proof (cases h)
  case (Some s)
  moreover assume "\<not> has_placeholder h"
  ultimately show ?thesis using c_strstr_host [of s r] c_strstr_None_iff [of s] by simp
qed simp

lemma replace_hoststr_ok: "\<forall>n. alloc n \<Longrightarrow> replace_hoststr alloc orig (Inr r) = Inr (map_option (put_host r) orig)"
  using c_strstr_host [of "the orig" r] by (auto simp: replace_hoststr_def split: option.splits)

lemma replace_hoststr_unterminated:
  "replace_hoststr alloc orig (Inl e) = (if has_placeholder orig then Inl e else Inr orig)"
proof (cases orig)
  case (Some s)
  then show ?thesis using c_strstr_None_iff [of s] by (cases "c_strstr s ''$HOST''") (auto simp: replace_hoststr_def)
qed (simp add: replace_hoststr_def has_placeholder_def)

lemma res_map_total: "(\<And>x. x \<in> set xs \<Longrightarrow> f x = Inr (g x)) \<Longrightarrow> res_map f xs = Inr (map g xs)"
  by (induction xs) auto

lemma res_map_first_fault:
  "\<exists>x \<in> set xs. P x \<Longrightarrow> \<forall>x \<in> set xs. f x = (if P x then Inl e else Inr (g x)) \<Longrightarrow> res_map f xs = Inl e"
proof (induction xs)
  case (Cons x xs)
  then show ?case by (cases "P x") auto
qed simp

lemma replace_services_ok: "\<forall>n. alloc n \<Longrightarrow> replace_services alloc (Inr r) s = Inr (hosted_services r s)"
  by (simp add: replace_services_def replace_hoststr_ok res_map_total hosted_services_def)

lemma hosted_services_named: "\<not> services_placeholder s \<Longrightarrow> hosted_services r s = s"
  unfolding services_placeholder_def hosted_services_def by (simp add: put_host_named map_idI)

lemma replace_services_unterminated:
  "replace_services alloc (Inl e) s = (if services_placeholder s then Inl e else Inr s)"
proof (cases "\<exists>h \<in> set (hoststrs s). has_placeholder h")
  case True
  then show ?thesis
    using res_map_first_fault [of "hoststrs s" has_placeholder "\<lambda>h. replace_hoststr alloc h (Inl e)" e id]
    by (auto simp: replace_services_def replace_hoststr_unterminated services_placeholder_def)
next
  case False
  then have "res_map (\<lambda>h. replace_hoststr alloc h (Inl e)) (hoststrs s) = Inr (hoststrs s)"
    using res_map_total [of "hoststrs s" "\<lambda>h. replace_hoststr alloc h (Inl e)" id] by (simp add: replace_hoststr_unterminated)
  then show ?thesis using False
    by (simp add: replace_services_def replace_hoststr_unterminated services_placeholder_def)
qed

definition uses_placeholder :: "SERVER \<Rightarrow> bool" where
  "uses_placeholder srv \<longleftrightarrow> services_placeholder (svc srv) \<or> services_placeholder (svc_ssl srv)"

lemma replace_server_ok:
  assumes "\<forall>s. strdup s = Some s" and "\<forall>n. alloc n" and "has_address srv"
  shows "replace_server strdup alloc h (Inr h) srv = Inr (hosted h srv)"
proof -
  obtain s where "hoststrs (svc srv) ! 0 = Some s" "hoststrs (svc srv) \<noteq> []" using assms(3) by (auto simp: has_address_def)
  then have "mem_get (hoststrs (hosted_services h (svc srv))) 0 = Inr (Some (put_host h s))"
    by (simp add: mem_get_def hosted_services_def)
  then show ?thesis using assms(1) \<open>hoststrs (svc srv) ! 0 = Some s\<close>
    by (simp add: replace_server_def replace_hoststr_ok [OF assms(2)] replace_services_ok [OF assms(2)] hosted_def)
qed

lemma replace_server_unterminated:
  assumes "\<forall>s. strdup s = Some s" and "\<forall>n. alloc n" and "has_address srv"
  shows "replace_server strdup alloc h (Inl e) srv = (if uses_placeholder srv then Inl e else Inr (hosted h srv))"
proof -
  obtain s where s: "hoststrs (svc srv) ! 0 = Some s" "hoststrs (svc srv) \<noteq> []" using assms(3) by (auto simp: has_address_def)
  then have m: "mem_get (hoststrs (svc srv)) 0 = Inr (Some s)" by (simp add: mem_get_def)
  have "\<not> has_placeholder (Some s)" if "\<not> services_placeholder (svc srv)"
    using that s unfolding services_placeholder_def by (metis length_greater_0_conv nth_mem)
  then show ?thesis using assms(1) s(1) m put_host_named [of "Some s" h]
    by (auto simp: replace_server_def replace_hoststr_ok [OF assms(2)] replace_services_unterminated hosted_def
        uses_placeholder_def hosted_services_named)
qed

definition awaits_host :: "SERVER \<Rightarrow> bool" where
  "awaits_host srv \<longleftrightarrow> hostname srv = Some ''$HOST'' \<and> (\<exists>port. hoststrs (svc srv) ! svctype_ix SVC_DATA = Some (''$HOST:'' @ port))"

definition named :: "SERVER \<Rightarrow> bool" where
  "named srv \<longleftrightarrow> \<not> has_placeholder (hostname srv) \<and> \<not> uses_placeholder srv \<and>
     authority srv = hoststrs (svc srv) ! svctype_ix SVC_DATA"

lemma hosted_awaits:
  "awaits_host srv \<Longrightarrow> hostname (hosted h srv) = Some h \<and>
     authority (hosted h srv) = Some (h @ drop 5 (the (hoststrs (svc srv) ! svctype_ix SVC_DATA)))"
  by (auto simp: awaits_host_def hosted_def)

lemma hosted_named:
  assumes "named srv" and "has_address srv"
  shows "hosted h srv = srv"
proof -
  have "\<not> has_placeholder (hoststrs (svc srv) ! 0)"
    using assms nth_mem [of 0 "hoststrs (svc srv)"] by (auto simp: named_def uses_placeholder_def services_placeholder_def has_address_def)
  then have "map_option (put_host h) (hoststrs (svc srv) ! 0) = authority srv"
    using assms(1) by (simp add: named_def put_host_named)
  then show ?thesis using assms(1) by (simp add: hosted_def named_def uses_placeholder_def put_host_named hosted_services_named)
qed

lemma c_strchr_iff: "c_strchr s c \<noteq> None \<longleftrightarrow> c \<in> set s"
  unfolding c_strchr_def by (induction s) auto


definition sample_mixed :: CONFIG where
  "sample_mixed = lcbvb_create\<lparr>nsrv := 2, servers :=
     [no_server\<lparr>hostname := Some ''a'', authority := Some ''a:1'', svc := no_services\<lparr>hoststrs := [Some ''a:1'']\<rparr>\<rparr>,
      no_server\<lparr>hostname := Some ''$HOST'', svc := no_services\<lparr>hoststrs := [Some ''$HOST:11210'']\<rparr>\<rparr>]\<rparr>"


end
