(* ===== verification/Netbuf_Pool.thy ===== *)
theory Netbuf_Pool
  imports Prelude "HOL-Library.Multiset"
begin

text \<open>
  The block allocator of \<open>src/netbuf/netbuf.c\<close> (\<open>nb_MBPOOL\<close>, \<open>nb_MBLOCK\<close>): spans are reserved in order from
  the storage of a block, which is used as a ring, and given back in any order. A block is named by its
  address; the two lists of a pool are lists of block addresses, whose linked representation is the subject
  of \<open>Sllist\<close>. The elements of a dealloc queue are kept in the list \<open>q_pending\<close>. Their storage comes from a
  pool of the same kind inside the queue (\<open>qpool\<close>), whose blocks have dealloc queues of their own, and so on;
  that inner pool is not represented, only the outcome of each call into it. The allocator of the C library
  and these outcomes are an argument (\<open>mb_env\<close>).
\<close>

section \<open>Types\<close>

type_synonym nb_QDEALLOC = "nat \<times> nat"

record nb_DEALLOC_QUEUE =
  q_pending :: "nb_QDEALLOC list"
  q_min_offset :: nat

record nb_MBLOCK =
  mb_start :: nat
  mb_wrap :: nat
  mb_cursor :: nat
  mb_nalloc :: nat
  mb_root :: nat
  mb_deallocs :: "nb_DEALLOC_QUEUE option"
  mb_parent :: bool

record nb_MBPOOL =
  mp_blocks :: "nat \<Rightarrow> nb_MBLOCK option"
  mp_active :: "nat list"
  mp_avail :: "nat list"
  mp_basealloc :: nat
  mp_maxblocks :: nat
  mp_curblocks :: nat
  mp_cacheblocks :: "nat list"
  mp_ncacheblocks :: nat

record nb_SPAN =
  sp_parent :: nat
  sp_offset :: nat
  sp_size :: nat

text \<open>
  The calls into the pool of a dealloc queue: creating the queue and its pool, reserving an element, and
  releasing one.
\<close>

datatype queue_op = QInit | QReserve | QRelease nb_QDEALLOC

text \<open>
  The environment: \<open>calloc\<close> of a block header, \<open>malloc\<close> of the storage of a block (its address), and the fault
  that a call into the pool of the dealloc queue of a block ends with, if it does. Such a call fails when
  memory is short: \<open>calloc\<close> of the queue and of its cached headers is not checked, and the reservation of an
  element is asserted to succeed.
\<close>

record mb_env =
  env_block :: "nb_MBPOOL \<Rightarrow> nat option"
  env_root :: "nb_MBPOOL \<Rightarrow> nat \<Rightarrow> nat option"
  env_queue :: "nb_MBPOOL \<Rightarrow> nat \<Rightarrow> queue_op \<Rightarrow> fault option"

definition mblock_zero :: nb_MBLOCK where
  "mblock_zero = \<lparr>mb_start = 0, mb_wrap = 0, mb_cursor = 0, mb_nalloc = 0, mb_root = 0, mb_deallocs = None, mb_parent = False\<rparr>"

definition mb_deref :: "nb_MBPOOL \<Rightarrow> nat \<Rightarrow> nb_MBLOCK res" where
  "mb_deref pool a = (case mp_blocks pool a of None \<Rightarrow> Inl NullPointer | Some b \<Rightarrow> Inr b)"

definition mb_store :: "nb_MBPOOL \<Rightarrow> nat \<Rightarrow> nb_MBLOCK \<Rightarrow> nb_MBPOOL" where
  "mb_store pool a b = pool\<lparr>mp_blocks := (mp_blocks pool)(a := Some b)\<rparr>"

definition BLOCK_IS_EMPTY :: "nb_MBLOCK \<Rightarrow> bool" where
  "BLOCK_IS_EMPTY b \<longleftrightarrow> mb_start b = mb_cursor b"

definition BLOCK_HAS_DEALLOCS :: "nb_MBLOCK \<Rightarrow> bool" where
  "BLOCK_HAS_DEALLOCS b \<longleftrightarrow> (case mb_deallocs b of None \<Rightarrow> False | Some q \<Rightarrow> q_pending q = [])"

section \<open>Reservation\<close>

definition mblock_is_standalone :: "nb_MBLOCK \<Rightarrow> bool" where
  "mblock_is_standalone b \<longleftrightarrow> \<not> mb_parent b"

text \<open>The doubling loop; \<open>None\<close> is a run that never leaves it.\<close>

partial_function (option) mb_grow :: "nat \<Rightarrow> nat \<Rightarrow> nat option" where
  "mb_grow nalloc capacity = (if nalloc < capacity then mb_grow (umul 32 nalloc 2) capacity else Some nalloc)"

definition free_cacheblock :: "nb_MBPOOL \<Rightarrow> nat option" where
  "free_cacheblock pool =
     find (\<lambda>a. case mp_blocks pool a of None \<Rightarrow> False | Some b \<Rightarrow> mb_nalloc b = 0) (mp_cacheblocks pool)"

definition alloc_new_block :: "mb_env \<Rightarrow> nb_MBPOOL \<Rightarrow> nat \<Rightarrow> (nb_MBPOOL \<times> nat option) res" where
  "alloc_new_block env pool capacity =
     (case (case free_cacheblock pool of
              Some a \<Rightarrow> Some (a, the (mp_blocks pool a))
            | None \<Rightarrow> map_option (\<lambda>a. (a, mblock_zero)) (env_block env pool)) of
        None \<Rightarrow> Inr (pool, None)
      | Some (a, b) \<Rightarrow>
          (case mb_grow (mp_basealloc pool) capacity of
             None \<Rightarrow> Inl Nontermination
           | Some n \<Rightarrow>
               (case env_root env pool n of
                  None \<Rightarrow>
                    Inr (if mblock_is_standalone b then pool
                         else mb_store pool a (b\<lparr>mb_nalloc := n, mb_wrap := 0, mb_cursor := 0, mb_root := 0\<rparr>), None)
                | Some root \<Rightarrow>
                    Inr (mb_store pool a (b\<lparr>mb_nalloc := n, mb_wrap := 0, mb_cursor := 0, mb_root := root\<rparr>), Some a))))"

fun find_fit :: "nb_MBPOOL \<Rightarrow> nat \<Rightarrow> nat list \<Rightarrow> (nat \<times> nat list) option res" where
  "find_fit pool capacity [] = Inr None"
| "find_fit pool capacity (a # as) =
     res_bind (mb_deref pool a) (\<lambda>cur.
       if capacity \<le> mb_nalloc cur then Inr (Some (a, as))
       else res_bind (find_fit pool capacity as) (\<lambda>r. Inr (map_option (\<lambda>(x, rest). (x, a # rest)) r)))"

definition find_free_block :: "nb_MBPOOL \<Rightarrow> nat \<Rightarrow> (nb_MBPOOL \<times> nat option) res" where
  "find_free_block pool capacity =
     res_bind (find_fit pool capacity (mp_avail pool)) (\<lambda>r.
       Inr (case r of
              None \<Rightarrow> (pool, None)
            | Some (a, rest) \<Rightarrow> (pool\<lparr>mp_avail := rest, mp_curblocks := usub 32 (mp_curblocks pool) 1\<rparr>, Some a)))"

definition reserve_empty_block :: "mb_env \<Rightarrow> nb_MBPOOL \<Rightarrow> nat \<Rightarrow> (nb_MBPOOL \<times> nb_SPAN option) res" where
  "reserve_empty_block env pool sz =
     res_bind (find_free_block pool sz) (\<lambda>(pool1, found).
     res_bind (case found of Some a \<Rightarrow> Inr (pool1, Some a) | None \<Rightarrow> alloc_new_block env pool1 sz) (\<lambda>(pool2, block).
       case block of
         None \<Rightarrow> Inr (pool2, None)
       | Some a \<Rightarrow>
           res_bind (mb_deref pool2 a) (\<lambda>b.
             Inr ((mb_store pool2 a (b\<lparr>mb_start := 0, mb_wrap := sz, mb_cursor := sz, mb_deallocs := None\<rparr>))
                    \<lparr>mp_active := mp_active pool2 @ [a]\<rparr>,
                  Some \<lparr>sp_parent = a, sp_offset = 0, sp_size = sz\<rparr>))))"

definition reserve_active_block :: "nb_MBLOCK \<Rightarrow> nat \<Rightarrow> (nb_MBLOCK \<times> nat) option" where
  "reserve_active_block b sz =
     (if BLOCK_HAS_DEALLOCS b then None
      else if mb_start b < mb_cursor b then
        if sz \<le> usub 32 (mb_nalloc b) (mb_cursor b) then
          Some (b\<lparr>mb_cursor := uadd 32 (mb_cursor b) sz, mb_wrap := uadd 32 (mb_cursor b) sz\<rparr>, mb_cursor b)
        else if sz \<le> mb_start b then Some (b\<lparr>mb_cursor := sz\<rparr>, 0)
        else None
      else if sz \<le> usub 32 (mb_start b) (mb_cursor b) then
        Some (b\<lparr>mb_cursor := uadd 32 (mb_cursor b) sz\<rparr>, mb_cursor b)
      else None)"

definition mblock_reserve_data :: "mb_env \<Rightarrow> nb_MBPOOL \<Rightarrow> nat \<Rightarrow> (nb_MBPOOL \<times> nb_SPAN option) res" where
  "mblock_reserve_data env pool sz =
     (if mp_active pool = [] then reserve_empty_block env pool sz
      else
        let a = last (mp_active pool) in
        res_bind (mb_deref pool a) (\<lambda>block.
          case reserve_active_block block sz of
            None \<Rightarrow> reserve_empty_block env pool sz
          | Some (b, offset) \<Rightarrow>
              Inr (mb_store pool a b, Some \<lparr>sp_parent = a, sp_offset = offset, sp_size = sz\<rparr>)))"

section \<open>Out-of-order deallocation\<close>

definition qpool_call :: "mb_env \<Rightarrow> nb_MBPOOL \<Rightarrow> nat \<Rightarrow> queue_op \<Rightarrow> unit res" where
  "qpool_call env pool a op = (case env_queue env pool a op of None \<Rightarrow> Inr () | Some f \<Rightarrow> Inl f)"

definition queue_span :: "nb_MBLOCK \<Rightarrow> nb_DEALLOC_QUEUE \<Rightarrow> nat \<Rightarrow> nat \<Rightarrow> nb_MBLOCK" where
  "queue_span b queue offset sz =
     (let min0 = (if q_pending queue = [] then offset else q_min_offset queue);
          min1 = (if offset < min0 then offset else min0) in
      b\<lparr>mb_deallocs := Some \<lparr>q_pending = q_pending queue @ [(offset, sz)], q_min_offset = min1\<rparr>\<rparr>)"

definition ooo_queue_dealoc :: "mb_env \<Rightarrow> nb_MBPOOL \<Rightarrow> nat \<Rightarrow> nb_MBLOCK \<Rightarrow> nat \<Rightarrow> nat \<Rightarrow> nb_MBLOCK res" where
  "ooo_queue_dealoc env pool a b offset sz =
     res_bind (case mb_deallocs b of
                 None \<Rightarrow> res_bind (qpool_call env pool a QInit) (\<lambda>_. Inr \<lparr>q_pending = [], q_min_offset = 0\<rparr>)
               | Some q \<Rightarrow> Inr q) (\<lambda>queue.
     res_bind (qpool_call env pool a QReserve) (\<lambda>_. Inr (queue_span b queue offset sz)))"

definition maybe_unwrap_block :: "nb_MBLOCK \<Rightarrow> nb_MBLOCK" where
  "maybe_unwrap_block b =
     (if \<not> BLOCK_IS_EMPTY b \<and> mb_start b = mb_wrap b then b\<lparr>mb_wrap := mb_cursor b, mb_start := 0\<rparr> else b)"

text \<open>
  The loop over the queue: the block, the elements that stay in the queue, and the least offset seen. An
  element that leaves the queue is given back to its pool.
\<close>

fun apply_pending ::
  "mb_env \<Rightarrow> nb_MBPOOL \<Rightarrow> nat \<Rightarrow> nb_MBLOCK \<Rightarrow> nb_QDEALLOC list \<Rightarrow> nat \<Rightarrow> (nb_MBLOCK \<times> nb_QDEALLOC list \<times> nat) res" where
  "apply_pending env pool a b [] min_next = Inr (b, [], min_next)"
| "apply_pending env pool a b ((offset, sz) # qs) min_next =
     (if offset = mb_start b then
        res_bind (qpool_call env pool a (QRelease (offset, sz))) (\<lambda>_.
          apply_pending env pool a (maybe_unwrap_block (b\<lparr>mb_start := uadd 32 (mb_start b) sz\<rparr>)) qs min_next)
      else
        res_bind (apply_pending env pool a b qs (if offset < min_next then offset else min_next)) (\<lambda>(b', rest, m).
          Inr (b', (offset, sz) # rest, m)))"

definition ooo_apply_dealloc :: "mb_env \<Rightarrow> nb_MBPOOL \<Rightarrow> nat \<Rightarrow> nb_MBLOCK \<Rightarrow> nb_DEALLOC_QUEUE \<Rightarrow> nb_MBLOCK res" where
  "ooo_apply_dealloc env pool a b queue =
     res_bind (apply_pending env pool a b (q_pending queue) (2 ^ 32 - 1)) (\<lambda>(b', rest, m).
       Inr (b'\<lparr>mb_deallocs := Some \<lparr>q_pending = rest, q_min_offset = m\<rparr>\<rparr>))"

section \<open>Release\<close>

text \<open>Wiping a block gives the elements that are still queued back to their pool.\<close>

fun wipe_pending :: "mb_env \<Rightarrow> nb_MBPOOL \<Rightarrow> nat \<Rightarrow> nb_QDEALLOC list \<Rightarrow> unit res" where
  "wipe_pending env pool a [] = Inr ()"
| "wipe_pending env pool a (q # qs) =
     res_bind (qpool_call env pool a (QRelease q)) (\<lambda>_. wipe_pending env pool a qs)"

definition mblock_wipe_block :: "mb_env \<Rightarrow> nb_MBPOOL \<Rightarrow> nat \<Rightarrow> nb_MBPOOL res" where
  "mblock_wipe_block env pool a =
     res_bind (mb_deref pool a) (\<lambda>b.
     res_bind (case mb_deallocs b of None \<Rightarrow> Inr () | Some q \<Rightarrow> wipe_pending env pool a (q_pending q)) (\<lambda>_.
       Inr (if mblock_is_standalone b then pool\<lparr>mp_blocks := (mp_blocks pool)(a := None)\<rparr>
            else mb_store pool a (b\<lparr>mb_deallocs := None\<rparr>))))"

definition release_front :: "mb_env \<Rightarrow> nb_MBPOOL \<Rightarrow> nat \<Rightarrow> nb_MBLOCK \<Rightarrow> nat \<Rightarrow> nb_MBLOCK res" where
  "release_front env pool a b sz =
     (let b1 = b\<lparr>mb_start := uadd 32 (mb_start b) sz\<rparr> in
      res_bind (case mb_deallocs b1 of
                  None \<Rightarrow> Inr b1
                | Some q \<Rightarrow> if q_min_offset q = mb_start b1 then ooo_apply_dealloc env pool a b1 q else Inr b1) (\<lambda>b2.
        Inr (maybe_unwrap_block b2)))"

definition release_end :: "nb_MBLOCK \<Rightarrow> nat \<Rightarrow> nb_MBLOCK" where
  "release_end b sz =
     (if mb_cursor b = mb_wrap b then
        b\<lparr>mb_cursor := usub 32 (mb_cursor b) sz, mb_wrap := usub 32 (mb_wrap b) sz\<rparr>
      else
        let c = usub 32 (mb_cursor b) sz in
        b\<lparr>mb_cursor := (if c = 0 then mb_wrap b else c)\<rparr>)"

definition retire_block :: "mb_env \<Rightarrow> nb_MBPOOL \<Rightarrow> nat \<Rightarrow> nb_MBPOOL res" where
  "retire_block env pool a =
     (let pool1 = pool\<lparr>mp_active := remove1 a (mp_active pool)\<rparr> in
      if mp_curblocks pool1 < mp_maxblocks pool1 then
        Inr (pool1\<lparr>mp_avail := mp_avail pool1 @ [a], mp_curblocks := uadd 32 (mp_curblocks pool1) 1\<rparr>)
      else mblock_wipe_block env pool1 a)"

definition mblock_release_data :: "mb_env \<Rightarrow> nb_MBPOOL \<Rightarrow> nat \<Rightarrow> nat \<Rightarrow> nat \<Rightarrow> nb_MBPOOL res" where
  "mblock_release_data env pool a sz offset =
     res_bind (mb_deref pool a) (\<lambda>b.
       if offset \<noteq> mb_start b \<and> uadd 32 offset sz \<noteq> mb_cursor b then
         res_bind (ooo_queue_dealoc env pool a b offset sz) (\<lambda>b'. Inr (mb_store pool a b'))
       else
         res_bind (if offset = mb_start b then release_front env pool a b sz else Inr (release_end b sz)) (\<lambda>b'.
           let pool' = mb_store pool a b' in
           if \<not> BLOCK_IS_EMPTY b' then Inr pool' else retire_block env pool' a))"

text \<open>The search for the block whose storage contains a pointer.\<close>

fun find_owner :: "nb_MBPOOL \<Rightarrow> nat \<Rightarrow> nat list \<Rightarrow> (nat \<times> nat) option res" where
  "find_owner pool ptr [] = Inr None"
| "find_owner pool ptr (a # as) =
     res_bind (mb_deref pool a) (\<lambda>b.
       if ptr < mb_root b \<or> mb_root b + mb_nalloc b \<le> ptr then find_owner pool ptr as
       else Inr (Some (a, ptr - mb_root b)))"

definition mblock_release_ptr :: "mb_env \<Rightarrow> nb_MBPOOL \<Rightarrow> nat \<Rightarrow> nat \<Rightarrow> nb_MBPOOL res" where
  "mblock_release_ptr env pool ptr sz =
     res_bind (find_owner pool ptr (mp_active pool)) (\<lambda>r.
       case r of
         None \<Rightarrow> Inl AssertFailed
       | Some (a, offset) \<Rightarrow> mblock_release_data env pool a sz offset)"

definition mblock_get_next_size :: "nb_MBPOOL \<Rightarrow> bool \<Rightarrow> nat res" where
  "mblock_get_next_size pool allow_wrap =
     (if mp_avail pool = [] then Inr 0
      else
        case mp_active pool of
          [] \<Rightarrow> Inl NullPointer
        | a # _ \<Rightarrow>
            res_bind (mb_deref pool a) (\<lambda>b.
              Inr (if BLOCK_HAS_DEALLOCS b then 0
                   else if mb_start b = 0 then usub 32 (mb_nalloc b) (mb_cursor b)
                   else if mb_cursor b \<noteq> mb_wrap b then usub 32 (mb_start b) (mb_cursor b)
                   else if allow_wrap then
                     (if usub 32 (mb_nalloc b) (mb_wrap b) < mb_start b then usub 32 (mb_nalloc b) (mb_wrap b)
                      else mb_start b)
                   else usub 32 (mb_nalloc b) (mb_wrap b))))"

section \<open>Pools\<close>

fun free_blocklist :: "mb_env \<Rightarrow> nb_MBPOOL \<Rightarrow> nat list \<Rightarrow> nb_MBPOOL res" where
  "free_blocklist env pool [] = Inr pool"
| "free_blocklist env pool (a # as) = res_bind (mblock_wipe_block env pool a) (\<lambda>pool1. free_blocklist env pool1 as)"

definition mblock_cleanup :: "mb_env \<Rightarrow> nb_MBPOOL \<Rightarrow> nb_MBPOOL res" where
  "mblock_cleanup env pool =
     res_bind (free_blocklist env (pool\<lparr>mp_active := []\<rparr>) (mp_active pool)) (\<lambda>pool1.
     res_bind (free_blocklist env (pool1\<lparr>mp_avail := []\<rparr>) (mp_avail pool1)) (\<lambda>pool2.
       Inr (pool2\<lparr>mp_blocks := (\<lambda>a. if a \<in> set (mp_cacheblocks pool2) then None else mp_blocks pool2 a)\<rparr>)))"

definition mblock_init :: "nat list \<Rightarrow> nb_MBPOOL \<Rightarrow> nb_MBPOOL" where
  "mblock_init cache pool =
     (let pool1 = pool\<lparr>mp_cacheblocks := cache,
                       mp_blocks := (\<lambda>a. if a \<in> set cache then Some (mblock_zero\<lparr>mb_parent := True\<rparr>) else mp_blocks pool a)\<rparr> in
      if mp_ncacheblocks pool1 \<noteq> 0 then pool1\<lparr>mp_maxblocks := umul 32 (mp_ncacheblocks pool1) 2\<rparr> else pool1)"

fun is_pool_clean :: "nb_MBPOOL \<Rightarrow> nat list \<Rightarrow> bool res" where
  "is_pool_clean pool [] = Inr True"
| "is_pool_clean pool (a # as) =
     res_bind (mb_deref pool a) (\<lambda>b.
     res_bind (is_pool_clean pool as) (\<lambda>ret.
       Inr (ret \<and> BLOCK_IS_EMPTY b \<and> (case mb_deallocs b of None \<Rightarrow> True | Some q \<Rightarrow> q_pending q = []))))"
section \<open>Layout of a block\<close>

text \<open>\<open>tiles lo hi xs\<close>: the spans of \<open>xs\<close> cover the storage from \<open>lo\<close> to \<open>hi\<close> one after the other.\<close>

fun tiles :: "nat \<Rightarrow> nat \<Rightarrow> (nat \<times> nat) list \<Rightarrow> bool" where
  "tiles lo hi [] \<longleftrightarrow> lo = hi"
| "tiles lo hi ((off, sz) # xs) \<longleftrightarrow> off = lo \<and> 0 < sz \<and> tiles (lo + sz) hi xs"

definition disjoint_spans :: "nat \<times> nat \<Rightarrow> nat \<times> nat \<Rightarrow> bool" where
  "disjoint_spans x y \<longleftrightarrow> fst x + snd x \<le> fst y \<or> fst y + snd y \<le> fst x"

definition pending :: "nb_MBLOCK \<Rightarrow> (nat \<times> nat) list" where
  "pending b = (case mb_deallocs b of None \<Rightarrow> [] | Some q \<Rightarrow> q_pending q)"

text \<open>
  \<open>layout b xs ys\<close>: the first segment of the block holds the spans \<open>xs\<close>, from \<open>start\<close> to \<open>wrap\<close>, and the second
  one, which exists after the cursor has wrapped around, holds \<open>ys\<close>.
\<close>

definition layout :: "nb_MBLOCK \<Rightarrow> (nat \<times> nat) list \<Rightarrow> (nat \<times> nat) list \<Rightarrow> bool" where
  "layout b xs ys \<longleftrightarrow>
     tiles (mb_start b) (mb_wrap b) xs \<and> mb_wrap b \<le> mb_nalloc b \<and> mb_nalloc b < 2 ^ 32 \<and>
     (if ys = [] then mb_cursor b = mb_wrap b else tiles 0 (mb_cursor b) ys \<and> mb_cursor b \<le> mb_start b)"

text \<open>The spans in use and those that wait in the dealloc queue are together the spans of the layout.\<close>

definition block_inv :: "nb_MBLOCK \<Rightarrow> (nat \<times> nat) multiset \<Rightarrow> bool" where
  "block_inv b live \<longleftrightarrow>
     (\<exists>xs ys. layout b xs ys \<and> xs \<noteq> [] \<and> mset (pending b) + live = mset xs + mset ys)"

definition same_storage :: "nb_MBLOCK \<Rightarrow> nb_MBLOCK \<Rightarrow> bool" where
  "same_storage b b' \<longleftrightarrow> mb_root b' = mb_root b \<and> mb_nalloc b' = mb_nalloc b \<and> mb_parent b' = mb_parent b"

lemma tiles_le: "tiles lo hi xs \<Longrightarrow> lo \<le> hi"
  by (induction lo hi xs rule: tiles.induct) auto

lemma tiles_mem: "tiles lo hi xs \<Longrightarrow> (off, sz) \<in> set xs \<Longrightarrow> lo \<le> off \<and> 0 < sz \<and> off + sz \<le> hi"
proof (induction lo hi xs rule: tiles.induct)
  case (2 lo hi o' s' xs)
  then show ?case using tiles_le [of "lo + s'" hi xs] by auto
qed simp

lemma tiles_less: "tiles lo hi xs \<Longrightarrow> xs \<noteq> [] \<Longrightarrow> lo < hi"
  by (cases xs) (use tiles_le in fastforce)+

lemma tiles_snoc: "tiles lo hi (xs @ [(off, sz)]) \<longleftrightarrow> tiles lo off xs \<and> 0 < sz \<and> hi = off + sz"
  by (induction lo hi xs rule: tiles.induct) auto

lemma tiles_first: "tiles lo hi xs \<Longrightarrow> (lo, sz) \<in> set xs \<Longrightarrow> \<exists>r. xs = (lo, sz) # r"
proof (induction lo hi xs rule: tiles.induct)
  case (2 lo hi o' s' xs)
  then show ?case using tiles_mem [of "lo + s'" hi xs lo sz] by auto
qed simp

lemma tiles_last: "tiles lo hi xs \<Longrightarrow> (off, sz) \<in> set xs \<Longrightarrow> off + sz = hi \<Longrightarrow> \<exists>r. xs = r @ [(off, sz)]"
proof (induction xs rule: rev_induct)
  case (snoc x xs)
  obtain o' s' where x: "x = (o', s')" by (cases x)
  have t: "tiles lo o' xs" "0 < s'" "hi = o' + s'" using snoc.prems(1) by (simp_all add: x tiles_snoc)
  show ?case
  proof (cases "(off, sz) \<in> set xs")
    case True
    then have "off + sz \<le> o'" using tiles_mem [OF t(1)] by simp
    then show ?thesis using t snoc.prems(3) by simp
  qed (use snoc.prems(2) in simp)
qed simp

lemma tiles_sorted: "tiles lo hi xs \<Longrightarrow> sorted_wrt disjoint_spans xs"
proof (induction lo hi xs rule: tiles.induct)
  case (2 lo hi off sz xs)
  then show ?case using tiles_mem [of "lo + sz" hi xs] by (force simp: disjoint_spans_def)
qed simp

lemma layout_sorted: "layout b xs ys \<Longrightarrow> sorted_wrt disjoint_spans (xs @ ys)"
proof -
  assume l: "layout b xs ys"
  have "disjoint_spans x y" if x: "x \<in> set xs" and y: "y \<in> set ys" for x y
  proof -
    have t: "tiles (mb_start b) (mb_wrap b) xs" "tiles 0 (mb_cursor b) ys" "mb_cursor b \<le> mb_start b"
      using l y by (auto simp: layout_def split: if_splits)
    have "mb_start b \<le> fst x" "fst y + snd y \<le> mb_cursor b"
      using tiles_mem [OF t(1), of "fst x" "snd x"] tiles_mem [OF t(2), of "fst y" "snd y"] x y by simp_all
    then show ?thesis using t(3) by (simp add: disjoint_spans_def)
  qed
  then show ?thesis
    using l by (auto simp: layout_def sorted_wrt_append tiles_sorted split: if_splits)
qed

lemma layout_mem:
  assumes "layout b xs ys" and "(off, sz) \<in> set xs \<union> set ys"
  shows "0 < sz \<and> off + sz \<le> mb_nalloc b"
proof -
  have t: "tiles (mb_start b) (mb_wrap b) xs" "mb_wrap b \<le> mb_nalloc b" using assms(1) by (auto simp: layout_def)
  show ?thesis
  proof (cases "(off, sz) \<in> set xs")
    case True
    then show ?thesis using tiles_mem [OF t(1)] t(2) by force
  next
    case False
    then have "tiles 0 (mb_cursor b) ys" "mb_cursor b \<le> mb_start b" "(off, sz) \<in> set ys"
      using assms by (auto simp: layout_def split: if_splits)
    then show ?thesis using tiles_mem [of 0 "mb_cursor b" ys off sz] tiles_le [OF t(1)] t(2) by simp
  qed
qed

lemma disjoint_spans_sym: "disjoint_spans x y \<longleftrightarrow> disjoint_spans y x"
  by (auto simp: disjoint_spans_def)

lemma sorted_wrt_two:
  assumes "sorted_wrt disjoint_spans zs" and "{#x, y#} \<subseteq># mset zs"
  shows "disjoint_spans x y"
proof -
  have "x \<in># mset zs" using assms(2) by (metis insert_subset_eq_iff mset_subset_eq_insertD union_single_eq_member set_mset_mono subsetD add_mset_add_single)
  then obtain as bs where zs: "zs = as @ x # bs" by (auto simp: in_multiset_in_set dest: split_list)
  then have "add_mset y {#} \<subseteq># mset (as @ bs)" using assms(2) by simp
  then have "y \<in> set (as @ bs)" by (metis in_multiset_in_set insert_subset_eq_iff)
  then show ?thesis using assms(1) disjoint_spans_sym [of x y] by (auto simp: zs sorted_wrt_append)
qed

section \<open>Operations on a block\<close>

lemma layout_single: "layout b xs ys \<Longrightarrow> xs \<noteq> [] \<Longrightarrow> mb_start b < mb_cursor b \<longleftrightarrow> ys = []"
  using tiles_less [of "mb_start b" "mb_wrap b" xs] by (auto simp: layout_def split: if_splits)

lemma same_storage_refl [simp]: "same_storage b b"
  by (simp add: same_storage_def)

lemma same_storage_trans: "same_storage a b \<Longrightarrow> same_storage b c \<Longrightarrow> same_storage a c"
  by (simp add: same_storage_def)

lemma block_invI:
  "layout b xs ys \<Longrightarrow> xs \<noteq> [] \<Longrightarrow> mset (pending b) + live = mset xs + mset ys \<Longrightarrow> block_inv b live"
  by (auto simp: block_inv_def)

lemma reserve_active_block_layout:
  assumes l: "layout b xs ys" "xs \<noteq> []" and sz: "0 < sz" "sz \<le> 2 ^ 31" and r: "reserve_active_block b sz = Some (b', off)"
  shows "\<exists>xs' ys'. layout b' xs' ys' \<and> xs' \<noteq> [] \<and> xs' @ ys' = xs @ ys @ [(off, sz)] \<and>
    mb_deallocs b' = mb_deallocs b \<and> same_storage b b'"
proof -
  have n: "mb_wrap b \<le> mb_nalloc b" "mb_nalloc b < 2 ^ 32" "mb_start b < mb_wrap b"
    using l(1) tiles_less [OF _ l(2)] by (auto simp: layout_def)
  show ?thesis
  proof (cases "mb_start b < mb_cursor b")
    case True
    then have ys: "ys = []" "mb_cursor b = mb_wrap b" using l(1) layout_single [OF l(1,2)] by (auto simp: layout_def)
    show ?thesis
    proof (cases "sz \<le> mb_nalloc b - mb_cursor b")
      case fit: True
      have b': "b' = b\<lparr>mb_cursor := mb_cursor b + sz, mb_wrap := mb_cursor b + sz\<rparr>" "off = mb_cursor b"
        using r True fit n ys(2) by (auto simp: reserve_active_block_def usub_nowrap uadd_nowrap split: if_splits)
      moreover from this have "layout b' (xs @ [(off, sz)]) []"
        using l(1) ys fit sz n by (auto simp: layout_def tiles_snoc)
      ultimately show ?thesis
        using ys(1) by (intro exI [of _ "xs @ [(off, sz)]"] exI [of _ "[]"]) (simp add: same_storage_def)
    next
      case False
      then have "sz \<le> mb_start b" "b' = b\<lparr>mb_cursor := sz\<rparr>" "off = 0"
        using r True n ys(2) by (auto simp: reserve_active_block_def usub_nowrap split: if_splits)
      moreover from this have "layout b' xs [(off, sz)]" using l(1) ys sz by (auto simp: layout_def)
      ultimately show ?thesis
        using l(2) ys(1) by (intro exI [of _ xs] exI [of _ "[(off, sz)]"]) (simp add: same_storage_def)
    qed
  next
    case False
    then have ys: "ys \<noteq> []" "tiles 0 (mb_cursor b) ys" "mb_cursor b \<le> mb_start b"
      using l(1) n(3) layout_single [OF l(1,2)] by (auto simp: layout_def split: if_splits)
    then have fit: "sz \<le> mb_start b - mb_cursor b" and b': "b' = b\<lparr>mb_cursor := mb_cursor b + sz\<rparr>" "off = mb_cursor b"
      using r False n by (auto simp: reserve_active_block_def usub_nowrap uadd_nowrap split: if_splits)
    have "layout b' xs (ys @ [(off, sz)])"
      using l(1) ys fit sz by (auto simp: layout_def b' tiles_snoc)
    then show ?thesis
      using l(2) b' by (intro exI [of _ xs] exI [of _ "ys @ [(off, sz)]"]) (simp add: same_storage_def)
  qed
qed

lemma reserve_active_block_inv:
  assumes inv: "block_inv b live" and sz: "0 < sz" "sz \<le> 2 ^ 31" and r: "reserve_active_block b sz = Some (b', off)"
  shows "block_inv b' (add_mset (off, sz) live) \<and> same_storage b b'"
proof -
  obtain xs ys where l: "layout b xs ys" "xs \<noteq> []" "mset (pending b) + live = mset xs + mset ys"
    using inv by (auto simp: block_inv_def)
  obtain xs' ys' where l': "layout b' xs' ys'" "xs' \<noteq> []" "xs' @ ys' = xs @ ys @ [(off, sz)]"
    "mb_deallocs b' = mb_deallocs b" "same_storage b b'"
    using reserve_active_block_layout [OF l(1,2) sz r] by blast
  have "mset xs' + mset ys' = add_mset (off, sz) (mset xs + mset ys)" using arg_cong [OF l'(3), of mset] by simp
  then show ?thesis using block_invI [OF l'(1,2)] l(3) l'(4,5) by (simp add: pending_def)
qed

text \<open>A block whose second segment does not touch the start of the first one.\<close>

definition slack :: "nb_MBLOCK \<Rightarrow> (nat \<times> nat) list \<Rightarrow> bool" where
  "slack b ys \<longleftrightarrow> (ys \<noteq> [] \<longrightarrow> mb_cursor b < mb_start b)"

lemma maybe_unwrap_layout:
  assumes l: "layout b xs ys" "slack b ys"
  shows "\<exists>xs' ys'. layout (maybe_unwrap_block b) xs' ys' \<and> slack (maybe_unwrap_block b) ys' \<and>
    xs' @ ys' = xs @ ys \<and> (xs' = [] \<longrightarrow> ys' = [])"
proof (cases "xs = [] \<and> ys \<noteq> []")
  case True
  then have e: "mb_start b = mb_wrap b" "mb_cursor b < mb_start b" "tiles 0 (mb_cursor b) ys" "mb_wrap b \<le> mb_nalloc b"
    "mb_nalloc b < 2 ^ 32" using l by (auto simp: layout_def slack_def)
  then have "maybe_unwrap_block b = b\<lparr>mb_wrap := mb_cursor b, mb_start := 0\<rparr>"
    by (simp add: maybe_unwrap_block_def BLOCK_IS_EMPTY_def)
  then have "layout (maybe_unwrap_block b) ys []" using e by (simp add: layout_def)
  then show ?thesis using True by (intro exI [of _ ys] exI [of _ "[]"]) (simp add: slack_def)
next
  case False
  have "maybe_unwrap_block b = b"
  proof (cases "xs = []")
    case True
    then show ?thesis using l False by (auto simp: maybe_unwrap_block_def BLOCK_IS_EMPTY_def layout_def)
  next
    case False
    then have "mb_start b < mb_wrap b" using l(1) tiles_less by (auto simp: layout_def)
    then show ?thesis by (simp add: maybe_unwrap_block_def)
  qed
  then show ?thesis using l False by (intro exI [of _ xs] exI [of _ ys]) auto
qed

lemma maybe_unwrap_same: "same_storage b (maybe_unwrap_block b)" "mb_deallocs (maybe_unwrap_block b) = mb_deallocs b"
  by (simp_all add: maybe_unwrap_block_def same_storage_def)

text \<open>Giving back the span at the start of the block.\<close>

lemma drop_front:
  assumes l: "layout b xs ys" and x: "(mb_start b, sz) \<in># mset xs + mset ys"
  shows "\<exists>xs'. xs = (mb_start b, sz) # xs' \<and> uadd 32 (mb_start b) sz = mb_start b + sz \<and>
    layout (b\<lparr>mb_start := mb_start b + sz\<rparr>) xs' ys \<and> slack (b\<lparr>mb_start := mb_start b + sz\<rparr>) ys"
proof -
  have t: "tiles (mb_start b) (mb_wrap b) xs" "mb_wrap b \<le> mb_nalloc b" "mb_nalloc b < 2 ^ 32"
    using l by (auto simp: layout_def)
  have "(mb_start b, sz) \<notin> set ys"
  proof
    assume "(mb_start b, sz) \<in> set ys"
    moreover from this have "tiles 0 (mb_cursor b) ys" "mb_cursor b \<le> mb_start b" using l by (auto simp: layout_def split: if_splits)
    ultimately show False using tiles_mem [of 0 "mb_cursor b" ys "mb_start b" sz] by simp
  qed
  then have "(mb_start b, sz) \<in> set xs" using x by simp
  then obtain xs' where xs: "xs = (mb_start b, sz) # xs'" using tiles_first [OF t(1)] by blast
  have t': "0 < sz" "tiles (mb_start b + sz) (mb_wrap b) xs'" using t(1) by (simp_all add: xs)
  have "mb_start b + sz < 2 ^ 32" using tiles_le [OF t'(2)] t(2,3) by linarith
  then show ?thesis
    using l t' by (intro exI [of _ xs']) (auto simp: xs uadd_nowrap layout_def slack_def split: if_splits)
qed

lemma apply_pending_layout:
  assumes "layout b xs ys" and "slack b ys" and "mset qs + M = mset xs + mset ys" and "xs = [] \<longrightarrow> ys = [] \<or> mb_start b = mb_wrap b"
    and "apply_pending env pool a b qs m = Inr (b', rest, m')"
  shows "\<exists>xs' ys'. layout b' xs' ys' \<and> slack b' ys' \<and> mset rest + M = mset xs' + mset ys' \<and>
    same_storage b b' \<and> mb_deallocs b' = mb_deallocs b"
  using assms
proof (induction env pool a b qs m arbitrary: xs ys M b' rest m' rule: apply_pending.induct)
  case (1 env pool a b m)
  then show ?case by auto
next
  case (2 env pool a b off sz qs m)
  show ?case
  proof (cases "off = mb_start b")
    case True
    let ?c = "b\<lparr>mb_start := mb_start b + sz\<rparr>"
    have "(mb_start b, sz) \<in># mset xs + mset ys" using 2(5) True by (metis mset.simps(2) union_mset_add_mset_left union_single_eq_member)
    from drop_front [OF 2(3) this] obtain xs1 where x1: "xs = (mb_start b, sz) # xs1" "uadd 32 (mb_start b) sz = mb_start b + sz"
      "layout ?c xs1 ys" "slack ?c ys" by blast
    obtain xs2 ys2 where x2: "layout (maybe_unwrap_block ?c) xs2 ys2" "slack (maybe_unwrap_block ?c) ys2"
      "mset xs2 + mset ys2 = mset xs1 + mset ys" "xs2 = [] \<longrightarrow> ys2 = []"
      using maybe_unwrap_layout [OF x1(3,4)] by (metis mset_append)
    have m2: "mset qs + M = mset xs2 + mset ys2" using 2(5) True x2(3) by (simp add: x1(1))
    have a2: "apply_pending env pool a (maybe_unwrap_block ?c) qs m = Inr (b', rest, m')"
      using 2(7) True x1(2) by (auto elim!: res_bind_InrE)
    have "\<exists>xs' ys'. layout b' xs' ys' \<and> slack b' ys' \<and> mset rest + M = mset xs' + mset ys' \<and>
        same_storage (maybe_unwrap_block ?c) b' \<and> mb_deallocs b' = mb_deallocs (maybe_unwrap_block ?c)"
      using 2(1) [OF True, unfolded x1(2), OF x2(1,2) m2 _ a2] x2(4) by blast
    moreover have "same_storage b (maybe_unwrap_block ?c)" "mb_deallocs (maybe_unwrap_block ?c) = mb_deallocs b"
      using maybe_unwrap_same [of ?c] by (simp_all add: same_storage_def)
    ultimately show ?thesis by (metis same_storage_trans)
  next
    case False
    obtain b1 rest1 m1 where r: "apply_pending env pool a b qs (if off < m then off else m) = Inr (b1, rest1, m1)"
      and e: "b' = b1" "rest = (off, sz) # rest1" using 2(7) False by (auto elim!: res_bind_InrE)
    have "mset qs + add_mset (off, sz) M = mset xs + mset ys" using 2(5) by simp
    from 2(2) [OF False 2(3,4) this 2(6) r] show ?thesis by (simp add: e)
  qed
qed

lemma pending_deallocs [simp]: "mb_deallocs b = None \<Longrightarrow> pending b = []" "mb_deallocs b = Some q \<Longrightarrow> pending b = q_pending q"
  by (simp_all add: pending_def)

lemma layout_deallocs [simp]: "layout (b\<lparr>mb_deallocs := d\<rparr>) xs ys = layout b xs ys" "slack (b\<lparr>mb_deallocs := d\<rparr>) ys = slack b ys"
  by (simp_all add: layout_def slack_def)

lemma layout_empty: "layout b xs ys \<Longrightarrow> slack b ys \<Longrightarrow> xs = [] \<longrightarrow> ys = [] \<Longrightarrow> BLOCK_IS_EMPTY b \<longleftrightarrow> xs = []"
  using tiles_less [of "mb_start b" "mb_wrap b" xs]
  by (cases "xs = []") (auto simp: layout_def slack_def BLOCK_IS_EMPTY_def split: if_splits)

lemma release_front_inv:
  assumes inv: "block_inv b live" and x: "(mb_start b, sz) \<in># live" and run: "release_front env pool a b sz = Inr b'"
  shows "same_storage b b' \<and>
    (if BLOCK_IS_EMPTY b' then live - {#(mb_start b, sz)#} = {#} \<and> pending b' = []
     else block_inv b' (live - {#(mb_start b, sz)#}))"
proof -
  obtain xs ys where l: "layout b xs ys" "mset (pending b) + live = mset xs + mset ys"
    using inv by (auto simp: block_inv_def)
  obtain live' where live: "live = add_mset (mb_start b, sz) live'" using x by (metis insert_DiffM)
  define b1 where "b1 = b\<lparr>mb_start := mb_start b + sz\<rparr>"
  have "(mb_start b, sz) \<in># mset xs + mset ys" by (simp add: l(2) [symmetric] live)
  from drop_front [OF l(1) this] obtain xs1 where x1: "xs = (mb_start b, sz) # xs1"
    "uadd 32 (mb_start b) sz = mb_start b + sz" "layout b1 xs1 ys" "slack b1 ys" by (auto simp: b1_def)
  have d1: "mb_deallocs b1 = mb_deallocs b" "same_storage b b1" by (simp_all add: b1_def same_storage_def)
  obtain b2 where b2: "(case mb_deallocs b1 of None \<Rightarrow> Inr b1
    | Some q \<Rightarrow> if q_min_offset q = mb_start b1 then ooo_apply_dealloc env pool a b1 q else Inr b1) = Inr b2"
    and b3: "b' = maybe_unwrap_block b2"
    using run unfolding release_front_def x1(2) b1_def [symmetric] Let_def by (auto elim!: res_bind_InrE)
  have m1: "mset (pending b1) + live' = mset xs1 + mset ys" using l(2) by (simp add: live x1(1) pending_def d1)
  have "\<exists>xs2 ys2. layout b2 xs2 ys2 \<and> slack b2 ys2 \<and> mset (pending b2) + live' = mset xs2 + mset ys2 \<and> same_storage b1 b2"
  proof (cases "\<exists>q. mb_deallocs b1 = Some q \<and> q_min_offset q = mb_start b1")
    case False
    then have "b2 = b1" using b2 by (auto split: option.splits if_splits)
    then show ?thesis using x1(3,4) m1 by auto
  next
    case True
    then obtain q where q: "mb_deallocs b1 = Some q" "q_min_offset q = mb_start b1" by blast
    obtain b' rest m where a: "apply_pending env pool a b1 (q_pending q) (2 ^ 32 - 1) = Inr (b', rest, m)"
      and e: "b2 = b'\<lparr>mb_deallocs := Some \<lparr>q_pending = rest, q_min_offset = m\<rparr>\<rparr>"
      using b2 q by (auto simp: ooo_apply_dealloc_def elim!: res_bind_InrE)
    have xy: "xs1 = [] \<longrightarrow> ys = [] \<or> mb_start b1 = mb_wrap b1" using x1(3) by (auto simp: layout_def)
    have m: "mset (q_pending q) + live' = mset xs1 + mset ys" using m1 q(1) by simp
    obtain xs' ys' where r: "layout b' xs' ys'" "slack b' ys'" "mset rest + live' = mset xs' + mset ys'" "same_storage b1 b'"
      using apply_pending_layout [OF x1(3,4) m xy a] by blast
    show ?thesis using r unfolding e by (intro exI [of _ xs'] exI [of _ ys']) (simp add: same_storage_def)
  qed
  then obtain xs2 ys2 where x2: "layout b2 xs2 ys2" "slack b2 ys2" "mset (pending b2) + live' = mset xs2 + mset ys2"
    "same_storage b1 b2" by blast
  define b3 where "b3 = maybe_unwrap_block b2"
  obtain xs3 ys3 where x3: "layout b3 xs3 ys3" "slack b3 ys3" "mset xs3 + mset ys3 = mset xs2 + mset ys2" "xs3 = [] \<longrightarrow> ys3 = []"
    using maybe_unwrap_layout [OF x2(1,2)] unfolding b3_def by (metis mset_append)
  have r: "b' = b3" unfolding b3 b3_def ..
  have s: "same_storage b b3" "mb_deallocs b3 = mb_deallocs b2"
    using maybe_unwrap_same [of b2] same_storage_trans d1(2) x2(4) unfolding b3_def by blast+
  have m3: "mset (pending b3) + live' = mset xs3 + mset ys3" using x2(3) x3(3) s(2) by (simp add: pending_def)
  show ?thesis
  proof (cases "xs3 = []")
    case True
    then have "live' = {#}" "pending b3 = []" using m3 x3(4) by simp_all
    then show ?thesis using True layout_empty [OF x3(1,2,4)] s(1) by (simp add: r live)
  next
    case False
    then show ?thesis using layout_empty [OF x3(1,2,4)] s(1) block_invI [OF x3(1) False m3] by (simp add: r live)
  qed
qed

lemma release_end_inv:
  assumes inv: "block_inv b live" and x: "(off, sz) \<in># live" and o: "off \<noteq> mb_start b" and e: "uadd 32 off sz = mb_cursor b"
  shows "same_storage b (release_end b sz) \<and> \<not> BLOCK_IS_EMPTY (release_end b sz) \<and>
    block_inv (release_end b sz) (live - {#(off, sz)#})"
proof -
  obtain xs ys where l: "layout b xs ys" "xs \<noteq> []" "mset (pending b) + live = mset xs + mset ys"
    using inv by (auto simp: block_inv_def)
  obtain live' where live: "live = add_mset (off, sz) live'" using x by (metis insert_DiffM)
  have "(off, sz) \<in># mset xs + mset ys" by (simp add: l(3) [symmetric] live)
  then have mem: "(off, sz) \<in> set xs \<union> set ys" by simp
  have t: "tiles (mb_start b) (mb_wrap b) xs" "mb_wrap b \<le> mb_nalloc b" "mb_nalloc b < 2 ^ 32" "mb_start b < mb_wrap b"
    using l(1) tiles_less [OF _ l(2)] by (auto simp: layout_def)
  have os: "0 < sz" "off + sz \<le> mb_nalloc b" using layout_mem [OF l(1) mem] by simp_all
  then have c: "mb_cursor b = off + sz" using e t(3) by (simp add: uadd_nowrap)
  show ?thesis
  proof (cases "ys = []")
    case True
    then have w: "mb_wrap b = off + sz" "(off, sz) \<in> set xs" using l(1) c mem by (auto simp: layout_def)
    obtain r where r: "xs = r @ [(off, sz)]" using tiles_last [OF t(1) w(2)] w(1) by auto
    have tr: "tiles (mb_start b) off r" using t(1) by (simp add: r tiles_snoc)
    then have "r \<noteq> []" "mb_start b < off" using o tiles_le [OF tr] by auto
    moreover have re: "release_end b sz = b\<lparr>mb_cursor := off, mb_wrap := off\<rparr>"
      using c w t by (simp add: release_end_def usub_nowrap)
    moreover have "layout (release_end b sz) r []" using tr os t by (simp add: re layout_def)
    ultimately show ?thesis
      using block_invI [of "release_end b sz" r "[]" live'] l(3) True
      by (simp add: r live same_storage_def BLOCK_IS_EMPTY_def pending_def)
  next
    case False
    then have w: "tiles 0 (mb_cursor b) ys" "mb_cursor b \<le> mb_start b" using l(1) by (auto simp: layout_def)
    have "(off, sz) \<notin> set xs" using tiles_mem [OF t(1), of off sz] w(2) c by auto
    then obtain r where r: "ys = r @ [(off, sz)]" using tiles_last [OF w(1)] mem c by auto
    have tr: "tiles 0 off r" using w(1) by (simp add: r tiles_snoc)
    have re: "release_end b sz = b\<lparr>mb_cursor := (if off = 0 then mb_wrap b else off)\<rparr>"
      using c w t os by (simp add: release_end_def usub_nowrap Let_def)
    have r0: "r = [] \<longleftrightarrow> off = 0" using tr tiles_less [OF tr] by auto
    have "layout (release_end b sz) xs r" using l(1) tr c w os r0 by (auto simp: re layout_def)
    moreover have "\<not> BLOCK_IS_EMPTY (release_end b sz)" using t(4) c w os by (simp add: re BLOCK_IS_EMPTY_def)
    ultimately show ?thesis
      using block_invI [of "release_end b sz" xs r live'] l(2,3)
      by (simp add: r live same_storage_def re pending_def)
  qed
qed

lemma queue_span_inv:
  assumes inv: "block_inv b live" and x: "(off, sz) \<in># live" and q: "q_pending q = pending b"
  shows "same_storage b (queue_span b q off sz) \<and> block_inv (queue_span b q off sz) (live - {#(off, sz)#})"
proof -
  obtain xs ys where l: "layout b xs ys" "xs \<noteq> []" "mset (pending b) + live = mset xs + mset ys"
    using inv by (auto simp: block_inv_def)
  obtain live' where live: "live = add_mset (off, sz) live'" using x by (metis insert_DiffM)
  have p: "pending (queue_span b q off sz) = pending b @ [(off, sz)]"
    by (simp add: queue_span_def pending_def Let_def q)
  have "layout (queue_span b q off sz) xs ys" using l(1) by (simp add: queue_span_def Let_def)
  then show ?thesis
    using l(2,3) block_invI [of "queue_span b q off sz" xs ys live'] p
    by (simp add: live) (simp add: queue_span_def same_storage_def Let_def)
qed

lemma ooo_queue_inv:
  assumes inv: "block_inv b live" and x: "(off, sz) \<in># live" and run: "ooo_queue_dealoc env pool a b off sz = Inr b'"
  shows "same_storage b b' \<and> block_inv b' (live - {#(off, sz)#})"
proof -
  obtain q where "b' = queue_span b q off sz" "q_pending q = pending b"
    using run by (auto simp: ooo_queue_dealoc_def pending_def elim!: res_bind_InrE split: option.splits)
  then show ?thesis using queue_span_inv [OF inv x] by simp
qed

text \<open>The operations on a block fail only when a call into the pool of its dealloc queue does.\<close>

definition queue_faults :: "mb_env \<Rightarrow> nb_MBPOOL \<Rightarrow> nat \<Rightarrow> fault set" where
  "queue_faults env pool a = {f. \<exists>op. env_queue env pool a op = Some f}"

lemma qpool_call_faults: "runs (queue_faults env pool a) (qpool_call env pool a op) (\<lambda>_. True)"
  by (auto simp: qpool_call_def queue_faults_def runs_simps split: option.split)

lemma ooo_queue_faults: "runs (queue_faults env pool a) (ooo_queue_dealoc env pool a b off sz) (\<lambda>_. True)"
  unfolding ooo_queue_dealoc_def
  by (auto intro!: runs_bind qpool_call_faults simp: runs_simps split: option.split)

lemma apply_pending_faults: "runs (queue_faults env pool a) (apply_pending env pool a b qs m) (\<lambda>_. True)"
  by (induction env pool a b qs m rule: apply_pending.induct)
    (auto intro!: runs_bind qpool_call_faults simp: runs_simps)

lemma release_front_faults: "runs (queue_faults env pool a) (release_front env pool a b sz) (\<lambda>_. True)"
  unfolding release_front_def ooo_apply_dealloc_def Let_def
  by (auto intro!: runs_bind apply_pending_faults simp: runs_simps split: option.split)

section \<open>Pools\<close>

text \<open>
  What the C library promises: a new header is at a free address, and the storage of a new block does not
  overlap the storage of a block of the pool.
\<close>

definition mb_env_ok :: "mb_env \<Rightarrow> bool" where
  "mb_env_ok env \<longleftrightarrow>
     (\<forall>p a. env_block env p = Some a \<longrightarrow> mp_blocks p a = None) \<and>
     (\<forall>p n r a b. env_root env p n = Some r \<longrightarrow> a \<in> set (mp_active p) \<union> set (mp_avail p) \<longrightarrow> mp_blocks p a = Some b \<longrightarrow>
        disjoint_spans (r, n) (mb_root b, mb_nalloc b))"

definition spans_in :: "nat \<Rightarrow> nb_SPAN list \<Rightarrow> (nat \<times> nat) multiset" where
  "spans_in a live = mset (map (\<lambda>s. (sp_offset s, sp_size s)) (filter (\<lambda>s. sp_parent s = a) live))"

definition block_at :: "nb_MBPOOL \<Rightarrow> nat \<Rightarrow> nb_MBLOCK" where
  "block_at p a = the (mp_blocks p a)"

definition storage :: "nb_MBPOOL \<Rightarrow> nat \<Rightarrow> nat \<times> nat" where
  "storage p a = (mb_root (block_at p a), mb_nalloc (block_at p a))"

definition pool_inv :: "nb_MBPOOL \<Rightarrow> nb_SPAN list \<Rightarrow> bool" where
  "pool_inv p live \<longleftrightarrow>
     distinct (mp_active p @ mp_avail p) \<and>
     (\<forall>a \<in> set (mp_active p @ mp_avail p). mp_blocks p a \<noteq> None \<and> 0 < mb_nalloc (block_at p a) \<and> mb_nalloc (block_at p a) < 2 ^ 32) \<and>
     (\<forall>a \<in> set (mp_active p). block_inv (block_at p a) (spans_in a live)) \<and>
     (\<forall>s \<in> set live. sp_parent s \<in> set (mp_active p)) \<and>
     (\<forall>a \<in> set (mp_active p @ mp_avail p). \<forall>b \<in> set (mp_active p @ mp_avail p).
        a \<noteq> b \<longrightarrow> disjoint_spans (storage p a) (storage p b)) \<and>
     mp_curblocks p = length (mp_avail p) \<and> mp_curblocks p \<le> mp_maxblocks p \<and> mp_maxblocks p < 2 ^ 32 \<and>
     (\<forall>a \<in> set (mp_cacheblocks p). mp_blocks p a \<noteq> None \<and> mb_parent (block_at p a)) \<and>
     0 < mp_basealloc p \<and> mp_basealloc p < 2 ^ 32"

lemma mb_grow_correct:
  assumes "0 < n" and "n < 2 ^ 32" and "capacity \<le> 2 ^ 31"
  shows "\<exists>n'. mb_grow n capacity = Some n' \<and> capacity \<le> n' \<and> 0 < n' \<and> n' < 2 ^ 32"
  using assms(1,2)
proof (induction "capacity - n" arbitrary: n rule: less_induct)
  case less
  show ?case
  proof (cases "n < capacity")
    case True
    then have d: "umul 32 n 2 = n * 2" "n * 2 < 2 ^ 32" using assms(3) by (simp_all add: umul_nowrap)
    have "capacity - n * 2 < capacity - n" "0 < n * 2" using True less.prems(1) by linarith+
    from less.hyps [OF this d(2)] show ?thesis using True d(1) by (subst mb_grow.simps) simp
  next
    case False
    then show ?thesis using less.prems by (subst mb_grow.simps) simp
  qed
qed

lemma find_fit_spec:
  assumes "\<forall>a \<in> set as. mp_blocks p a \<noteq> None"
  shows "\<exists>r. find_fit p capacity as = Inr r \<and>
    (\<forall>a rest. r = Some (a, rest) \<longrightarrow> capacity \<le> mb_nalloc (block_at p a) \<and> (\<exists>l1 l2. as = l1 @ a # l2 \<and> rest = l1 @ l2))"
  using assms
proof (induction as)
  case (Cons x as)
  then obtain b where b: "mp_blocks p x = Some b" by auto
  obtain r where r: "find_fit p capacity as = Inr r"
    "\<forall>a rest. r = Some (a, rest) \<longrightarrow> capacity \<le> mb_nalloc (block_at p a) \<and> (\<exists>l1 l2. as = l1 @ a # l2 \<and> rest = l1 @ l2)"
    using Cons by auto
  show ?case
  proof (cases "capacity \<le> mb_nalloc b")
    case True
    then have "find_fit p capacity (x # as) = Inr (Some (x, as))" by (simp add: mb_deref_def b)
    then show ?thesis using True by (intro exI [of _ "Some (x, as)"]) (auto simp: block_at_def b intro: exI [of _ "[]"])
  next
    case False
    then have e: "find_fit p capacity (x # as) = Inr (map_option (\<lambda>(y, rest). (y, x # rest)) r)"
      by (simp add: mb_deref_def b r(1))
    show ?thesis
    proof (cases r)
      case None
      then show ?thesis using e by simp
    next
      case (Some yr)
      obtain y rest where yr: "yr = (y, rest)" by (cases yr)
      then obtain l1 l2 where "as = l1 @ y # l2" "rest = l1 @ l2" "capacity \<le> mb_nalloc (block_at p y)"
        using r(2) Some by blast
      then have "x # as = (x # l1) @ y # l2" "x # rest = (x # l1) @ l2" "capacity \<le> mb_nalloc (block_at p y)"
        by simp_all
      then have "capacity \<le> mb_nalloc (block_at p y) \<and> (\<exists>l1 l2. x # as = l1 @ y # l2 \<and> x # rest = l1 @ l2)" by blast
      then show ?thesis unfolding e Some yr by simp
    qed
  qed
qed simp

lemma mb_store_simps [simp]:
  "mp_blocks (mb_store p a b) = (mp_blocks p)(a := Some b)"
  "block_at (mb_store p a b) x = (if x = a then b else block_at p x)"
  "mp_active (mb_store p a b) = mp_active p" "mp_avail (mb_store p a b) = mp_avail p"
  "mp_basealloc (mb_store p a b) = mp_basealloc p" "mp_maxblocks (mb_store p a b) = mp_maxblocks p"
  "mp_curblocks (mb_store p a b) = mp_curblocks p" "mp_cacheblocks (mb_store p a b) = mp_cacheblocks p"
  by (simp_all add: mb_store_def block_at_def)

lemma mb_deref_at: "mp_blocks p a \<noteq> None \<Longrightarrow> mb_deref p a = Inr (block_at p a)"
  by (auto simp: mb_deref_def block_at_def)

lemma spans_in_simps [simp]:
  "spans_in a [] = {#}"
  "spans_in a (s # live) = (if sp_parent s = a then add_mset (sp_offset s, sp_size s) (spans_in a live) else spans_in a live)"
  "spans_in a (l1 @ l2) = spans_in a l1 + spans_in a l2"
  by (simp_all add: spans_in_def)

lemma spans_in_empty: "spans_in a live = {#} \<longleftrightarrow> (\<forall>s \<in> set live. sp_parent s \<noteq> a)"
  by (auto simp: spans_in_def filter_empty_conv)

lemma storage_same: "same_storage (block_at p a) b \<Longrightarrow> storage (mb_store p a b) x = storage p x"
  by (simp add: storage_def same_storage_def)

lemma pool_inv_store:
  assumes p: "pool_inv p live" and a: "a \<in> set (mp_active p)" and st: "same_storage (block_at p a) b"
    and b: "block_inv b (spans_in a live')" and o: "\<And>x. x \<noteq> a \<Longrightarrow> spans_in x live' = spans_in x live"
    and l: "\<forall>s \<in> set live'. sp_parent s \<in> set (mp_active p)"
  shows "pool_inv (mb_store p a b) live'"
proof -
  have n: "mb_nalloc b = mb_nalloc (block_at p a)" "mb_parent b = mb_parent (block_at p a)"
    using st by (simp_all add: same_storage_def)
  show ?thesis
    using p a b l o unfolding pool_inv_def storage_same [OF st] by (auto simp: n)
qed

text \<open>The storage of a block that stays active does not move.\<close>

definition roots_kept :: "nb_MBPOOL \<Rightarrow> nb_MBPOOL \<Rightarrow> bool" where
  "roots_kept p p' \<longleftrightarrow> (\<forall>x \<in> set (mp_active p') \<inter> set (mp_active p). mb_root (block_at p' x) = mb_root (block_at p x))"

lemma roots_kept_store: "same_storage (block_at p a) b \<Longrightarrow> roots_kept p (mb_store p a b)"
  by (simp add: roots_kept_def same_storage_def)

lemma wipe_nothing: "pending b = [] \<Longrightarrow> (case mb_deallocs b of None \<Rightarrow> Inr () | Some q \<Rightarrow> wipe_pending env pool a (q_pending q)) = Inr ()"
  by (auto simp: pending_def split: option.splits)

lemma retire_block_inv:
  assumes p: "pool_inv p live" and a: "a \<in> set (mp_active p)" and st: "same_storage (block_at p a) b"
    and e: "spans_in a live' = {#}" and o: "\<And>x. x \<noteq> a \<Longrightarrow> spans_in x live' = spans_in x live"
    and l: "\<forall>s \<in> set live'. sp_parent s \<in> set (mp_active p)" and none: "pending b = []"
  shows "\<exists>p'. retire_block env (mb_store p a b) a = Inr p' \<and> pool_inv p' live' \<and> roots_kept p p'"
proof -
  have n: "mb_nalloc b = mb_nalloc (block_at p a)" "mb_parent b = mb_parent (block_at p a)"
    using st by (simp_all add: same_storage_def)
  have d: "distinct (mp_active p)" "a \<notin> set (mp_avail p)" "set (remove1 a (mp_active p)) = set (mp_active p) - {a}"
    using p a by (auto simp: pool_inv_def)
  have l': "\<forall>s \<in> set live'. sp_parent s \<in> set (mp_active p) - {a}" using l e by (auto simp: spans_in_empty)
  have st': "storage (p'\<lparr>mp_active := as, mp_avail := vs, mp_curblocks := c\<rparr>) x = storage p' x"
    "block_at (p'\<lparr>mp_active := as, mp_avail := vs, mp_curblocks := c\<rparr>) x = block_at p' x" for p' as vs c x
    by (simp_all add: storage_def block_at_def)
  show ?thesis
  proof (cases "mp_curblocks p < mp_maxblocks p")
    case True
    define p' where "p' = (mb_store p a b)\<lparr>mp_active := remove1 a (mp_active p), mp_avail := mp_avail p @ [a],
      mp_curblocks := Suc (mp_curblocks p)\<rparr>"
    have "retire_block env (mb_store p a b) a = Inr p'"
      using True p by (simp add: retire_block_def Let_def p'_def uadd_nowrap pool_inv_def)
    moreover have "pool_inv p' live'"
      using p a d l' o True unfolding pool_inv_def p'_def st' storage_same [OF st]
      by (auto simp: n)
    moreover have "roots_kept p p'" using st by (simp add: roots_kept_def p'_def same_storage_def block_at_def mb_store_def)
    ultimately show ?thesis by blast
  next
    case False
    show ?thesis
    proof (cases "mb_parent b")
      case True
      define p' where "p' = (mb_store p a (b\<lparr>mb_deallocs := None\<rparr>))\<lparr>mp_active := remove1 a (mp_active p)\<rparr>"
      have r: "retire_block env (mb_store p a b) a = Inr p'"
        using False True by (simp add: retire_block_def Let_def mblock_wipe_block_def mb_deref_def mblock_is_standalone_def p'_def mb_store_def wipe_nothing [OF none])
      have s2: "block_at p' x = (if x = a then b\<lparr>mb_deallocs := None\<rparr> else block_at p x)" "storage p' x = storage p x" for x
        using st by (simp_all add: p'_def block_at_def storage_def mb_store_def same_storage_def)
      have "pool_inv p' live'"
        using p a d l' o True unfolding pool_inv_def s2 by (auto simp: p'_def)
      moreover have "roots_kept p p'" using st by (simp add: roots_kept_def s2 same_storage_def)
      ultimately show ?thesis using r by blast
    next
      case sa: False
      define p' where "p' = p\<lparr>mp_blocks := (mp_blocks p)(a := None), mp_active := remove1 a (mp_active p)\<rparr>"
      have r: "retire_block env (mb_store p a b) a = Inr p'"
        using False sa by (simp add: retire_block_def Let_def mblock_wipe_block_def mb_deref_def mblock_is_standalone_def p'_def mb_store_def wipe_nothing [OF none])
      have s2: "block_at p' x = (if x = a then the None else block_at p x)"
        "storage p' x = (if x = a then (mb_root (the None :: nb_MBLOCK), mb_nalloc (the None :: nb_MBLOCK)) else storage p x)" for x
        by (simp_all add: p'_def block_at_def storage_def)
      have c: "a \<notin> set (mp_cacheblocks p)" using p sa n(2) by (auto simp: pool_inv_def)
      have "pool_inv p' live'"
        using p a d l' o c unfolding pool_inv_def s2 by (auto simp: p'_def)
      moreover have "set (mp_active p') = set (mp_active p) - {a}" by (simp add: p'_def d(3) del: set_remove1_eq)
      then have "roots_kept p p'" by (simp add: roots_kept_def s2)
      ultimately show ?thesis using r by blast
    qed
  qed
qed

lemma mblock_release_data_inv:
  assumes p: "pool_inv p (l1 @ s # l2)"
  shows "runs (queue_faults env p (sp_parent s)) (mblock_release_data env p (sp_parent s) (sp_size s) (sp_offset s))
    (\<lambda>p'. pool_inv p' (l1 @ l2) \<and> roots_kept p p')"
proof -
  let ?a = "sp_parent s" and ?live = "l1 @ s # l2" and ?live' = "l1 @ l2"
  define b where "b = block_at p ?a"
  have a: "?a \<in> set (mp_active p)" "mp_blocks p ?a \<noteq> None" "block_inv b (spans_in ?a ?live)"
    using p by (auto simp: pool_inv_def b_def)
  have x: "(sp_offset s, sp_size s) \<in># spans_in ?a ?live"
    "spans_in ?a ?live - {#(sp_offset s, sp_size s)#} = spans_in ?a ?live'" by simp_all
  have o: "\<And>y. y \<noteq> ?a \<Longrightarrow> spans_in y ?live' = spans_in y ?live" by simp
  have l: "\<forall>t \<in> set ?live'. sp_parent t \<in> set (mp_active p)" using p by (auto simp: pool_inv_def)
  show ?thesis
  proof (cases "sp_offset s \<noteq> mb_start b \<and> uadd 32 (sp_offset s) (sp_size s) \<noteq> mb_cursor b")
    case True
    have "pool_inv (mb_store p ?a b') ?live' \<and> roots_kept p (mb_store p ?a b')"
      if "ooo_queue_dealoc env p ?a b (sp_offset s) (sp_size s) = Inr b'" for b'
      using ooo_queue_inv [OF a(3) x(1) that] pool_inv_store [OF p a(1) _ _ o l, of b'] roots_kept_store
      by (simp add: x(2) b_def)
    then show ?thesis
      using True a(2) ooo_queue_faults [of env p ?a b "sp_offset s" "sp_size s"]
      by (cases "ooo_queue_dealoc env p ?a b (sp_offset s) (sp_size s)")
        (simp_all add: mblock_release_data_def mb_deref_at b_def [symmetric])
  next
    case False
    define step where "step = (if sp_offset s = mb_start b then release_front env p ?a b (sp_size s) else Inr (release_end b (sp_size s)))"
    have r: "mblock_release_data env p ?a (sp_size s) (sp_offset s) =
        res_bind step (\<lambda>b'. if \<not> BLOCK_IS_EMPTY b' then Inr (mb_store p ?a b') else retire_block env (mb_store p ?a b') ?a)"
      using False a(2) by (auto simp: mblock_release_data_def mb_deref_at b_def [symmetric] step_def Let_def)
    have b': "same_storage b b' \<and>
        (if BLOCK_IS_EMPTY b' then spans_in ?a ?live' = {#} \<and> pending b' = [] else block_inv b' (spans_in ?a ?live'))"
      if "step = Inr b'" for b'
    proof (cases "sp_offset s = mb_start b")
      case True
      have e: "release_front env p ?a b (sp_size s) = Inr b'" using that by (simp add: step_def True)
      show ?thesis
        by (rule release_front_inv [OF a(3) x(1) [unfolded True] e, unfolded x(2) [unfolded True]])
    next
      case no: False
      then have "b' = release_end b (sp_size s)" using that by (simp add: step_def)
      then show ?thesis using release_end_inv [OF a(3) x(1) no] False no unfolding x(2) by simp
    qed
    have "runs (queue_faults env p ?a) step (\<lambda>_. True)" by (simp add: step_def release_front_faults)
    then have "runs (queue_faults env p ?a) step (\<lambda>b'. step = Inr b')" by (cases step) simp_all
    then show ?thesis unfolding r
    proof (rule runs_bind)
      fix b' assume "step = Inr b'"
      note b' = b' [OF this]
      show "runs (queue_faults env p ?a) (if \<not> BLOCK_IS_EMPTY b' then Inr (mb_store p ?a b') else retire_block env (mb_store p ?a b') ?a)
          (\<lambda>p'. pool_inv p' ?live' \<and> roots_kept p p')"
      proof (cases "BLOCK_IS_EMPTY b'")
        case True
        then obtain p' where "retire_block env (mb_store p ?a b') ?a = Inr p'" "pool_inv p' ?live'" "roots_kept p p'"
          using b' retire_block_inv [OF p a(1) _ _ o l, of b' env] by (auto simp: b_def)
        then show ?thesis using True by simp
      next
        case False
        then show ?thesis using b' pool_inv_store [OF p a(1) _ _ o l, of b'] roots_kept_store by (simp add: b_def)
      qed
    qed
  qed
qed

text \<open>At either end of a block without dealloc queue a release always returns.\<close>

lemma mblock_release_data_ends:
  assumes p: "pool_inv p (l1 @ s # l2)" and q: "mb_deallocs (block_at p (sp_parent s)) = None"
    and e: "sp_offset s = mb_start (block_at p (sp_parent s)) \<or> uadd 32 (sp_offset s) (sp_size s) = mb_cursor (block_at p (sp_parent s))"
  shows "\<exists>p'. mblock_release_data env p (sp_parent s) (sp_size s) (sp_offset s) = Inr p'"
proof -
  define quiet where "quiet = env\<lparr>env_queue := \<lambda>_ _ _. None\<rparr>"
  have wipe: "mblock_wipe_block env p' a = mblock_wipe_block quiet p' a" if "\<forall>b. mp_blocks p' a = Some b \<longrightarrow> mb_deallocs b = None" for p' a
    using that by (auto simp: mblock_wipe_block_def mb_deref_def split: option.split)
  have retire: "retire_block env (mb_store p a b) a = retire_block quiet (mb_store p a b) a" if "mb_deallocs b = None" for a b
    using that wipe by (simp add: retire_block_def Let_def)
  have "mp_blocks p (sp_parent s) \<noteq> None" using p by (auto simp: pool_inv_def)
  moreover have "mb_deallocs (release_end (block_at p (sp_parent s)) (sp_size s)) = None" using q by (simp add: release_end_def Let_def)
  ultimately have "mblock_release_data env p (sp_parent s) (sp_size s) (sp_offset s) =
      mblock_release_data quiet p (sp_parent s) (sp_size s) (sp_offset s)"
    using q e by (auto simp: mblock_release_data_def mb_deref_at release_front_def Let_def maybe_unwrap_same(2) retire)
  moreover have "queue_faults quiet p (sp_parent s) = {}" by (simp add: queue_faults_def quiet_def)
  ultimately show ?thesis using mblock_release_data_inv [OF p, of quiet] by (auto simp: runs_total)
qed

lemma find_free_block_inv:
  assumes p: "pool_inv p live"
  shows "\<exists>p' r. find_free_block p sz = Inr (p', r) \<and>
    (case r of
       None \<Rightarrow> p' = p
     | Some a \<Rightarrow> pool_inv p' live \<and> mp_blocks p' = mp_blocks p \<and> a \<notin> set (mp_active p') \<union> set (mp_avail p') \<and>
         mp_blocks p' a \<noteq> None \<and> sz \<le> mb_nalloc (block_at p' a) \<and> mb_nalloc (block_at p' a) < 2 ^ 32 \<and>
         (\<forall>x \<in> set (mp_active p') \<union> set (mp_avail p'). disjoint_spans (storage p' a) (storage p' x)))"
proof -
  have "\<forall>a \<in> set (mp_avail p). mp_blocks p a \<noteq> None" using p by (auto simp: pool_inv_def)
  from find_fit_spec [OF this, of sz] obtain r where r: "find_fit p sz (mp_avail p) = Inr r"
    "\<forall>a rest. r = Some (a, rest) \<longrightarrow> sz \<le> mb_nalloc (block_at p a) \<and> (\<exists>l1 l2. mp_avail p = l1 @ a # l2 \<and> rest = l1 @ l2)"
    by blast
  show ?thesis
  proof (cases r)
    case None
    then show ?thesis using r(1) by (simp add: find_free_block_def)
  next
    case (Some ar)
    obtain a rest where ar: "ar = (a, rest)" by (cases ar)
    obtain l1 l2 where l: "mp_avail p = l1 @ a # l2" "rest = l1 @ l2" "sz \<le> mb_nalloc (block_at p a)"
      using r(2) Some ar by blast
    define p' where "p' = p\<lparr>mp_avail := l1 @ l2, mp_curblocks := length (l1 @ l2)\<rparr>"
    have c: "usub 32 (mp_curblocks p) 1 = length (l1 @ l2)"
      using p l(1) by (auto simp: pool_inv_def usub_nowrap)
    have e: "find_free_block p sz = Inr (p', Some a)" using r(1) c l(2) by (simp add: find_free_block_def Some ar p'_def)
    have s: "block_at p' x = block_at p x" "storage p' x = storage p x" for x
      by (simp_all add: p'_def block_at_def storage_def)
    have "pool_inv p' live" using p l(1) unfolding pool_inv_def s by (auto simp: p'_def)
    moreover have "a \<notin> set (mp_active p') \<union> set (mp_avail p')" using p l(1) by (auto simp: pool_inv_def p'_def)
    moreover have "mp_blocks p' a \<noteq> None" "mb_nalloc (block_at p' a) < 2 ^ 32"
      "\<forall>x \<in> set (mp_active p') \<union> set (mp_avail p'). disjoint_spans (storage p' a) (storage p' x)"
      using p l(1) unfolding pool_inv_def s by (auto simp: p'_def)
    ultimately show ?thesis using e l(3) s by (intro exI [of _ p'] exI [of _ "Some a"]) (simp add: p'_def)
  qed
qed

text \<open>A block that is in neither list, with room for the span, becomes an active block that holds the span.\<close>

lemma activate_block_inv:
  assumes p: "pool_inv p live" and a: "a \<notin> set (mp_active p) \<union> set (mp_avail p)" and sz: "0 < sz" "sz \<le> mb_nalloc b" "mb_nalloc b < 2 ^ 32"
    and c: "a \<in> set (mp_cacheblocks p) \<longrightarrow> mb_parent b"
    and d: "\<forall>x \<in> set (mp_active p) \<union> set (mp_avail p). disjoint_spans (mb_root b, mb_nalloc b) (storage p x)"
    and b': "b' = b\<lparr>mb_start := 0, mb_wrap := sz, mb_cursor := sz, mb_deallocs := None\<rparr>"
  shows "pool_inv ((mb_store p a b')\<lparr>mp_active := mp_active p @ [a]\<rparr>) (\<lparr>sp_parent = a, sp_offset = 0, sp_size = sz\<rparr> # live)"
proof -
  define q where "q = (mb_store p a b')\<lparr>mp_active := mp_active p @ [a]\<rparr>"
  have s: "block_at q x = (if x = a then b' else block_at p x)"
    "storage q x = (if x = a then (mb_root b, mb_nalloc b) else storage p x)" for x
    by (simp_all add: q_def block_at_def storage_def mb_store_def b')
  have n: "mb_nalloc b' = mb_nalloc b" "mb_parent b' = mb_parent b" by (simp_all add: b')
  have "spans_in a live = {#}" using p a by (auto simp: spans_in_empty pool_inv_def)
  then have bi: "block_inv b' (spans_in a (\<lparr>sp_parent = a, sp_offset = 0, sp_size = sz\<rparr> # live))"
    using sz block_invI [of b' "[(0, sz)]" "[]"] by (simp add: b' layout_def pending_def)
  have d': "\<forall>x \<in> set (mp_active p) \<union> set (mp_avail p). disjoint_spans (storage p x) (mb_root b, mb_nalloc b)"
    using d disjoint_spans_sym by blast
  show ?thesis
    unfolding q_def [symmetric]
    using p a sz c d d' bi unfolding pool_inv_def s by (auto simp: q_def n)
qed

lemma pool_inv_inactive_store:
  assumes p: "pool_inv p live" and a: "a \<notin> set (mp_active p) \<union> set (mp_avail p)" and c: "mb_parent b"
  shows "pool_inv (mb_store p a b) live"
proof -
  have s: "storage (mb_store p a b) x = (if x = a then (mb_root b, mb_nalloc b) else storage p x)" for x
    by (simp add: storage_def)
  show ?thesis using p a c unfolding pool_inv_def s by auto
qed

lemma pool_inv_blocks:
  "pool_inv p live \<Longrightarrow> x \<in> set (mp_active p) \<union> set (mp_avail p) \<Longrightarrow> mp_blocks p x \<noteq> None \<and> 0 < mb_nalloc (block_at p x)"
  "pool_inv p live \<Longrightarrow> x \<in> set (mp_cacheblocks p) \<Longrightarrow> mp_blocks p x \<noteq> None \<and> mb_parent (block_at p x)"
  by (simp_all add: pool_inv_def)

lemma alloc_new_block_inv:
  assumes env: "mb_env_ok env" and p: "pool_inv p live" and sz: "0 < sz" "sz \<le> 2 ^ 31"
  shows "\<exists>p' r. alloc_new_block env p sz = Inr (p', r) \<and>
    (case r of
       None \<Rightarrow> pool_inv p' live
     | Some a \<Rightarrow> \<exists>b. p' = mb_store p a b \<and> a \<notin> set (mp_active p) \<union> set (mp_avail p) \<and> sz \<le> mb_nalloc b \<and> mb_nalloc b < 2 ^ 32 \<and>
         (a \<in> set (mp_cacheblocks p) \<longrightarrow> mb_parent b) \<and>
         (\<forall>x \<in> set (mp_active p) \<union> set (mp_avail p). disjoint_spans (mb_root b, mb_nalloc b) (storage p x)))"
proof -
  define cand where "cand = (case free_cacheblock p of
      Some a \<Rightarrow> Some (a, the (mp_blocks p a)) | None \<Rightarrow> map_option (\<lambda>a. (a, mblock_zero)) (env_block env p))"
  have cand: "a \<notin> set (mp_active p) \<union> set (mp_avail p) \<and> (a \<in> set (mp_cacheblocks p) \<longrightarrow> mb_parent b)"
    if "cand = Some (a, b)" for a b
  proof (cases "free_cacheblock p")
    case None
    then have "mp_blocks p a = None" using that env by (auto simp: cand_def mb_env_ok_def)
    then show ?thesis using pool_inv_blocks [OF p, of a] by auto
  next
    case (Some c)
    then obtain b0 where "mp_blocks p c = Some b0" "mb_nalloc b0 = 0" "c \<in> set (mp_cacheblocks p)"
      by (auto simp: free_cacheblock_def find_Some_iff split: option.splits)
    moreover have "a = c" "b = the (mp_blocks p c)" using that Some by (auto simp: cand_def)
    ultimately show ?thesis using pool_inv_blocks [OF p, of a] by (auto simp: block_at_def)
  qed
  obtain n where n: "mb_grow (mp_basealloc p) sz = Some n" "sz \<le> n" "n < 2 ^ 32"
    using mb_grow_correct [OF _ _ sz(2), of "mp_basealloc p"] p by (auto simp: pool_inv_def)
  show ?thesis
  proof (cases cand)
    case None
    then show ?thesis using p by (simp add: alloc_new_block_def cand_def [symmetric])
  next
    case (Some ab)
    obtain a b where ab: "ab = (a, b)" by (cases ab)
    note c = cand [OF Some [unfolded ab]]
    show ?thesis
    proof (cases "env_root env p n")
      case None
      then show ?thesis
        using p c Some ab n(1) pool_inv_inactive_store [OF p, of a]
        by (simp add: alloc_new_block_def cand_def [symmetric] mblock_is_standalone_def)
    next
      case root: (Some r)
      define b1 where "b1 = b\<lparr>mb_nalloc := n, mb_wrap := 0, mb_cursor := 0, mb_root := r\<rparr>"
      have "alloc_new_block env p sz = Inr (mb_store p a b1, Some a)"
        using Some ab n(1) root by (simp add: alloc_new_block_def cand_def [symmetric] b1_def)
      moreover have "\<forall>x \<in> set (mp_active p) \<union> set (mp_avail p). disjoint_spans (r, n) (storage p x)"
      proof
        fix x assume x: "x \<in> set (mp_active p) \<union> set (mp_avail p)"
        then obtain bx where "mp_blocks p x = Some bx" using pool_inv_blocks [OF p] by blast
        then show "disjoint_spans (r, n) (storage p x)"
          using env root x by (auto simp: mb_env_ok_def storage_def block_at_def)
      qed
      ultimately show ?thesis
        using c n(2,3) by (intro exI [of _ "mb_store p a b1"] exI [of _ "Some a"]) (auto simp: b1_def intro!: exI [of _ b1])
    qed
  qed
qed

lemma block_at_active: "block_at (p\<lparr>mp_active := as\<rparr>) x = block_at p x"
  by (simp add: block_at_def)

lemma reserve_empty_block_inv:
  assumes env: "mb_env_ok env" and p: "pool_inv p live" and sz: "0 < sz" "sz \<le> 2 ^ 31"
  shows "\<exists>p' r. reserve_empty_block env p sz = Inr (p', r) \<and>
    (case r of None \<Rightarrow> pool_inv p' live | Some s \<Rightarrow> sp_size s = sz \<and> pool_inv p' (s # live) \<and> roots_kept p p')"
proof -
  obtain p1 r1 where f: "find_free_block p sz = Inr (p1, r1)"
    "case r1 of
       None \<Rightarrow> p1 = p
     | Some a \<Rightarrow> pool_inv p1 live \<and> mp_blocks p1 = mp_blocks p \<and> a \<notin> set (mp_active p1) \<union> set (mp_avail p1) \<and>
         mp_blocks p1 a \<noteq> None \<and> sz \<le> mb_nalloc (block_at p1 a) \<and> mb_nalloc (block_at p1 a) < 2 ^ 32 \<and>
         (\<forall>x \<in> set (mp_active p1) \<union> set (mp_avail p1). disjoint_spans (storage p1 a) (storage p1 x))"
    using find_free_block_inv [OF p] by blast
  show ?thesis
  proof (cases r1)
    case (Some a)
    then have a: "pool_inv p1 live" "a \<notin> set (mp_active p1) \<union> set (mp_avail p1)" "mp_blocks p1 a \<noteq> None"
      "sz \<le> mb_nalloc (block_at p1 a)" "mb_nalloc (block_at p1 a) < 2 ^ 32"
      "\<forall>x \<in> set (mp_active p1) \<union> set (mp_avail p1). disjoint_spans (storage p1 a) (storage p1 x)"
      using f(2) unfolding Some option.case by blast+
    have c: "a \<in> set (mp_cacheblocks p1) \<longrightarrow> mb_parent (block_at p1 a)" using pool_inv_blocks(2) [OF a(1)] by blast
    have "mp_blocks p1 = mp_blocks p" using f(2) unfolding Some option.case by blast
    then have "block_at p1 = block_at p" by (simp add: block_at_def fun_eq_iff)
    then have k: "roots_kept p ((mb_store p1 a ((block_at p1 a)\<lparr>mb_start := 0, mb_wrap := sz, mb_cursor := sz, mb_deallocs := None\<rparr>))
        \<lparr>mp_active := mp_active p1 @ [a]\<rparr>)"
      by (simp add: roots_kept_def block_at_active)
    show ?thesis
      using activate_block_inv [OF a(1,2) sz(1) a(4,5) c a(6) [unfolded storage_def [of p1 a]] refl] k
      by (simp add: reserve_empty_block_def f(1) Some mb_deref_at a(3))
  next
    case None
    then have p1: "p1 = p" using f(2) by simp
    obtain p2 r2 where g: "alloc_new_block env p sz = Inr (p2, r2)"
      "case r2 of
         None \<Rightarrow> pool_inv p2 live
       | Some a \<Rightarrow> \<exists>b. p2 = mb_store p a b \<and> a \<notin> set (mp_active p) \<union> set (mp_avail p) \<and> sz \<le> mb_nalloc b \<and> mb_nalloc b < 2 ^ 32 \<and>
           (a \<in> set (mp_cacheblocks p) \<longrightarrow> mb_parent b) \<and>
           (\<forall>x \<in> set (mp_active p) \<union> set (mp_avail p). disjoint_spans (mb_root b, mb_nalloc b) (storage p x))"
      using alloc_new_block_inv [OF env p sz] by blast
    show ?thesis
    proof (cases r2)
      case none2: None
      then show ?thesis using g f(1) p1 None by (simp add: reserve_empty_block_def)
    next
      case some2: (Some a)
      then obtain b where b: "p2 = mb_store p a b" "a \<notin> set (mp_active p) \<union> set (mp_avail p)" "sz \<le> mb_nalloc b" "mb_nalloc b < 2 ^ 32"
        "a \<in> set (mp_cacheblocks p) \<longrightarrow> mb_parent b"
        "\<forall>x \<in> set (mp_active p) \<union> set (mp_avail p). disjoint_spans (mb_root b, mb_nalloc b) (storage p x)"
        using g(2) by auto
      have st: "mb_store (mb_store p a b) a c = mb_store p a c" for c by (simp add: mb_store_def)
      have k: "roots_kept p ((mb_store p a c)\<lparr>mp_active := mp_active p @ [a]\<rparr>)" for c
        using b(2) by (simp add: roots_kept_def block_at_active)
      show ?thesis
        using activate_block_inv [OF p b(2) sz(1) b(3,4,5,6) refl] k
        by (simp add: reserve_empty_block_def f(1) None p1 g(1) some2 b(1) mb_deref_def st)
    qed
  qed
qed

lemma mblock_reserve_data_inv:
  assumes env: "mb_env_ok env" and p: "pool_inv p live" and sz: "0 < sz" "sz \<le> 2 ^ 31"
  shows "\<exists>p' r. mblock_reserve_data env p sz = Inr (p', r) \<and>
    (case r of None \<Rightarrow> pool_inv p' live | Some s \<Rightarrow> sp_size s = sz \<and> pool_inv p' (s # live) \<and> roots_kept p p')"
proof (cases "mp_active p = []")
  case True
  then show ?thesis using reserve_empty_block_inv [OF assms] by (simp add: mblock_reserve_data_def)
next
  case False
  define a where "a = last (mp_active p)"
  have a: "a \<in> set (mp_active p)" "mp_blocks p a \<noteq> None" "block_inv (block_at p a) (spans_in a live)"
    using p False pool_inv_blocks [OF p, of a] by (auto simp: a_def pool_inv_def)
  show ?thesis
  proof (cases "reserve_active_block (block_at p a) sz")
    case None
    then show ?thesis
      using reserve_empty_block_inv [OF assms] False a(2)
      by (simp add: mblock_reserve_data_def a_def [symmetric] mb_deref_at Let_def)
  next
    case (Some bo)
    obtain b off where bo: "bo = (b, off)" by (cases bo)
    define s where "s = \<lparr>sp_parent = a, sp_offset = off, sp_size = sz\<rparr>"
    have r: "mblock_reserve_data env p sz = Inr (mb_store p a b, Some s)"
      using False a(2) Some by (simp add: mblock_reserve_data_def a_def [symmetric] mb_deref_at Let_def bo s_def)
    have b: "block_inv b (add_mset (off, sz) (spans_in a live))" "same_storage (block_at p a) b"
      using reserve_active_block_inv [OF a(3) sz Some [unfolded bo]] by simp_all
    have "pool_inv (mb_store p a b) (s # live)"
      using pool_inv_store [OF p a(1) b(2), of "s # live"] b(1) p a(1) by (simp add: s_def pool_inv_def)
    then show ?thesis using r roots_kept_store [OF b(2)] by (simp add: s_def)
  qed
qed

lemma find_owner_spec:
  assumes "\<forall>x \<in> set as. mp_blocks p x \<noteq> None" and "a \<in> set as"
    and "\<forall>x \<in> set as. x \<noteq> a \<longrightarrow> disjoint_spans (storage p a) (storage p x)" and "off < mb_nalloc (block_at p a)"
  shows "find_owner p (mb_root (block_at p a) + off) as = Inr (Some (a, off))"
  using assms
proof (induction as)
  case (Cons x as)
  show ?case
  proof (cases "x = a")
    case True
    then show ?thesis using Cons.prems by (simp add: mb_deref_at)
  next
    case False
    then have "disjoint_spans (storage p a) (storage p x)" using Cons.prems(3) by simp
    then show ?thesis
      using Cons.IH Cons.prems False by (auto simp: mb_deref_at disjoint_spans_def storage_def)
  qed
qed simp

definition span_addr :: "nb_MBPOOL \<Rightarrow> nb_SPAN \<Rightarrow> nat" where
  "span_addr p s = mb_root (block_at p (sp_parent s)) + sp_offset s"

lemma pool_inv_span:
  assumes p: "pool_inv p live" and s: "s \<in> set live"
  shows "sp_parent s \<in> set (mp_active p) \<and> 0 < sp_size s \<and> sp_offset s + sp_size s \<le> mb_nalloc (block_at p (sp_parent s))"
proof -
  have a: "sp_parent s \<in> set (mp_active p)" "block_inv (block_at p (sp_parent s)) (spans_in (sp_parent s) live)"
    using p s by (auto simp: pool_inv_def)
  then obtain xs ys where l: "layout (block_at p (sp_parent s)) xs ys"
    "mset (pending (block_at p (sp_parent s))) + spans_in (sp_parent s) live = mset xs + mset ys" by (auto simp: block_inv_def)
  have "(sp_offset s, sp_size s) \<in># spans_in (sp_parent s) live" using s by (auto simp: spans_in_def)
  then have "(sp_offset s, sp_size s) \<in># mset xs + mset ys" unfolding l(2) [symmetric] by simp
  then show ?thesis using a(1) layout_mem [OF l(1)] by simp
qed

lemma mblock_release_ptr_data:
  assumes p: "pool_inv p (l1 @ s # l2)"
  shows "mblock_release_ptr env p (span_addr p s) (sp_size s) =
    mblock_release_data env p (sp_parent s) (sp_size s) (sp_offset s)"
proof -
  have s: "sp_parent s \<in> set (mp_active p)" "0 < sp_size s" "sp_offset s + sp_size s \<le> mb_nalloc (block_at p (sp_parent s))"
    using pool_inv_span [OF p] by simp_all
  have "find_owner p (span_addr p s) (mp_active p) = Inr (Some (sp_parent s, sp_offset s))"
    unfolding span_addr_def using p s by (intro find_owner_spec) (auto simp: pool_inv_def)
  then show ?thesis by (simp add: mblock_release_ptr_def)
qed

lemma pool_inv_disjoint:
  assumes p: "pool_inv p (l1 @ s # l2)" and t: "t \<in> set l2"
  shows "disjoint_spans (span_addr p s, sp_size s) (span_addr p t, sp_size t)"
proof (cases "sp_parent s = sp_parent t")
  case True
  let ?b = "block_at p (sp_parent s)"
  have "block_inv ?b (spans_in (sp_parent s) (l1 @ s # l2))" using p by (auto simp: pool_inv_def)
  then obtain xs ys where l: "layout ?b xs ys" "mset (pending ?b) + spans_in (sp_parent s) (l1 @ s # l2) = mset xs + mset ys"
    by (auto simp: block_inv_def)
  obtain l3 l4 where l2: "l2 = l3 @ t # l4" using t by (meson split_list)
  have "{#(sp_offset s, sp_size s), (sp_offset t, sp_size t)#} \<subseteq># mset (xs @ ys)"
    unfolding mset_append l(2) [symmetric] using True by (simp add: l2)
  from sorted_wrt_two [OF layout_sorted [OF l(1)] this] show ?thesis
    using True by (auto simp: disjoint_spans_def span_addr_def)
next
  case False
  have s: "sp_parent s \<in> set (mp_active p)" "sp_offset s + sp_size s \<le> mb_nalloc (block_at p (sp_parent s))"
    and u: "sp_parent t \<in> set (mp_active p)" "sp_offset t + sp_size t \<le> mb_nalloc (block_at p (sp_parent t))"
    using pool_inv_span [OF p, of s] pool_inv_span [OF p, of t] t by simp_all
  then have "disjoint_spans (storage p (sp_parent s)) (storage p (sp_parent t))" using p False by (auto simp: pool_inv_def)
  then show ?thesis using s(2) u(2) by (auto simp: disjoint_spans_def storage_def span_addr_def)
qed

section \<open>Release in the order of reservation\<close>

text \<open>
  When spans are only released in the order in which they were reserved, as the elements of the send queue are,
  each release is at the start of its block, so no dealloc queue is ever created.
\<close>

definition spans_of :: "nat \<Rightarrow> nb_SPAN list \<Rightarrow> (nat \<times> nat) list" where
  "spans_of a live = map (\<lambda>s. (sp_offset s, sp_size s)) (filter (\<lambda>s. sp_parent s = a) live)"

definition fifo_block :: "nb_MBLOCK \<Rightarrow> (nat \<times> nat) list \<Rightarrow> bool" where
  "fifo_block b spans \<longleftrightarrow> mb_deallocs b = None \<and> (\<exists>xs ys. layout b xs ys \<and> xs \<noteq> [] \<and> xs @ ys = rev spans)"

definition pool_fifo :: "nb_MBPOOL \<Rightarrow> nb_SPAN list \<Rightarrow> bool" where
  "pool_fifo p live \<longleftrightarrow> (\<forall>a \<in> set (mp_active p). fifo_block (block_at p a) (spans_of a live))"

lemma spans_of_simps [simp]:
  "spans_of a [] = []"
  "spans_of a (s # live) = (if sp_parent s = a then (sp_offset s, sp_size s) # spans_of a live else spans_of a live)"
  "spans_of a (l1 @ l2) = spans_of a l1 @ spans_of a l2"
  by (simp_all add: spans_of_def)

lemma spans_of_none: "\<forall>s \<in> set live. sp_parent s \<noteq> a \<Longrightarrow> spans_of a live = []"
  by (simp add: spans_of_def)

lemma alloc_new_block_shape:
  assumes "alloc_new_block env p sz = Inr (p', r)"
  shows "mp_active p' = mp_active p \<and> (case r of
      None \<Rightarrow> \<forall>x. mp_blocks p x \<noteq> None \<and> 0 < mb_nalloc (block_at p x) \<longrightarrow> block_at p' x = block_at p x
    | Some a \<Rightarrow> (\<forall>x. x \<noteq> a \<longrightarrow> block_at p' x = block_at p x) \<and> mp_blocks p' a \<noteq> None)"
proof (cases "free_cacheblock p")
  case None
  then show ?thesis
    using assms by (auto simp: alloc_new_block_def mblock_is_standalone_def mblock_zero_def split: option.splits if_splits)
next
  case (Some c)
  then have "\<exists>b. mp_blocks p c = Some b \<and> mb_nalloc b = 0"
    by (auto simp: free_cacheblock_def find_Some_iff split: option.splits)
  then have "mb_nalloc (block_at p c) = 0" by (auto simp: block_at_def)
  then show ?thesis
    using assms Some by (auto simp: alloc_new_block_def split: option.splits if_splits)
qed

lemma reserve_empty_block_shape:
  assumes "reserve_empty_block env p sz = Inr (p', r)"
  shows "case r of
      None \<Rightarrow> mp_active p' = mp_active p \<and> (\<forall>x. mp_blocks p x \<noteq> None \<and> 0 < mb_nalloc (block_at p x) \<longrightarrow> block_at p' x = block_at p x)
    | Some s \<Rightarrow> sp_offset s = 0 \<and> sp_size s = sz \<and> mp_active p' = mp_active p @ [sp_parent s] \<and>
        (\<forall>x. x \<noteq> sp_parent s \<longrightarrow> block_at p' x = block_at p x) \<and>
        mb_start (block_at p' (sp_parent s)) = 0 \<and> mb_wrap (block_at p' (sp_parent s)) = sz \<and>
        mb_cursor (block_at p' (sp_parent s)) = sz \<and> mb_deallocs (block_at p' (sp_parent s)) = None"
proof -
  obtain p1 found p2 block where 1: "find_free_block p sz = Inr (p1, found)"
    and 2: "(case found of Some a \<Rightarrow> Inr (p1, Some a) | None \<Rightarrow> alloc_new_block env p1 sz) = Inr (p2, block)"
    and 3: "(case block of
         None \<Rightarrow> Inr (p2, None)
       | Some a \<Rightarrow>
           res_bind (mb_deref p2 a) (\<lambda>b.
             Inr ((mb_store p2 a (b\<lparr>mb_start := 0, mb_wrap := sz, mb_cursor := sz, mb_deallocs := None\<rparr>))
                    \<lparr>mp_active := mp_active p2 @ [a]\<rparr>,
                  Some \<lparr>sp_parent = a, sp_offset = 0, sp_size = sz\<rparr>))) = Inr (p', r)"
    using assms by (auto simp: reserve_empty_block_def elim!: res_bind_InrE)
  have p1: "mp_active p1 = mp_active p" "mp_blocks p1 = mp_blocks p"
    using 1 by (auto simp: find_free_block_def elim!: res_bind_InrE split: option.splits)
  then have at: "block_at p1 = block_at p" by (simp add: block_at_def fun_eq_iff)
  have p2: "mp_active p2 = mp_active p \<and> (case block of
      None \<Rightarrow> \<forall>x. mp_blocks p x \<noteq> None \<and> 0 < mb_nalloc (block_at p x) \<longrightarrow> block_at p2 x = block_at p x
    | Some a \<Rightarrow> \<forall>x. x \<noteq> a \<longrightarrow> block_at p2 x = block_at p x)"
    using 2 p1 at alloc_new_block_shape [of env p1 sz p2 block] by (cases found; cases block) auto
  show ?thesis
    using 3 p2 by (cases block) (auto simp: block_at_active elim!: res_bind_InrE)
qed

lemma pool_fifo_grow:
  assumes p: "pool_inv p live" "pool_fifo p live" and p': "pool_inv p' (s # live)"
    and e: "sp_offset s = 0" "mp_active p' = mp_active p @ [sp_parent s]" "\<forall>x. x \<noteq> sp_parent s \<longrightarrow> block_at p' x = block_at p x"
      "mb_start (block_at p' (sp_parent s)) = 0" "mb_wrap (block_at p' (sp_parent s)) = sp_size s"
      "mb_cursor (block_at p' (sp_parent s)) = sp_size s" "mb_deallocs (block_at p' (sp_parent s)) = None"
  shows "pool_fifo p' (s # live)"
proof -
  let ?a = "sp_parent s"
  have a: "?a \<notin> set (mp_active p)" using p' e(2) by (simp add: pool_inv_def)
  then have none: "spans_of ?a live = []" using p(1) by (intro spans_of_none) (auto simp: pool_inv_def)
  have "block_inv (block_at p' ?a) (spans_in ?a (s # live))" "0 < sp_size s"
    using p' e(2) pool_inv_span [OF p', of s] by (simp_all add: pool_inv_def)
  then have "mb_wrap (block_at p' ?a) \<le> mb_nalloc (block_at p' ?a)" "mb_nalloc (block_at p' ?a) < 2 ^ 32" "0 < sp_size s"
    by (auto simp: block_inv_def layout_def)
  then have "layout (block_at p' ?a) [(0, sp_size s)] []" using e(4-6) by (simp add: layout_def)
  then have "fifo_block (block_at p' ?a) (spans_of ?a (s # live))"
    unfolding fifo_block_def using e(1,7) none by (intro conjI exI [of _ "[(0, sp_size s)]"] exI [of _ "[]"]) simp_all
  moreover have "fifo_block (block_at p' x) (spans_of x (s # live))" if "x \<in> set (mp_active p)" for x
    using that a p(2) e(3) unfolding pool_fifo_def by (metis spans_of_simps(2))
  ultimately show ?thesis unfolding pool_fifo_def e(2) by auto
qed

lemma mblock_reserve_data_fifo:
  assumes env: "mb_env_ok env" and p: "pool_inv p live" "pool_fifo p live" and sz: "0 < sz" "sz \<le> 2 ^ 31"
    and r: "mblock_reserve_data env p sz = Inr (p', r)"
  shows "case r of None \<Rightarrow> pool_fifo p' live | Some s \<Rightarrow> pool_fifo p' (s # live)"
proof -
  have inv: "case r of None \<Rightarrow> pool_inv p' live | Some s \<Rightarrow> pool_inv p' (s # live)"
    using mblock_reserve_data_inv [OF env p(1) sz] r by (auto split: option.splits)
  have old: "mp_blocks p x \<noteq> None \<and> 0 < mb_nalloc (block_at p x)" if "x \<in> set (mp_active p)" for x
    using pool_inv_blocks(1) [OF p(1)] that by blast
  have empty: ?thesis if e: "reserve_empty_block env p sz = Inr (p', r)"
  proof (cases r)
    case None
    then show ?thesis using reserve_empty_block_shape [OF e] p(2) old by (simp add: pool_fifo_def)
  next
    case (Some s)
    then show ?thesis using reserve_empty_block_shape [OF e] pool_fifo_grow [OF p, of p' s] inv by simp
  qed
  show ?thesis
  proof (cases "mp_active p = []")
    case True
    then show ?thesis using empty r by (simp add: mblock_reserve_data_def)
  next
    case False
    define a where "a = last (mp_active p)"
    have a: "a \<in> set (mp_active p)" "mp_blocks p a \<noteq> None" using False old by (simp_all add: a_def)
    show ?thesis
    proof (cases "reserve_active_block (block_at p a) sz")
      case None
      then show ?thesis using empty r False a by (simp add: mblock_reserve_data_def a_def [symmetric] mb_deref_at Let_def)
    next
      case (Some bo)
      obtain b off where bo: "bo = (b, off)" by (cases bo)
      have e: "p' = mb_store p a b" "r = Some \<lparr>sp_parent = a, sp_offset = off, sp_size = sz\<rparr>"
        using r False a Some by (simp_all add: mblock_reserve_data_def a_def [symmetric] mb_deref_at Let_def bo)
      obtain xs ys where l: "layout (block_at p a) xs ys" "xs \<noteq> []" "xs @ ys = rev (spans_of a live)" "mb_deallocs (block_at p a) = None"
        using p(2) a(1) by (auto simp: pool_fifo_def fifo_block_def)
      obtain xs' ys' where l': "layout b xs' ys'" "xs' \<noteq> []" "xs' @ ys' = xs @ ys @ [(off, sz)]" "mb_deallocs b = None"
        using reserve_active_block_layout [OF l(1,2) sz Some [unfolded bo]] l(4) by auto
      have "xs' @ ys' = rev (spans_of a live) @ [(off, sz)]" using l'(3) l(3) by (metis append.assoc)
      then have "fifo_block b ((off, sz) # spans_of a live)" using l'(1,2,4) by (auto simp: fifo_block_def)
      then show ?thesis using p(2) by (auto simp: e pool_fifo_def)
    qed
  qed
qed

lemma retire_block_shape:
  assumes "retire_block env (mb_store p a b) a = Inr p'"
  shows "mp_active p' = remove1 a (mp_active p) \<and> (\<forall>x. x \<noteq> a \<longrightarrow> block_at p' x = block_at p x)"
  using assms
  by (auto simp: retire_block_def mblock_wipe_block_def Let_def block_at_def mb_store_def elim!: res_bind_InrE split: if_splits)

lemma mblock_release_fifo:
  assumes p: "pool_inv p (l @ [s])" and fifo: "pool_fifo p (l @ [s])"
  shows "\<exists>p'. mblock_release_ptr env p (span_addr p s) (sp_size s) = Inr p' \<and> pool_inv p' l \<and> roots_kept p p' \<and> pool_fifo p' l"
proof -
  let ?a = "sp_parent s" and ?b = "block_at p (sp_parent s)"
  have a: "?a \<in> set (mp_active p)" "mp_blocks p ?a \<noteq> None" "distinct (mp_active p)" using p by (auto simp: pool_inv_def)
  obtain xs ys where l: "layout ?b xs ys" "xs \<noteq> []" "xs @ ys = (sp_offset s, sp_size s) # rev (spans_of ?a l)" "mb_deallocs ?b = None"
    using fifo a(1) by (auto simp: pool_fifo_def fifo_block_def)
  then obtain xs1 where x1: "xs = (sp_offset s, sp_size s) # xs1" "xs1 @ ys = rev (spans_of ?a l)" by (cases xs) auto
  then have off: "sp_offset s = mb_start ?b" using l(1) by (simp add: layout_def)
  define b1 where "b1 = ?b\<lparr>mb_start := mb_start ?b + sp_size s\<rparr>"
  have b1: "uadd 32 (mb_start ?b) (sp_size s) = mb_start ?b + sp_size s" "layout b1 xs1 ys" "slack b1 ys"
    using drop_front [OF l(1), of "sp_size s"] x1(1) off by (auto simp: b1_def)
  obtain xs3 ys3 where x3: "layout (maybe_unwrap_block b1) xs3 ys3" "slack (maybe_unwrap_block b1) ys3" "xs3 @ ys3 = xs1 @ ys"
    "xs3 = [] \<longrightarrow> ys3 = []" using maybe_unwrap_layout [OF b1(2,3)] by blast
  have front: "release_front env p ?a ?b (sp_size s) = Inr (maybe_unwrap_block b1)"
    using l(4) b1(1) by (simp add: release_front_def b1_def)
  have run: "mblock_release_data env p ?a (sp_size s) (sp_offset s) =
      (if BLOCK_IS_EMPTY (maybe_unwrap_block b1) then retire_block env (mb_store p ?a (maybe_unwrap_block b1)) ?a
       else Inr (mb_store p ?a (maybe_unwrap_block b1)))"
    using a(2) off front by (simp add: mblock_release_data_def mb_deref_at Let_def)
  obtain p' where p': "mblock_release_data env p ?a (sp_size s) (sp_offset s) = Inr p'"
    using mblock_release_data_ends [of p l s "[]" env] p l(4) off by auto
  have inv: "pool_inv p' l" "roots_kept p p'" using runs_result [OF mblock_release_data_inv [of p l s "[]" env] p'] p by simp_all
  have others: "fifo_block (block_at p x) (spans_of x l)" if "x \<in> set (mp_active p)" "x \<noteq> ?a" for x
    using fifo that by (auto simp: pool_fifo_def)
  have "pool_fifo p' l"
  proof (cases "BLOCK_IS_EMPTY (maybe_unwrap_block b1)")
    case True
    then have "retire_block env (mb_store p ?a (maybe_unwrap_block b1)) ?a = Inr p'" using run p' by simp
    from retire_block_shape [OF this] show ?thesis using others a(3) by (auto simp: pool_fifo_def)
  next
    case False
    then have "xs3 \<noteq> []" using layout_empty [OF x3(1,2,4)] by simp
    moreover have "mb_deallocs (maybe_unwrap_block b1) = None" using maybe_unwrap_same(2) [of b1] l(4) by (simp add: b1_def)
    ultimately have "fifo_block (maybe_unwrap_block b1) (spans_of ?a l)" using x3(1,3) x1(2) by (auto simp: fifo_block_def)
    moreover have "p' = mb_store p ?a (maybe_unwrap_block b1)" using False run p' by simp
    ultimately show ?thesis using others by (auto simp: pool_fifo_def)
  qed
  then show ?thesis using p' inv mblock_release_ptr_data [of p l s "[]" env] p by simp
qed

section \<open>Runs of the allocator\<close>

definition fresh_pool :: "nat \<Rightarrow> nat list \<Rightarrow> nb_MBPOOL" where
  "fresh_pool basealloc cache =
     mblock_init cache
       \<lparr>mp_blocks = (\<lambda>_. None), mp_active = [], mp_avail = [], mp_basealloc = basealloc, mp_maxblocks = 0,
        mp_curblocks = 0, mp_cacheblocks = [], mp_ncacheblocks = length cache\<rparr>"

text \<open>Spans are reserved and released in any order; \<open>live\<close> lists the spans in use, the latest first.\<close>

inductive mb_reach :: "mb_env \<Rightarrow> nb_MBPOOL \<Rightarrow> nb_MBPOOL \<Rightarrow> nb_SPAN list \<Rightarrow> bool" for env p0 where
  mb_start: "mb_reach env p0 p0 []"
| mb_reserve: "mb_reach env p0 p live \<Longrightarrow> 0 < sz \<Longrightarrow> sz \<le> 2 ^ 31 \<Longrightarrow>
    mblock_reserve_data env p sz = Inr (p', Some s) \<Longrightarrow> mb_reach env p0 p' (s # live)"
| mb_no_memory: "mb_reach env p0 p live \<Longrightarrow> 0 < sz \<Longrightarrow> sz \<le> 2 ^ 31 \<Longrightarrow>
    mblock_reserve_data env p sz = Inr (p', None) \<Longrightarrow> mb_reach env p0 p' live"
| mb_release: "mb_reach env p0 p (l1 @ s # l2) \<Longrightarrow>
    mblock_release_data env p (sp_parent s) (sp_size s) (sp_offset s) = Inr p' \<Longrightarrow> mb_reach env p0 p' (l1 @ l2)"

lemma fresh_pool_inv: "0 < base \<Longrightarrow> base < 2 ^ 32 \<Longrightarrow> pool_inv (fresh_pool base cache) []"
  by (auto simp: fresh_pool_def mblock_init_def Let_def pool_inv_def block_at_def mblock_zero_def umul_def)

lemma mb_reach_inv:
  assumes "mb_reach env p0 p live" and "mb_env_ok env" and "pool_inv p0 []"
  shows "pool_inv p live"
  using assms(1)
proof induction
  case (mb_reserve p live sz p' s)
  then show ?case using mblock_reserve_data_inv [OF assms(2) mb_reserve.IH mb_reserve.hyps(2,3)] by auto
next
  case (mb_no_memory p live sz p')
  then show ?case using mblock_reserve_data_inv [OF assms(2) mb_no_memory.IH mb_no_memory.hyps(2,3)] by auto
next
  case (mb_release p l1 s l2 p')
  then show ?case using runs_result [OF mblock_release_data_inv [OF mb_release.IH]] by blast
qed (rule assms(3))


text \<open>A library that supplies one block header and one storage area.\<close>

definition one_block_env :: mb_env where
  "one_block_env =
     \<lparr>env_block = (\<lambda>p. if mp_blocks p 0 = None then Some 0 else None),
      env_root = (\<lambda>p n. if mp_active p = [] \<and> mp_avail p = [] then Some 4096 else None),
      env_queue = (\<lambda>p a op. None)\<rparr>"

definition one_block :: "nat \<Rightarrow> nat \<Rightarrow> nb_DEALLOC_QUEUE option \<Rightarrow> nb_MBLOCK" where
  "one_block start cursor q =
     \<lparr>mb_start = start, mb_wrap = cursor, mb_cursor = cursor, mb_nalloc = 64, mb_root = 4096, mb_deallocs = q, mb_parent = False\<rparr>"

definition one_block_pool :: "nb_MBLOCK \<Rightarrow> nb_MBPOOL" where
  "one_block_pool b = (mb_store (fresh_pool 64 []) 0 b)\<lparr>mp_active := [0]\<rparr>"

definition span0 :: "nat \<Rightarrow> nb_SPAN" where
  "span0 off = \<lparr>sp_parent = 0, sp_offset = off, sp_size = 10\<rparr>"

lemma one_block_env_ok: "mb_env_ok one_block_env"
  by (auto simp: mb_env_ok_def one_block_env_def split: if_splits)

lemma one_block_pool_simps [simp]:
  "mp_active (one_block_pool b) = [0]" "mb_deref (one_block_pool b) 0 = Inr b"
  "mb_store (one_block_pool b) 0 c = one_block_pool c"
  by (simp_all add: one_block_pool_def mb_deref_def mb_store_def)

lemma one_block_first: "mblock_reserve_data one_block_env (fresh_pool 64 []) 10 = Inr (one_block_pool (one_block 0 10 None), Some (span0 0))"
proof -
  have g: "mb_grow 64 10 = Some 64" by (subst mb_grow.simps) simp
  show ?thesis
    by (simp add: mblock_reserve_data_def fresh_pool_def mblock_init_def Let_def reserve_empty_block_def find_free_block_def
        alloc_new_block_def free_cacheblock_def one_block_env_def g mb_deref_def mb_store_def one_block_pool_def one_block_def
        mblock_zero_def span0_def)
qed

lemma one_block_next:
  assumes "cursor + 10 \<le> 64" and "start < cursor"
  shows "mblock_reserve_data one_block_env (one_block_pool (one_block start cursor None)) 10 =
    Inr (one_block_pool (one_block start (cursor + 10) None), Some (span0 cursor))"
proof -
  have "10 \<le> 64 - cursor" using assms by linarith
  then show ?thesis
    using assms by (simp add: mblock_reserve_data_def reserve_active_block_def BLOCK_HAS_DEALLOCS_def one_block_def
        usub_nowrap uadd_nowrap span0_def Let_def)
qed

lemma one_block_reach: 
  "mb_reach one_block_env (fresh_pool 64 []) (one_block_pool (one_block 0 40 None)) [span0 30, span0 20, span0 10, span0 0]"
proof -
  note r = mb_reserve [where env = one_block_env and ?p0.0 = "fresh_pool 64 []" and sz = 10]
  have "mb_reach one_block_env (fresh_pool 64 []) (one_block_pool (one_block 0 10 None)) [span0 0]"
    by (rule r [OF mb_start _ _ one_block_first]) simp_all
  from r [OF this _ _ one_block_next] have
    "mb_reach one_block_env (fresh_pool 64 []) (one_block_pool (one_block 0 20 None)) [span0 10, span0 0]" by simp
  from r [OF this _ _ one_block_next] have
    "mb_reach one_block_env (fresh_pool 64 []) (one_block_pool (one_block 0 30 None)) [span0 20, span0 10, span0 0]" by simp
  from r [OF this _ _ one_block_next] show ?thesis by simp
qed


section \<open>A release order that leaks\<close>

text \<open>The spans of a list are released one after the other.\<close>

fun release_all :: "mb_env \<Rightarrow> nb_MBPOOL \<Rightarrow> nb_SPAN list \<Rightarrow> nb_MBPOOL res" where
  "release_all env p [] = Inr p"
| "release_all env p (s # ss) =
     res_bind (mblock_release_data env p (sp_parent s) (sp_size s) (sp_offset s)) (\<lambda>p'. release_all env p' ss)"

text \<open>A pool whose only block holds spans from \<open>start\<close> to \<open>cursor\<close> without wrapping around.\<close>

definition lone_block :: "nb_MBPOOL \<Rightarrow> nat \<Rightarrow> nb_MBLOCK \<Rightarrow> nat \<Rightarrow> nat \<Rightarrow> nb_DEALLOC_QUEUE option \<Rightarrow> nb_MBPOOL" where
  "lone_block p a b start cursor q = mb_store p a (b\<lparr>mb_start := start, mb_wrap := cursor, mb_cursor := cursor, mb_deallocs := q\<rparr>)"

lemma lone_block_simps [simp]:
  "mb_deref (lone_block p a b start cursor q) a = Inr (b\<lparr>mb_start := start, mb_wrap := cursor, mb_cursor := cursor, mb_deallocs := q\<rparr>)"
  "mp_active (lone_block p a b start cursor q) = mp_active p"
  "mb_store (lone_block p a b start cursor q) a c = mb_store p a c"
  "block_at (lone_block p a b start cursor q) a = b\<lparr>mb_start := start, mb_wrap := cursor, mb_cursor := cursor, mb_deallocs := q\<rparr>"
  by (simp_all add: lone_block_def mb_deref_def) (simp add: mb_store_def)

lemma lone_block_first:
  assumes "mblock_reserve_data env (fresh_pool base cache) n = Inr (p, Some s)" and "n \<le> base"
  shows "\<exists>a b. s = \<lparr>sp_parent = a, sp_offset = 0, sp_size = n\<rparr> \<and> p = lone_block p a b 0 n None \<and> mp_active p = [a] \<and> mb_nalloc b = base"
proof -
  have g: "mb_grow base n = Some base" using assms(2) by (subst mb_grow.simps) simp
  let ?p = "fresh_pool base cache"
  have f: "mp_active ?p = []" "mp_avail ?p = []" "mp_basealloc ?p = base" by (simp_all add: fresh_pool_def mblock_init_def Let_def)
  have "reserve_empty_block env ?p n = Inr (p, Some s)" using assms(1) f by (simp add: mblock_reserve_data_def)
  then obtain p2 a b where r: "alloc_new_block env ?p n = Inr (p2, Some a)" "mb_deref p2 a = Inr b"
    "p = (mb_store p2 a (b\<lparr>mb_start := 0, mb_wrap := n, mb_cursor := n, mb_deallocs := None\<rparr>))\<lparr>mp_active := mp_active p2 @ [a]\<rparr>"
    "s = \<lparr>sp_parent = a, sp_offset = 0, sp_size = n\<rparr>"
    by (auto simp: reserve_empty_block_def find_free_block_def f elim!: res_bind_InrE split: option.splits)
  have "mb_nalloc b = base" "mp_active p2 = []"
    using r(1,2) f g by (auto simp: alloc_new_block_def mb_deref_def split: option.splits)
  then show ?thesis using r(3,4) by (intro exI [of _ a] exI [of _ b]) (simp add: lone_block_def mb_store_def)
qed

lemma lone_block_next:
  assumes "mp_active p = [a]" and "cursor + n \<le> mb_nalloc b" and "start < cursor" and "mb_nalloc b < 2 ^ 32"
  shows "mblock_reserve_data env (lone_block p a b start cursor None) n =
    Inr (lone_block p a b start (cursor + n) None, Some \<lparr>sp_parent = a, sp_offset = cursor, sp_size = n\<rparr>)"
proof -
  have "n \<le> mb_nalloc b - cursor" using assms(2) by linarith
  then show ?thesis
    using assms by (cases b) (simp add: mblock_reserve_data_def reserve_active_block_def BLOCK_HAS_DEALLOCS_def usub_nowrap uadd_nowrap Let_def,
      simp add: lone_block_def)
qed

lemma lone_block_ooo:
  assumes "\<forall>op. env_queue env (lone_block p a b start cursor q) a op = None" and "off \<noteq> start" "off + n \<noteq> cursor" "off + n < 2 ^ 32"
  shows "mblock_release_data env (lone_block p a b start cursor q) a n off =
    Inr (lone_block p a b start cursor
      (Some (case q of None \<Rightarrow> \<lparr>q_pending = [(off, n)], q_min_offset = off\<rparr>
         | Some r \<Rightarrow> \<lparr>q_pending = q_pending r @ [(off, n)],
             q_min_offset = (if q_pending r = [] \<or> off < q_min_offset r then off else q_min_offset r)\<rparr>)))"
  using assms
  by (cases q) (simp_all add: mblock_release_data_def uadd_nowrap ooo_queue_dealoc_def qpool_call_def queue_span_def Let_def,
    simp_all add: lone_block_def)

lemma lone_block_front:
  assumes "start + n < cursor" "cursor < 2 ^ 32"
  shows "mblock_release_data env (lone_block p a b start cursor None) a n start = Inr (lone_block p a b (start + n) cursor None)"
  using assms by (cases b) (simp add: mblock_release_data_def uadd_nowrap release_front_def maybe_unwrap_block_def BLOCK_IS_EMPTY_def Let_def,
    simp add: lone_block_def)

lemma lone_block_last:
  assumes "start + n = cursor" "cursor < 2 ^ 32"
  shows "\<exists>p'. mblock_release_data env (lone_block p a b start cursor None) a n start = Inr p' \<and> mp_active p' = remove1 a (mp_active p)"
proof -
  define b' where "b' = b\<lparr>mb_start := cursor, mb_wrap := cursor, mb_cursor := cursor, mb_deallocs := None\<rparr>"
  have "mblock_release_data env (lone_block p a b start cursor None) a n start = retire_block env (mb_store p a b') a"
    using assms by (cases b) (simp add: mblock_release_data_def uadd_nowrap release_front_def maybe_unwrap_block_def BLOCK_IS_EMPTY_def
        Let_def b'_def)
  moreover have "\<exists>p'. retire_block env (mb_store p a b') a = Inr p'"
    by (auto simp: retire_block_def mblock_wipe_block_def mb_deref_def b'_def Let_def)
  ultimately show ?thesis using retire_block_shape by metis
qed

text \<open>
  The queue of two spans that were released against their order: the pass over it that the release of the
  first span starts takes only the one that was queued last.
\<close>

lemma lone_block_apply:
  assumes "\<forall>op. env_queue env (lone_block p a b 0 cursor q) a op = None"
    and "q = Some \<lparr>q_pending = [(n1 + n2, n3), (n1, n2)], q_min_offset = n1\<rparr>"
    and "0 < n1" "0 < n2" "0 < n3" "n1 + n2 + n3 < cursor" "cursor < 2 ^ 32"
  shows "mblock_release_data env (lone_block p a b 0 cursor q) a n1 0 =
    Inr (lone_block p a b (n1 + n2) cursor (Some \<lparr>q_pending = [(n1 + n2, n3)], q_min_offset = n1 + n2\<rparr>))"
  using assms
  by (cases b) (simp add: mblock_release_data_def uadd_nowrap release_front_def ooo_apply_dealloc_def qpool_call_def maybe_unwrap_block_def
      BLOCK_IS_EMPTY_def Let_def, simp add: lone_block_def)

text \<open>
  \<^bold>\<open>C31\<close>. A leak of the out-of-order release. Four spans of any sizes are reserved in a new pool whose block has room for
  all of them, and all four are released: the third, the second, the first, the fourth. No span is in use any
  more, but the block stays in the active list and the pool is reported as not clean: the dealloc queue still
  holds the third span, at the very offset where the block now starts. The single pass of \<open>ooo_apply_dealloc\<close>
  visits the third span before the second one has moved the start to it, and nothing starts another pass.
  Released in the order of reservation, the same spans leave a clean pool. It holds for every environment that
  supplies the first block and the storage of the queue.
\<close>

theorem mblock_release_order_leaks:
  assumes "0 < n1" "0 < n2" "0 < n3" "0 < n4" and "n1 + n2 + n3 + n4 \<le> base" and "base < 2 ^ 32"
    and "mblock_reserve_data env (fresh_pool base cache) n1 = Inr (p1, Some s1)"
    and "\<forall>p a op. env_queue env p a op = None"
  shows "\<exists>p2 s2 p3 s3 p4 s4.
    mblock_reserve_data env p1 n2 = Inr (p2, Some s2) \<and> mblock_reserve_data env p2 n3 = Inr (p3, Some s3) \<and>
    mblock_reserve_data env p3 n4 = Inr (p4, Some s4) \<and>
    (\<exists>p. release_all env p4 [s3, s2, s1, s4] = Inr p \<and> mp_active p = [sp_parent s1] \<and>
       pending (block_at p (sp_parent s1)) = [(n1 + n2, n3)] \<and> mb_start (block_at p (sp_parent s1)) = n1 + n2 \<and>
       is_pool_clean p (mp_active p) = Inr False) \<and>
    (\<exists>p. release_all env p4 [s1, s2, s3, s4] = Inr p \<and> mp_active p = [] \<and> is_pool_clean p (mp_active p) = Inr True)"
proof -
  obtain a b where 1: "s1 = \<lparr>sp_parent = a, sp_offset = 0, sp_size = n1\<rparr>" "p1 = lone_block p1 a b 0 n1 None" "mp_active p1 = [a]"
    "mb_nalloc b = base"
    using lone_block_first [OF assms(7)] assms(5) by auto
  let ?L = "lone_block p1 a b" and ?N = "n1 + n2 + n3 + n4"
  let ?s = "\<lambda>off n. \<lparr>sp_parent = a, sp_offset = off, sp_size = n\<rparr>"
  have r: "mblock_reserve_data env p1 n2 = Inr (?L 0 (n1 + n2) None, Some (?s n1 n2))"
    "mblock_reserve_data env (?L 0 (n1 + n2) None) n3 = Inr (?L 0 (n1 + n2 + n3) None, Some (?s (n1 + n2) n3))"
    "mblock_reserve_data env (?L 0 (n1 + n2 + n3) None) n4 = Inr (?L 0 ?N None, Some (?s (n1 + n2 + n3) n4))"
    using lone_block_next [OF 1(3), of n1 n2 b 0 env] 1(2) lone_block_next [OF 1(3), of "n1 + n2" n3 b 0 env]
      lone_block_next [OF 1(3), of "n1 + n2 + n3" n4 b 0 env] assms(1-6) 1(4) by simp_all
  let ?q = "\<lambda>qs m. Some \<lparr>q_pending = qs, q_min_offset = m\<rparr>"
  have e: "mblock_release_data env (?L (n1 + n2) ?N (?q [(n1 + n2, n3)] (n1 + n2))) a n4 (n1 + n2 + n3) =
      Inr (?L (n1 + n2) (n1 + n2 + n3) (?q [(n1 + n2, n3)] (n1 + n2)))"
    using assms(1-6) by (cases b) (simp add: mblock_release_data_def uadd_nowrap usub_nowrap release_end_def BLOCK_IS_EMPTY_def Let_def,
      simp add: lone_block_def)
  have leak: "release_all env (?L 0 ?N None) [?s (n1 + n2) n3, ?s n1 n2, s1, ?s (n1 + n2 + n3) n4] =
      Inr (?L (n1 + n2) (n1 + n2 + n3) (?q [(n1 + n2, n3)] (n1 + n2)))"
    using assms(1-6,8) e lone_block_ooo [of env p1 a b 0 ?N None "n1 + n2" n3]
      lone_block_ooo [of env p1 a b 0 ?N "?q [(n1 + n2, n3)] (n1 + n2)" n1 n2]
      lone_block_apply [of env p1 a b ?N "?q [(n1 + n2, n3), (n1, n2)] n1" n1 n2 n3]
    by (simp add: 1(1))
  have clean: "is_pool_clean (?L (n1 + n2) (n1 + n2 + n3) (?q [(n1 + n2, n3)] (n1 + n2))) [a] = Inr False"
    using assms(3) by (simp add: BLOCK_IS_EMPTY_def)
  obtain p where p: "mblock_release_data env (?L (n1 + n2 + n3) ?N None) a n4 (n1 + n2 + n3) = Inr p" "mp_active p = []"
    using lone_block_last [of "n1 + n2 + n3" n4 ?N env p1 a b] assms(5,6) 1(3) by auto
  have fifo: "release_all env (?L 0 ?N None) [s1, ?s n1 n2, ?s (n1 + n2) n3, ?s (n1 + n2 + n3) n4] = Inr p"
    using assms(1-6) p(1) lone_block_front [of 0 n1 ?N env p1 a b] lone_block_front [of n1 n2 ?N env p1 a b]
      lone_block_front [of "n1 + n2" n3 ?N env p1 a b] by (simp add: 1(1))
  show ?thesis
  proof (intro exI conjI)
    show "mblock_reserve_data env p1 n2 = Inr (?L 0 (n1 + n2) None, Some (?s n1 n2))" by (rule r(1))
    show "mblock_reserve_data env (?L 0 (n1 + n2) None) n3 = Inr (?L 0 (n1 + n2 + n3) None, Some (?s (n1 + n2) n3))" by (rule r(2))
    show "mblock_reserve_data env (?L 0 (n1 + n2 + n3) None) n4 = Inr (?L 0 ?N None, Some (?s (n1 + n2 + n3) n4))" by (rule r(3))
    show "release_all env (?L 0 ?N None) [?s (n1 + n2) n3, ?s n1 n2, s1, ?s (n1 + n2 + n3) n4] =
      Inr (?L (n1 + n2) (n1 + n2 + n3) (?q [(n1 + n2, n3)] (n1 + n2)))" by (rule leak)
    show "release_all env (?L 0 ?N None) [s1, ?s n1 n2, ?s (n1 + n2) n3, ?s (n1 + n2 + n3) n4] = Inr p" by (rule fifo)
  qed (use clean 1(1,3) p(2) in \<open>simp_all add: pending_def\<close>)
qed

theorem mblock_release_order_leaks_witness:
  "\<exists>p1 s1 p2 s2 p3 s3 p4 s4 p.
     mblock_reserve_data one_block_env (fresh_pool 64 []) 10 = Inr (p1, Some s1) \<and>
     mblock_reserve_data one_block_env p1 5 = Inr (p2, Some s2) \<and> mblock_reserve_data one_block_env p2 20 = Inr (p3, Some s3) \<and>
     mblock_reserve_data one_block_env p3 29 = Inr (p4, Some s4) \<and>
     release_all one_block_env p4 [s3, s2, s1, s4] = Inr p \<and> is_pool_clean p (mp_active p) = Inr False"
  using mblock_release_order_leaks [of 10 5 20 29 64 one_block_env "[]"] one_block_first
  by (simp add: one_block_env_def) blast

end
