(* ===== verification/Netbuf_Sendq.thy ===== *)
theory Netbuf_Sendq
  imports Netbuf_Pool
begin

text \<open>
  The send queue of \<open>src/netbuf/netbuf.c\<close>: windows of memory are queued in order, handed out to the network
  layer as vectors of buffers by \<open>netbuf_start_flush\<close>, and removed by \<open>netbuf_end_flush\<close> once the network layer
  has written them. The elements of the queue live in spans of the block allocator of \<open>Netbuf_Pool\<close>; an
  element is identified by its address. The queue itself and the list of PDUs are HOL lists.
\<close>

section \<open>Types\<close>

record nb_SETTINGS =
  sndq_cacheblocks :: nat
  sndq_basealloc :: nat
  dea_cacheblocks :: nat
  dea_basealloc :: nat
  data_cacheblocks :: nat
  data_basealloc :: nat

record nb_IOV =
  iov_base :: nat
  iov_len :: nat

record nb_SNDQELEM =
  se_addr :: nat
  se_base :: nat
  se_len :: nat
  se_parent :: nat

record nb_SENDQ =
  sq_pending :: "nb_SNDQELEM list"
  sq_pdus :: "nat list"
  sq_last_requested :: "nat option"
  sq_last_offset :: nat
  sq_pdu_offset :: nat
  sq_elempool :: nb_MBPOOL

record nb_MGR =
  mgr_sendq :: nb_SENDQ
  mgr_datapool :: nb_MBPOOL
  mgr_settings :: nb_SETTINGS

definition SNDQELEM_size :: nat where
  "SNDQELEM_size = 32"

definition NETBUF_INVALID_OFFSET :: nat where
  "NETBUF_INVALID_OFFSET = 2 ^ 32 - 1"

definition SPAN_MBUFFER_NC :: "nb_MBPOOL \<Rightarrow> nb_SPAN \<Rightarrow> nat res" where
  "SPAN_MBUFFER_NC pool span = res_bind (mb_deref pool (sp_parent span)) (\<lambda>b. Inr (mb_root b + sp_offset span))"

definition SPAN_BUFFER :: "nb_MBPOOL \<Rightarrow> nb_SPAN \<Rightarrow> nat res" where
  "SPAN_BUFFER pool span =
     (if sp_offset span = NETBUF_INVALID_OFFSET then Inr (sp_parent span) else SPAN_MBUFFER_NC pool span)"

section \<open>Queueing\<close>

definition netbuf_get_niov :: "nb_MGR \<Rightarrow> nat" where
  "netbuf_get_niov mgr = length (sq_pending (mgr_sendq mgr)) mod 2 ^ 32"

definition get_sendqe :: "mb_env \<Rightarrow> nb_SENDQ \<Rightarrow> nb_IOV \<Rightarrow> (nb_SENDQ \<times> nb_SNDQELEM) res" where
  "get_sendqe env sq bufinfo =
     res_bind (mblock_reserve_data env (sq_elempool sq) SNDQELEM_size) (\<lambda>(pool, rv).
       case rv of
         None \<Rightarrow> Inl AssertFailed
       | Some span \<Rightarrow>
           res_bind (SPAN_MBUFFER_NC pool span) (\<lambda>addr.
             Inr (sq\<lparr>sq_elempool := pool\<rparr>,
                  \<lparr>se_addr = addr, se_base = iov_base bufinfo, se_len = iov_len bufinfo mod 2 ^ 32, se_parent = 0\<rparr>)))"

definition enqueue_new :: "mb_env \<Rightarrow> nb_SENDQ \<Rightarrow> nb_IOV \<Rightarrow> nat \<Rightarrow> nb_SENDQ res" where
  "enqueue_new env q bufinfo parent =
     res_bind (get_sendqe env q bufinfo) (\<lambda>(q1, win).
       Inr (q1\<lparr>sq_pending := sq_pending q1 @ [win\<lparr>se_parent := parent\<rparr>]\<rparr>))"

definition sendq_enqueue :: "mb_env \<Rightarrow> nb_SENDQ \<Rightarrow> nb_IOV \<Rightarrow> nat \<Rightarrow> nb_SENDQ res" where
  "sendq_enqueue env q bufinfo parent =
     (if sq_pending q = [] then enqueue_new env q bufinfo parent
      else
        let win = last (sq_pending q) in
        if se_base win + se_len win = iov_base bufinfo then
          Inr (q\<lparr>sq_pending := butlast (sq_pending q) @
                   [win\<lparr>se_len := uadd 32 (se_len win) (iov_len bufinfo), se_parent := parent\<rparr>]\<rparr>)
        else enqueue_new env q bufinfo parent)"

definition netbuf_enqueue :: "mb_env \<Rightarrow> nb_MGR \<Rightarrow> nb_IOV \<Rightarrow> nat \<Rightarrow> nb_MGR res" where
  "netbuf_enqueue env mgr bufinfo parent =
     res_bind (sendq_enqueue env (mgr_sendq mgr) bufinfo parent) (\<lambda>q. Inr (mgr\<lparr>mgr_sendq := q\<rparr>))"

definition netbuf_enqueue_span :: "mb_env \<Rightarrow> nb_MGR \<Rightarrow> nb_SPAN \<Rightarrow> nat \<Rightarrow> nb_MGR res" where
  "netbuf_enqueue_span env mgr span parent =
     res_bind (SPAN_BUFFER (mgr_datapool mgr) span) (\<lambda>base.
       netbuf_enqueue env mgr \<lparr>iov_base = base, iov_len = sp_size span\<rparr> parent)"

section \<open>Flushing\<close>

text \<open>The loop that fills the vector: the filled entries, the number of bytes, the last window used.\<close>

fun fill_iovs :: "nb_SNDQELEM list \<Rightarrow> nat \<Rightarrow> nat \<Rightarrow> nb_IOV list \<times> nat \<times> nb_SNDQELEM option" where
  "fill_iovs (e # es) (Suc room) ret =
     (case fill_iovs es room (uadd 32 ret (se_len e)) of
        (iovs, ret', win) \<Rightarrow>
          (\<lparr>iov_base = se_base e, iov_len = se_len e\<rparr> # iovs, ret', case win of None \<Rightarrow> Some e | Some w \<Rightarrow> Some w))"
| "fill_iovs _ _ ret = ([], ret, None)"

definition flush_from ::
  "nb_SENDQ \<Rightarrow> nb_IOV list \<Rightarrow> nb_SNDQELEM option \<Rightarrow> nb_SNDQELEM list \<Rightarrow> nat \<Rightarrow> nat \<Rightarrow> nb_SENDQ \<times> nb_IOV list \<times> nat" where
  "flush_from sq filled win0 es room ret0 =
     (case fill_iovs es room ret0 of
        (iovs, ret, win1) \<Rightarrow>
          (case (case win1 of None \<Rightarrow> win0 | Some w \<Rightarrow> Some w) of
             None \<Rightarrow> (sq, filled @ iovs, ret)
           | Some win \<Rightarrow> (sq\<lparr>sq_last_requested := Some (se_addr win), sq_last_offset := se_len win\<rparr>, filled @ iovs, ret)))"

definition sendq_start_flush :: "nb_SENDQ \<Rightarrow> nat \<Rightarrow> (nb_SENDQ \<times> nb_IOV list \<times> nat) res" where
  "sendq_start_flush sq niov =
     (case sq_last_requested sq of
        None \<Rightarrow> Inr (flush_from sq [] None (sq_pending sq) niov 0)
      | Some a \<Rightarrow>
          (case dropWhile (\<lambda>e. se_addr e \<noteq> a) (sq_pending sq) of
             [] \<Rightarrow> Inl NullPointer
           | win # rest \<Rightarrow>
               if sq_last_offset sq \<noteq> se_len win then
                 lcb_assert (sq_last_offset sq < se_len win)
                   (if niov = 0 then Inl OutOfBounds
                    else
                      let n = usub 32 (se_len win) (sq_last_offset sq) in
                      Inr (flush_from sq [\<lparr>iov_base = se_base win + sq_last_offset sq, iov_len = n\<rparr>] (Some win) rest (niov - 1) n))
               else Inr (flush_from sq [] None rest niov 0)))"

text \<open>The result of \<open>netbuf_start_flush\<close> and the value stored through \<open>nused\<close>, if one is stored.\<close>

definition netbuf_start_flush :: "nb_MGR \<Rightarrow> nat \<Rightarrow> (nb_MGR \<times> nb_IOV list \<times> nat \<times> nat option) res" where
  "netbuf_start_flush mgr niov =
     res_bind (sendq_start_flush (mgr_sendq mgr) niov) (\<lambda>(sq, iovs, ret).
       Inr (mgr\<lparr>mgr_sendq := sq\<rparr>, iovs, ret, if ret \<noteq> 0 then Some (length iovs) else None))"

definition netbuf_reset_flush :: "nb_MGR \<Rightarrow> nb_MGR" where
  "netbuf_reset_flush mgr = mgr\<lparr>mgr_sendq := (mgr_sendq mgr)\<lparr>sq_last_requested := None, sq_last_offset := 0\<rparr>\<rparr>"

definition window_flushed :: "mb_env \<Rightarrow> nb_SENDQ \<Rightarrow> nb_SNDQELEM \<Rightarrow> nb_SENDQ res" where
  "window_flushed env q win =
     res_bind (mblock_release_ptr env (sq_elempool q) (se_addr win) SNDQELEM_size) (\<lambda>pool.
       let q1 = q\<lparr>sq_elempool := pool\<rparr> in
       Inr (if sq_last_requested q1 = Some (se_addr win) then q1\<lparr>sq_last_requested := None, sq_last_offset := 0\<rparr> else q1))"

definition window_chopped :: "nb_SENDQ \<Rightarrow> nb_SNDQELEM \<Rightarrow> nat \<Rightarrow> nb_SENDQ" where
  "window_chopped q win to_chop =
     (if sq_last_requested q = Some (se_addr win) then q\<lparr>sq_last_offset := usub 32 (sq_last_offset q) to_chop\<rparr> else q)"

text \<open>The loop over the queue; the windows that stay and the bytes left over are returned.\<close>

fun end_flush_loop :: "mb_env \<Rightarrow> nb_SENDQ \<Rightarrow> nb_SNDQELEM list \<Rightarrow> nat \<Rightarrow> (nb_SENDQ \<times> nb_SNDQELEM list \<times> nat) res" where
  "end_flush_loop env q [] nflushed = Inr (q, [], nflushed)"
| "end_flush_loop env q (win # rest) nflushed =
     (let to_chop = (if se_len win < nflushed then se_len win else nflushed);
          len = usub 32 (se_len win) to_chop;
          n = usub 32 nflushed to_chop in
      if len = 0 then
        res_bind (window_flushed env q win) (\<lambda>q1.
          if n = 0 then Inr (q1, rest, n) else end_flush_loop env q1 rest n)
      else
        let q1 = window_chopped q win to_chop;
            win1 = win\<lparr>se_len := len, se_base := se_base win + to_chop\<rparr> in
        if n = 0 then Inr (q1, win1 # rest, n)
        else res_bind (end_flush_loop env q1 rest n) (\<lambda>(q2, rest', n'). Inr (q2, win1 # rest', n')))"

definition sendq_end_flush :: "mb_env \<Rightarrow> nb_SENDQ \<Rightarrow> nat \<Rightarrow> nb_SENDQ res" where
  "sendq_end_flush env q nflushed =
     res_bind (end_flush_loop env q (sq_pending q) nflushed) (\<lambda>(q1, rest, n).
       lcb_assert (n = 0) (Inr (q1\<lparr>sq_pending := rest\<rparr>)))"

definition netbuf_end_flush :: "mb_env \<Rightarrow> nb_MGR \<Rightarrow> nat \<Rightarrow> nb_MGR res" where
  "netbuf_end_flush env mgr nflushed =
     res_bind (sendq_end_flush env (mgr_sendq mgr) nflushed) (\<lambda>q. Inr (mgr\<lparr>mgr_sendq := q\<rparr>))"

definition netbuf_pdu_enqueue :: "nb_MGR \<Rightarrow> nat \<Rightarrow> nat \<Rightarrow> nb_MGR" where
  "netbuf_pdu_enqueue mgr pdu lloff =
     mgr\<lparr>mgr_sendq := (mgr_sendq mgr)\<lparr>sq_pdus := sq_pdus (mgr_sendq mgr) @ [pdu + lloff]\<rparr>\<rparr>"

text \<open>The size callback of the caller is an argument: the PDU and the bytes that remain.\<close>

fun pdu_loop :: "(nat \<Rightarrow> nat \<Rightarrow> nat) \<Rightarrow> nat \<Rightarrow> nat list \<Rightarrow> nat \<Rightarrow> nat list \<times> nat" where
  "pdu_loop callback lloff [] nflushed = ([], nflushed)"
| "pdu_loop callback lloff (p # ps) nflushed =
     (let cursize = callback (p - lloff) nflushed in
      if nflushed < cursize then (p # ps, nflushed)
      else
        let n = usub 32 nflushed cursize in
        if n = 0 then (ps, n) else pdu_loop callback lloff ps n)"

definition netbuf_end_flush2 :: "mb_env \<Rightarrow> nb_MGR \<Rightarrow> nat \<Rightarrow> (nat \<Rightarrow> nat \<Rightarrow> nat) \<Rightarrow> nat \<Rightarrow> nb_MGR res" where
  "netbuf_end_flush2 env mgr nflushed callback lloff =
     res_bind (netbuf_end_flush env mgr nflushed) (\<lambda>mgr1.
       let q = mgr_sendq mgr1 in
       case pdu_loop callback lloff (sq_pdus q) (uadd 32 nflushed (sq_pdu_offset q)) of
         (pdus, rest) \<Rightarrow> Inr (mgr1\<lparr>mgr_sendq := q\<lparr>sq_pdus := pdus, sq_pdu_offset := rest\<rparr>\<rparr>))"

section \<open>The manager\<close>

definition netbuf_mblock_reserve :: "mb_env \<Rightarrow> nb_MGR \<Rightarrow> nat \<Rightarrow> (nb_MGR \<times> nb_SPAN option) res" where
  "netbuf_mblock_reserve env mgr sz =
     res_bind (mblock_reserve_data env (mgr_datapool mgr) sz) (\<lambda>(pool, rv). Inr (mgr\<lparr>mgr_datapool := pool\<rparr>, rv))"

definition netbuf_mblock_release :: "mb_env \<Rightarrow> nb_MGR \<Rightarrow> nb_SPAN \<Rightarrow> nb_MGR res" where
  "netbuf_mblock_release env mgr span =
     res_bind (mblock_release_data env (mgr_datapool mgr) (sp_parent span) (sp_size span) (sp_offset span)) (\<lambda>pool.
       Inr (mgr\<lparr>mgr_datapool := pool\<rparr>))"

definition netbuf_mblock_get_next_size :: "nb_MGR \<Rightarrow> bool \<Rightarrow> nat res" where
  "netbuf_mblock_get_next_size mgr allow_wrap = mblock_get_next_size (mgr_datapool mgr) allow_wrap"

definition netbuf_default_settings :: nb_SETTINGS where
  "netbuf_default_settings =
     \<lparr>sndq_cacheblocks = 4, sndq_basealloc = 128, dea_cacheblocks = 0, dea_basealloc = 24,
      data_cacheblocks = 16, data_basealloc = 32768\<rparr>"

definition empty_pool :: nb_MBPOOL where
  "empty_pool =
     \<lparr>mp_blocks = (\<lambda>_. None), mp_active = [], mp_avail = [], mp_basealloc = 0, mp_maxblocks = 0,
      mp_curblocks = 0, mp_cacheblocks = [], mp_ncacheblocks = 0\<rparr>"

text \<open>The addresses of the two arrays of cached headers are arguments.\<close>

definition netbuf_init :: "nat list \<Rightarrow> nat list \<Rightarrow> nb_SETTINGS option \<Rightarrow> nb_MGR" where
  "netbuf_init sqcache bufcache user_settings =
     (let settings = (case user_settings of Some s \<Rightarrow> s | None \<Rightarrow> netbuf_default_settings);
          sqpool = mblock_init sqcache
            (empty_pool\<lparr>mp_basealloc := umul 32 SNDQELEM_size (sndq_basealloc settings), mp_ncacheblocks := sndq_cacheblocks settings\<rparr>);
          bufpool = mblock_init bufcache
            (empty_pool\<lparr>mp_basealloc := data_basealloc settings, mp_ncacheblocks := data_cacheblocks settings\<rparr>) in
      \<lparr>mgr_sendq = \<lparr>sq_pending = [], sq_pdus = [], sq_last_requested = None, sq_last_offset = 0, sq_pdu_offset = 0,
                    sq_elempool = sqpool\<rparr>,
       mgr_datapool = bufpool, mgr_settings = settings\<rparr>)"

fun release_windows :: "mb_env \<Rightarrow> nb_MBPOOL \<Rightarrow> nb_SNDQELEM list \<Rightarrow> nb_MBPOOL res" where
  "release_windows env pool [] = Inr pool"
| "release_windows env pool (e # es) =
     res_bind (mblock_release_ptr env pool (se_addr e) SNDQELEM_size) (\<lambda>pool1. release_windows env pool1 es)"

definition netbuf_cleanup :: "mb_env \<Rightarrow> nb_MGR \<Rightarrow> nb_MGR res" where
  "netbuf_cleanup env mgr =
     (let q = mgr_sendq mgr in
      res_bind (release_windows env (sq_elempool q) (sq_pending q)) (\<lambda>pool1.
      res_bind (mblock_cleanup env pool1) (\<lambda>pool2.
      res_bind (mblock_cleanup env (mgr_datapool mgr)) (\<lambda>pool3.
        Inr (mgr\<lparr>mgr_sendq := q\<lparr>sq_pending := [], sq_elempool := pool2\<rparr>, mgr_datapool := pool3\<rparr>)))))"

definition netbuf_is_clean :: "nb_MGR \<Rightarrow> bool res" where
  "netbuf_is_clean mgr =
     res_bind (is_pool_clean (mgr_datapool mgr) (mp_active (mgr_datapool mgr))) (\<lambda>data_clean.
     res_bind (is_pool_clean (sq_elempool (mgr_sendq mgr)) (mp_active (sq_elempool (mgr_sendq mgr)))) (\<lambda>elem_clean.
       Inr (data_clean \<and> sq_pending (mgr_sendq mgr) = [] \<and> sq_pdus (mgr_sendq mgr) = [] \<and> elem_clean)))"

definition netbuf_has_flushdata :: "nb_MGR \<Rightarrow> bool" where
  "netbuf_has_flushdata mgr \<longleftrightarrow> sq_pending (mgr_sendq mgr) \<noteq> [] \<or> sq_pdus (mgr_sendq mgr) \<noteq> []"

section \<open>The queue as a sequence of addresses\<close>

definition window :: "nb_SNDQELEM \<Rightarrow> nat list" where
  "window e = [se_base e ..< se_base e + se_len e]"

definition iov_window :: "nb_IOV \<Rightarrow> nat list" where
  "iov_window v = [iov_base v ..< iov_base v + iov_len v]"

definition queued :: "nb_SNDQELEM list \<Rightarrow> nat list" where
  "queued es = concat (map window es)"

text \<open>The number of bytes before the flush position.\<close>

fun requested :: "nat \<Rightarrow> nat \<Rightarrow> nb_SNDQELEM list \<Rightarrow> nat" where
  "requested a off [] = 0"
| "requested a off (e # es) = (if se_addr e = a then off else se_len e + requested a off es)"

definition in_flight :: "nb_SENDQ \<Rightarrow> nat" where
  "in_flight q = (case sq_last_requested q of None \<Rightarrow> 0 | Some a \<Rightarrow> requested a (sq_last_offset q) (sq_pending q))"

definition elem_spans :: "nb_MBPOOL \<Rightarrow> nb_SNDQELEM list \<Rightarrow> nb_SPAN list \<Rightarrow> bool" where
  "elem_spans pool es spans \<longleftrightarrow>
     list_all2 (\<lambda>e s. se_addr e = span_addr pool s \<and> sp_size s = SNDQELEM_size) (rev es) spans"

definition flush_pos_ok :: "nat option \<Rightarrow> nat \<Rightarrow> nb_SNDQELEM list \<Rightarrow> bool" where
  "flush_pos_ok req off es \<longleftrightarrow> (case req of None \<Rightarrow> True | Some a \<Rightarrow> \<exists>e \<in> set es. se_addr e = a \<and> off \<le> se_len e)"

definition sendq_inv :: "nb_SENDQ \<Rightarrow> bool" where
  "sendq_inv q \<longleftrightarrow>
     (\<exists>spans. pool_inv (sq_elempool q) spans \<and> pool_fifo (sq_elempool q) spans \<and>
        elem_spans (sq_elempool q) (sq_pending q) spans) \<and>
     (\<forall>e \<in> set (sq_pending q). 0 < se_len e) \<and> length (queued (sq_pending q)) < 2 ^ 32 \<and>
     flush_pos_ok (sq_last_requested q) (sq_last_offset q) (sq_pending q)"

lemma queued_simps [simp]:
  "queued [] = []" "queued (e # es) = window e @ queued es" "queued (es @ fs) = queued es @ queued fs"
  by (simp_all add: queued_def)

lemma length_window [simp]: "length (window e) = se_len e"
  by (simp add: window_def)

lemma requested_append:
  "requested a off (xs @ ys) =
     (if a \<in> se_addr ` set xs then requested a off xs else length (queued xs) + requested a off ys)"
  by (induction xs) auto

lemma requested_le:
  "e \<in> set es \<Longrightarrow> se_addr e = a \<Longrightarrow> distinct (map se_addr es) \<Longrightarrow> off \<le> se_len e \<Longrightarrow> requested a off es \<le> length (queued es)"
  by (induction es) (auto simp: rev_image_eqI)

lemma pool_inv_distinct: "pool_inv p live \<Longrightarrow> distinct (map (span_addr p) live)"
proof -
  assume p: "pool_inv p live"
  have "span_addr p (live ! i) \<noteq> span_addr p (live ! j)" if ij: "i < j" "j < length live" for i j
  proof -
    have l: "live = take i live @ live ! i # drop (Suc i) live" using ij by (simp add: id_take_nth_drop)
    have "drop (Suc i) live ! (j - Suc i) = live ! j" "j - Suc i < length (drop (Suc i) live)" using ij by simp_all
    then have t: "live ! j \<in> set (drop (Suc i) live)" by (metis nth_mem)
    have "0 < sp_size (live ! i)" "0 < sp_size (live ! j)" using pool_inv_span [OF p] ij by simp_all
    then show ?thesis
      using pool_inv_disjoint [of p "take i live" "live ! i" "drop (Suc i) live" "live ! j"] p l t
      by (auto simp: disjoint_spans_def)
  qed
  then show ?thesis by (auto simp: distinct_conv_nth nth_eq_iff_index_eq) (metis nat_neq_iff)
qed

lemma elem_spans_distinct: "pool_inv p spans \<Longrightarrow> elem_spans p es spans \<Longrightarrow> distinct (map se_addr es)"
proof -
  assume p: "pool_inv p spans" and e: "elem_spans p es spans"
  have "map se_addr (rev es) = map (span_addr p) spans"
    using e by (auto simp: elem_spans_def list_all2_conv_all_nth intro!: nth_equalityI)
  then show ?thesis using pool_inv_distinct [OF p] by (metis distinct_rev rev_map)
qed

lemma span_addr_kept:
  "pool_inv p live \<Longrightarrow> s \<in> set live \<Longrightarrow> pool_inv p' live' \<Longrightarrow> s \<in> set live' \<Longrightarrow> roots_kept p p' \<Longrightarrow> span_addr p' s = span_addr p s"
  using pool_inv_span [of p live s] pool_inv_span [of p' live' s] by (simp add: roots_kept_def span_addr_def)

lemma elem_spans_cong:
  "\<forall>s \<in> set spans. span_addr p' s = span_addr p s \<Longrightarrow> elem_spans p' es spans = elem_spans p es spans"
  by (auto simp: elem_spans_def list_all2_conv_all_nth)

lemma elem_spans_snoc:
  "elem_spans p (es @ [w]) (t # spans) \<longleftrightarrow> se_addr w = span_addr p t \<and> sp_size t = SNDQELEM_size \<and> elem_spans p es spans"
  by (auto simp: elem_spans_def)

lemma elem_spans_first:
  assumes "elem_spans p (w # es) spans"
  obtains l s where "spans = l @ [s]" "se_addr w = span_addr p s" "sp_size s = SNDQELEM_size" "elem_spans p es l"
  using assms by (auto simp: elem_spans_def list_all2_append1 list_all2_Cons1)

section \<open>Correctness of the operations\<close>

lemma in_flight_same_prefix:
  assumes "flush_pos_ok (sq_last_requested q) (sq_last_offset q) xs" and "sq_pending q = xs @ ys"
    and "sq_last_requested q' = sq_last_requested q" "sq_last_offset q' = sq_last_offset q" "sq_pending q' = xs @ zs"
  shows "in_flight q' = in_flight q"
  using assms by (auto simp: in_flight_def flush_pos_ok_def requested_append split: option.splits)

lemma enqueue_new_spec:
  assumes env: "mb_env_ok env" and q: "sendq_inv q" and len: "0 < iov_len v" "length (queued (sq_pending q)) + iov_len v < 2 ^ 32"
  shows "enqueue_new env q v parent = Inl AssertFailed \<or>
    (\<exists>q'. enqueue_new env q v parent = Inr q' \<and> sendq_inv q' \<and>
       queued (sq_pending q') = queued (sq_pending q) @ iov_window v \<and> in_flight q' = in_flight q)"
proof -
  let ?p = "sq_elempool q"
  obtain spans where sp: "pool_inv ?p spans" "elem_spans ?p (sq_pending q) spans" "pool_fifo ?p spans" using q by (auto simp: sendq_inv_def)
  have sz: "0 < SNDQELEM_size" "SNDQELEM_size \<le> 2 ^ 31" by (simp_all add: SNDQELEM_size_def)
  obtain p' r where r: "mblock_reserve_data env ?p SNDQELEM_size = Inr (p', r)"
    "case r of None \<Rightarrow> pool_inv p' spans | Some s \<Rightarrow> sp_size s = SNDQELEM_size \<and> pool_inv p' (s # spans) \<and> roots_kept ?p p'"
    using mblock_reserve_data_inv [OF env sp(1) sz] by blast
  show ?thesis
  proof (cases r)
    case None
    then show ?thesis using r(1) by (simp add: enqueue_new_def get_sendqe_def)
  next
    case (Some t)
    then have t: "sp_size t = SNDQELEM_size" "pool_inv p' (t # spans)" "roots_kept ?p p'" using r(2) by simp_all
    have fifo: "pool_fifo p' (t # spans)" using mblock_reserve_data_fifo [OF env sp(1,3) sz r(1)] Some by simp
    have "mp_blocks p' (sp_parent t) \<noteq> None"
      using pool_inv_blocks(1) [OF t(2)] pool_inv_span [OF t(2), of t] by simp
    then have addr: "SPAN_MBUFFER_NC p' t = Inr (span_addr p' t)"
      by (simp add: SPAN_MBUFFER_NC_def mb_deref_at span_addr_def)
    define win where "win = \<lparr>se_addr = span_addr p' t, se_base = iov_base v, se_len = iov_len v, se_parent = parent\<rparr>"
    define q' where "q' = q\<lparr>sq_elempool := p', sq_pending := sq_pending q @ [win]\<rparr>"
    have e: "enqueue_new env q v parent = Inr q'"
      using len(2) by (simp add: enqueue_new_def get_sendqe_def r(1) Some addr win_def q'_def)
    have kept: "\<forall>s \<in> set spans. span_addr p' s = span_addr ?p s" using span_addr_kept [OF sp(1) _ t(2) _ t(3)] by simp
    have "elem_spans p' (sq_pending q @ [win]) (t # spans)"
      using sp(2) t(1) elem_spans_cong [OF kept] by (simp add: elem_spans_snoc win_def)
    then have "sendq_inv q'"
      using q t(2) fifo len by (auto simp: sendq_inv_def q'_def win_def flush_pos_ok_def split: option.splits)
    moreover have "in_flight q' = in_flight q"
      using q by (intro in_flight_same_prefix [of _ "sq_pending q" "[]"]) (simp_all add: q'_def sendq_inv_def)
    moreover have "queued (sq_pending q') = queued (sq_pending q) @ iov_window v"
      by (simp add: q'_def win_def window_def iov_window_def)
    ultimately show ?thesis using e by blast
  qed
qed

lemma sendq_enqueue_spec:
  assumes env: "mb_env_ok env" and q: "sendq_inv q" and len: "0 < iov_len v" "length (queued (sq_pending q)) + iov_len v < 2 ^ 32"
  shows "sendq_enqueue env q v parent = Inl AssertFailed \<or>
    (\<exists>q'. sendq_enqueue env q v parent = Inr q' \<and> sendq_inv q' \<and>
       queued (sq_pending q') = queued (sq_pending q) @ iov_window v \<and> in_flight q' = in_flight q)"
proof (cases "sq_pending q \<noteq> [] \<and> se_base (last (sq_pending q)) + se_len (last (sq_pending q)) = iov_base v")
  case False
  then have "sendq_enqueue env q v parent = enqueue_new env q v parent" by (auto simp: sendq_enqueue_def Let_def)
  then show ?thesis using enqueue_new_spec [OF assms] by simp
next
  case True
  define xs where "xs = butlast (sq_pending q)"
  define w where "w = last (sq_pending q)"
  have pend: "sq_pending q = xs @ [w]" using True by (simp add: xs_def w_def)
  define w' where "w' = w\<lparr>se_len := se_len w + iov_len v, se_parent := parent\<rparr>"
  define q' where "q' = q\<lparr>sq_pending := xs @ [w']\<rparr>"
  have "se_len w + iov_len v < 2 ^ 32" using len(2) by (simp add: pend)
  then have e: "sendq_enqueue env q v parent = Inr q'"
    using True by (simp add: sendq_enqueue_def Let_def xs_def [symmetric] w_def [symmetric] uadd_nowrap w'_def q'_def)
  have b: "iov_base v = se_base w + se_len w" using True by (simp add: w_def)
  have "window w' = window w @ iov_window v"
    using upt_add_eq_append [of "se_base w" "se_base w + se_len w" "iov_len v"]
    by (simp add: w'_def window_def iov_window_def b add.assoc)
  then have qd: "queued (sq_pending q') = queued (sq_pending q) @ iov_window v" by (simp add: q'_def pend)
  have w: "se_addr w' = se_addr w" "se_len w \<le> se_len w'" "0 < se_len w'" using len(1) by (simp_all add: w'_def)
  have "elem_spans p (xs @ [w']) spans \<longleftrightarrow> elem_spans p (xs @ [w]) spans" for p spans
    by (simp add: elem_spans_def list_all2_Cons1 w(1))
  then have "sendq_inv q'"
    using q w len(2) qd by (auto simp: sendq_inv_def pend q'_def flush_pos_ok_def iov_window_def split: option.splits)
  moreover have "in_flight q' = in_flight q"
    using w(1) q by (auto simp: in_flight_def q'_def pend requested_append sendq_inv_def flush_pos_ok_def split: option.splits)
  ultimately show ?thesis using e qd by blast
qed

lemma fill_iovs_spec:
  "ret + length (queued es) < 2 ^ 32 \<Longrightarrow>
   fill_iovs es room ret =
     (map (\<lambda>e. \<lparr>iov_base = se_base e, iov_len = se_len e\<rparr>) (take room es), ret + length (queued (take room es)),
      if take room es = [] then None else Some (last (take room es)))"
proof (induction es room ret rule: fill_iovs.induct)
  case (1 e es room ret)
  have "uadd 32 ret (se_len e) = ret + se_len e" using 1(2) by (simp add: uadd_nowrap)
  moreover have "ret + se_len e + length (queued es) < 2 ^ 32" using 1(2) by simp
  ultimately show ?case using 1(1) by (cases "take room es = []") auto
qed auto

text \<open>The flush position after a vector has been filled with the windows that follow a prefix of the queue.\<close>

lemma requested_mid:
  assumes "distinct (map se_addr (xs @ w # ys))"
  shows "requested (se_addr w) off (xs @ w # ys) = length (queued xs) + off"
  using assms by (auto simp: requested_append)

lemma flush_from_spec:
  assumes q: "sendq_inv q" and pend: "sq_pending q = pre @ es" and ret: "ret0 + length (queued es) < 2 ^ 32"
    and win0: "case win0 of None \<Rightarrow> in_flight q = length (queued pre)
                | Some w \<Rightarrow> pre \<noteq> [] \<and> w = last pre"
    and f: "flush_from q iovs0 win0 es room ret0 = (q', iovs, ret)"
  shows "sendq_inv q' \<and> sq_pending q' = sq_pending q \<and> ret = ret0 + length (queued (take room es)) \<and>
    concat (map iov_window iovs) = concat (map iov_window iovs0) @ queued (take room es) \<and>
    in_flight q' = length (queued (pre @ take room es))"
proof -
  define tk where "tk = take room es"
  have pend': "sq_pending q = (pre @ tk) @ drop room es" by (simp add: pend tk_def)
  have fi: "fill_iovs es room ret0 = (map (\<lambda>e. \<lparr>iov_base = se_base e, iov_len = se_len e\<rparr>) tk, ret0 + length (queued tk),
      if tk = [] then None else Some (last tk))" using fill_iovs_spec [OF ret] by (simp add: tk_def)
  have iv: "concat (map (iov_window \<circ> (\<lambda>e. \<lparr>iov_base = se_base e, iov_len = se_len e\<rparr>)) tk) = queued tk"
    by (simp add: queued_def comp_def iov_window_def window_def [abs_def])
  define win where "win = (if tk = [] then win0 else Some (last tk))"
  have e: "iovs = iovs0 @ map (\<lambda>e. \<lparr>iov_base = se_base e, iov_len = se_len e\<rparr>) tk" "ret = ret0 + length (queued tk)"
    "q' = (case win of None \<Rightarrow> q | Some w \<Rightarrow> q\<lparr>sq_last_requested := Some (se_addr w), sq_last_offset := se_len w\<rparr>)"
    using f by (auto simp: flush_from_def fi win_def split: if_splits option.splits)
  have main: "sendq_inv q' \<and> sq_pending q' = sq_pending q \<and> in_flight q' = length (queued (pre @ tk))"
  proof (cases win)
    case None
    then have "tk = []" "win0 = None" by (simp_all add: win_def split: if_splits)
    then show ?thesis using q win0 None by (simp add: e(3))
  next
    case (Some w)
    then have pt: "pre @ tk \<noteq> []" "w = last (pre @ tk)" using win0 by (auto simp: win_def split: if_splits)
    define xs where "xs = butlast (pre @ tk)"
    have xs: "pre @ tk = xs @ [w]" using pt by (simp add: xs_def)
    obtain spans where "pool_inv (sq_elempool q) spans" "elem_spans (sq_elempool q) (sq_pending q) spans"
      using q by (auto simp: sendq_inv_def)
    then have "distinct (map se_addr (sq_pending q))" by (rule elem_spans_distinct)
    then have d: "distinct (map se_addr (xs @ w # drop room es))" unfolding pend' xs by simp
    have "in_flight q' = length (queued (pre @ tk))"
      using requested_mid [OF d] by (simp add: e(3) Some in_flight_def pend' xs del: append_assoc) (simp add: xs)
    moreover have "sendq_inv q'" using q by (auto simp: sendq_inv_def e(3) Some flush_pos_ok_def pend' xs)
    ultimately show ?thesis by (simp add: e(3) Some)
  qed
  then show ?thesis using e(1,2) iv by (simp add: tk_def)
qed

lemma queued_take_drop: "queued es = queued (take k es) @ queued (drop k es)"
  using queued_simps(3) [of "take k es" "drop k es"] by simp

lemma queued_pos: "\<forall>e \<in> set es. 0 < se_len e \<Longrightarrow> 0 < k \<Longrightarrow> es \<noteq> [] \<Longrightarrow> 0 < length (queued (take k es))"
  by (cases es; cases k) auto

lemma queued_length_ge: "\<forall>e \<in> set es. 0 < se_len e \<Longrightarrow> length es \<le> length (queued es)"
  by (induction es) auto

lemma sendq_start_flush_spec:
  assumes q: "sendq_inv q" and niov: "0 < niov"
  shows "\<exists>q' iovs ret. sendq_start_flush q niov = Inr (q', iovs, ret) \<and> sendq_inv q' \<and> sq_pending q' = sq_pending q \<and>
    concat (map iov_window iovs) = take ret (drop (in_flight q) (queued (sq_pending q))) \<and>
    in_flight q' = in_flight q + ret \<and> in_flight q' \<le> length (queued (sq_pending q)) \<and>
    (in_flight q < length (queued (sq_pending q)) \<longrightarrow> 0 < ret) \<and>
    (length (sq_pending q) \<le> niov \<longrightarrow> in_flight q' = length (queued (sq_pending q)))"
proof -
  have tot: "length (queued (sq_pending q)) < 2 ^ 32" and pos: "\<forall>e \<in> set (sq_pending q). 0 < se_len e"
    using q by (simp_all add: sendq_inv_def)
  have main: ?thesis
    if f: "sendq_start_flush q niov = Inr (flush_from q iovs0 win0 es room ret0)" and pend: "sq_pending q = pre @ es"
      and win0: "case win0 of None \<Rightarrow> in_flight q = length (queued pre) | Some w \<Rightarrow> pre \<noteq> [] \<and> w = last pre"
      and fl: "in_flight q + ret0 = length (queued pre)"
      and iv0: "concat (map iov_window iovs0) = drop (in_flight q) (queued pre)"
      and room: "0 < ret0 \<or> 0 < room" "length (sq_pending q) \<le> niov \<longrightarrow> length es \<le> room"
    for iovs0 win0 es room ret0 pre
  proof -
    obtain q' iovs ret where g: "flush_from q iovs0 win0 es room ret0 = (q', iovs, ret)"
      by (cases "flush_from q iovs0 win0 es room ret0")
    have r0: "ret0 + length (queued es) < 2 ^ 32" using tot fl by (simp add: pend)
    note s = flush_from_spec [OF q pend r0 win0 g]
    have "take ret (drop (in_flight q) (queued (sq_pending q))) = drop (in_flight q) (queued pre) @ queued (take room es)"
      using s fl by (simp add: pend) (subst queued_take_drop [of es room], simp)
    moreover have "length (queued (take room es)) \<le> length (queued es)" using queued_take_drop [of es room] by simp
    moreover have "0 < ret" if "in_flight q < length (queued (sq_pending q))"
    proof (cases "0 < ret0")
      case False
      then have "es \<noteq> []" "0 < room" using that fl room(1) by (auto simp: pend)
      then show ?thesis using s queued_pos [of es room] pos by (simp add: pend)
    qed (use s in simp)
    ultimately show ?thesis
      using f g s fl iv0 room(2) by (intro exI [of _ q'] exI [of _ iovs] exI [of _ ret]) (auto simp: pend)
  qed
  show ?thesis
  proof (cases "sq_last_requested q")
    case None
    then have "in_flight q = 0" by (simp add: in_flight_def)
    then show ?thesis
      using None niov by (intro main [of "[]" None "sq_pending q" niov 0 "[]"]) (simp_all add: sendq_start_flush_def)
  next
    case (Some a)
    define pre0 where "pre0 = takeWhile (\<lambda>e. se_addr e \<noteq> a) (sq_pending q)"
    have "\<exists>e \<in> set (sq_pending q). se_addr e = a \<and> sq_last_offset q \<le> se_len e"
      using q Some by (simp add: sendq_inv_def flush_pos_ok_def)
    then obtain e where e: "e \<in> set (sq_pending q)" "se_addr e = a" "sq_last_offset q \<le> se_len e" by blast
    then have "dropWhile (\<lambda>e. se_addr e \<noteq> a) (sq_pending q) \<noteq> []" by (auto simp: dropWhile_eq_Nil_conv)
    then obtain win rest where dw: "dropWhile (\<lambda>e. se_addr e \<noteq> a) (sq_pending q) = win # rest"
      by (cases "dropWhile (\<lambda>e. se_addr e \<noteq> a) (sq_pending q)") auto
    have pend: "sq_pending q = pre0 @ win # rest"
      using takeWhile_dropWhile_id [of "\<lambda>e. se_addr e \<noteq> a" "sq_pending q"] by (simp add: pre0_def dw)
    have wa: "se_addr win = a" using hd_dropWhile [of "\<lambda>e. se_addr e \<noteq> a" "sq_pending q"] by (simp add: dw)
    have pa: "a \<notin> se_addr ` set pre0" unfolding pre0_def by (auto dest: set_takeWhileD)
    obtain spans where "pool_inv (sq_elempool q) spans" "elem_spans (sq_elempool q) (sq_pending q) spans"
      using q by (auto simp: sendq_inv_def)
    then have "distinct (map se_addr (sq_pending q))" by (rule elem_spans_distinct)
    then have "e = win" using e(1,2) wa pa by (auto simp: pend image_iff)
    then have off: "sq_last_offset q \<le> se_len win" using e(3) by simp
    have fl: "in_flight q = length (queued pre0) + sq_last_offset q"
      using pa wa by (simp add: in_flight_def Some pend requested_append)
    show ?thesis
    proof (cases "sq_last_offset q = se_len win")
      case True
      then have f: "sendq_start_flush q niov = Inr (flush_from q [] None rest niov 0)"
        by (simp add: sendq_start_flush_def Some dw)
      show ?thesis using True fl niov by (intro main [OF f, of "pre0 @ [win]"]) (simp_all add: pend)
    next
      case False
      have lt: "sq_last_offset q < se_len win" using False off by simp
      have "usub 32 (se_len win) (sq_last_offset q) = se_len win - sq_last_offset q"
        using tot off by (simp add: usub_nowrap pend)
      then have f: "sendq_start_flush q niov =
          Inr (flush_from q [\<lparr>iov_base = se_base win + sq_last_offset q, iov_len = se_len win - sq_last_offset q\<rparr>] (Some win)
            rest (niov - 1) (se_len win - sq_last_offset q))"
        using lt niov by (simp add: sendq_start_flush_def Some dw Let_def)
      have "drop (sq_last_offset q) (window win) = [se_base win + sq_last_offset q ..< se_base win + se_len win]"
        by (simp add: window_def drop_upt)
      then show ?thesis using lt fl niov by (intro main [OF f, of "pre0 @ [win]"]) (auto simp: pend iov_window_def)
    qed
  qed
qed

lemma in_flight_le:
  assumes q: "sendq_inv q"
  shows "in_flight q \<le> length (queued (sq_pending q))"
proof (cases "sq_last_requested q")
  case (Some a)
  obtain spans where "pool_inv (sq_elempool q) spans" "elem_spans (sq_elempool q) (sq_pending q) spans"
    using q by (auto simp: sendq_inv_def)
  then have d: "distinct (map se_addr (sq_pending q))" by (rule elem_spans_distinct)
  obtain e where "e \<in> set (sq_pending q)" "se_addr e = a" "sq_last_offset q \<le> se_len e"
    using q Some by (auto simp: sendq_inv_def flush_pos_ok_def)
  then show ?thesis using requested_le [OF _ _ d] by (simp add: in_flight_def Some)
qed (simp add: in_flight_def)

lemma window_drop:
  assumes "n \<le> se_len w"
  shows "window (w\<lparr>se_len := se_len w - n, se_base := se_base w + n\<rparr>) = drop n (window w)"
  using assms by (simp add: window_def drop_upt)

lemma window_flushed_spec:
  assumes q: "sendq_inv (q\<lparr>sq_pending := w # rest\<rparr>)"
  shows "\<exists>q'. window_flushed env q w = Inr q' \<and>
    (\<exists>spans. pool_inv (sq_elempool q') spans \<and> pool_fifo (sq_elempool q') spans \<and> elem_spans (sq_elempool q') rest spans) \<and>
    (if sq_last_requested q = Some (se_addr w) then sq_last_requested q' = None
     else sq_last_requested q' = sq_last_requested q \<and> sq_last_offset q' = sq_last_offset q)"
proof -
  let ?p = "sq_elempool q"
  obtain spans where sp: "pool_inv ?p spans" "elem_spans ?p (w # rest) spans" "pool_fifo ?p spans" using q by (auto simp: sendq_inv_def)
  obtain l s where l: "spans = l @ [s]" "se_addr w = span_addr ?p s" "sp_size s = SNDQELEM_size" "elem_spans ?p rest l"
    using elem_spans_first [OF sp(2)] by blast
  obtain p' where p': "mblock_release_ptr env ?p (span_addr ?p s) SNDQELEM_size = Inr p'" "pool_inv p' l" "roots_kept ?p p'" "pool_fifo p' l"
    using mblock_release_fifo [of ?p l s env] sp(1,3) l(1,3) by auto
  have "\<forall>t \<in> set l. span_addr p' t = span_addr ?p t" using span_addr_kept [OF sp(1) _ p'(2) _ p'(3)] by (simp add: l(1))
  then have "elem_spans p' rest l" using l(4) elem_spans_cong by blast
  then show ?thesis using p'(1,2,4) l(2) by (simp add: window_flushed_def Let_def) blast
qed

lemma end_flush_loop_spec:
  assumes "sendq_inv (q\<lparr>sq_pending := ws\<rparr>)" and "n \<le> in_flight (q\<lparr>sq_pending := ws\<rparr>)"
  shows "\<exists>q' rest. end_flush_loop env q ws n = Inr (q', rest, 0) \<and> sendq_inv (q'\<lparr>sq_pending := rest\<rparr>) \<and>
    queued rest = drop n (queued ws) \<and> in_flight (q'\<lparr>sq_pending := rest\<rparr>) = in_flight (q\<lparr>sq_pending := ws\<rparr>) - n"
  using assms
proof (induction ws arbitrary: q n)
  case Nil
  then have "sq_last_requested q = None" by (auto simp: sendq_inv_def flush_pos_ok_def split: option.splits)
  then show ?case using Nil by (simp add: in_flight_def)
next
  case (Cons w ws)
  have w: "0 < se_len w" "se_len w < 2 ^ 32" "length (queued ws) < 2 ^ 32" and pos: "\<forall>e \<in> set ws. 0 < se_len e"
    and fp: "flush_pos_ok (sq_last_requested q) (sq_last_offset q) (w # ws)"
    using Cons.prems(1) by (auto simp: sendq_inv_def)
  obtain spans where sp: "pool_inv (sq_elempool q) spans" "elem_spans (sq_elempool q) (w # ws) spans" "pool_fifo (sq_elempool q) spans"
    using Cons.prems(1) by (auto simp: sendq_inv_def)
  have d: "se_addr w \<notin> se_addr ` set ws" using elem_spans_distinct [OF sp(1,2)] by simp
  have here: "sq_last_offset q \<le> se_len w \<and> in_flight (q\<lparr>sq_pending := w # ws\<rparr>) = sq_last_offset q"
    if "sq_last_requested q = Some (se_addr w)" using fp d that by (auto simp: flush_pos_ok_def in_flight_def image_iff)
  have later: "in_flight (q\<lparr>sq_pending := w # ws\<rparr>) = se_len w + in_flight (q\<lparr>sq_pending := ws\<rparr>) \<and>
      flush_pos_ok (sq_last_requested q) (sq_last_offset q) ws"
    if "sq_last_requested q = Some a" "a \<noteq> se_addr w" for a
    using fp that by (auto simp: flush_pos_ok_def in_flight_def)
  show ?case
  proof (cases "se_len w \<le> n")
    case True
    have n: "0 < n" using True w(1) by simp
    then obtain a where a: "sq_last_requested q = Some a" using Cons.prems(2) by (auto simp: in_flight_def split: option.splits)
    have chop: "(if se_len w < n then se_len w else n) = se_len w" using True by simp
    have n32: "n < 2 ^ 32"
      using Cons.prems(2) in_flight_le [OF Cons.prems(1)] Cons.prems(1) by (simp add: sendq_inv_def)
    obtain q1 where q1: "window_flushed env q w = Inr q1"
      "\<exists>spans. pool_inv (sq_elempool q1) spans \<and> pool_fifo (sq_elempool q1) spans \<and> elem_spans (sq_elempool q1) ws spans"
      "if sq_last_requested q = Some (se_addr w) then sq_last_requested q1 = None
       else sq_last_requested q1 = sq_last_requested q \<and> sq_last_offset q1 = sq_last_offset q"
      using window_flushed_spec [OF Cons.prems(1)] by blast
    have fl: "in_flight (q1\<lparr>sq_pending := ws\<rparr>) = in_flight (q\<lparr>sq_pending := w # ws\<rparr>) - se_len w \<and>
        flush_pos_ok (sq_last_requested q1) (sq_last_offset q1) ws \<and> n - se_len w \<le> in_flight (q1\<lparr>sq_pending := ws\<rparr>)"
    proof (cases "a = se_addr w")
      case aw: True
      then show ?thesis using here a q1(3) True Cons.prems(2) by (simp add: in_flight_def flush_pos_ok_def)
    next
      case False
      then have "sq_last_requested q1 = sq_last_requested q" "sq_last_offset q1 = sq_last_offset q" using q1(3) a by simp_all
      moreover from this have "in_flight (q1\<lparr>sq_pending := ws\<rparr>) = in_flight (q\<lparr>sq_pending := ws\<rparr>)"
        by (simp add: in_flight_def a)
      ultimately show ?thesis using later [OF a False] Cons.prems(2) by simp
    qed
    have i1: "sendq_inv (q1\<lparr>sq_pending := ws\<rparr>)" using q1(2) pos w(3) fl by (simp add: sendq_inv_def)
    have step: "end_flush_loop env q (w # ws) n = (if n - se_len w = 0 then Inr (q1, ws, 0) else end_flush_loop env q1 ws (n - se_len w))"
      using chop n32 True w(2) q1(1) by (simp add: Let_def usub_nowrap)
    show ?thesis
    proof (cases "n = se_len w")
      case True
      then show ?thesis using step i1 fl by (intro exI [of _ q1] exI [of _ ws]) simp
    next
      case False
      then show ?thesis
        using Cons.IH [OF i1, of "n - se_len w"] fl step True by auto
    qed
  next
    case False
    define w' where "w' = w\<lparr>se_len := se_len w - n, se_base := se_base w + n\<rparr>"
    define q1 where "q1 = window_chopped q w n"
    have step: "end_flush_loop env q (w # ws) n = Inr (q1, w' # ws, 0)"
      using False w(2) by (simp add: Let_def usub_nowrap q1_def w'_def)
    have "queued (w' # ws) = drop n (queued (w # ws))"
      using False window_drop [of n w] by (simp add: w'_def)
    moreover have fl: "in_flight (q1\<lparr>sq_pending := w' # ws\<rparr>) = in_flight (q\<lparr>sq_pending := w # ws\<rparr>) - n \<and>
        flush_pos_ok (sq_last_requested q1) (sq_last_offset q1) (w' # ws)"
    proof (cases "sq_last_requested q")
      case None
      then show ?thesis using Cons.prems(2) by (simp add: q1_def window_chopped_def in_flight_def flush_pos_ok_def)
    next
      case (Some a)
      show ?thesis
      proof (cases "a = se_addr w")
        case True
        then have "n \<le> sq_last_offset q" "sq_last_offset q \<le> se_len w" using here Some Cons.prems(2) by simp_all
        then show ?thesis
          using True Some w(2) by (simp add: q1_def window_chopped_def in_flight_def flush_pos_ok_def w'_def usub_nowrap diff_le_mono)
      next
        case na: False
        then have "q1 = q" using Some by (simp add: q1_def window_chopped_def)
        then show ?thesis
          using later [OF Some na] Some na False by (auto simp: in_flight_def flush_pos_ok_def w'_def)
      qed
    qed
    moreover have "sendq_inv (q1\<lparr>sq_pending := w' # ws\<rparr>)"
    proof -
      have "elem_spans (sq_elempool q) (w' # ws) spans"
        using sp(2) by (auto simp: elem_spans_def list_all2_append1 list_all2_Cons1 w'_def)
      moreover have "sq_elempool q1 = sq_elempool q" by (simp add: q1_def window_chopped_def)
      ultimately show ?thesis
        using sp(1,3) fl pos False Cons.prems(1) by (auto simp: sendq_inv_def w'_def)
    qed
    ultimately show ?thesis using step by (intro exI [of _ q1] exI [of _ "w' # ws"]) simp
  qed
qed

lemma sendq_end_flush_spec:
  assumes q: "sendq_inv q" and n: "n \<le> in_flight q"
  shows "\<exists>q'. sendq_end_flush env q n = Inr q' \<and> sendq_inv q' \<and> queued (sq_pending q') = drop n (queued (sq_pending q)) \<and>
    in_flight q' = in_flight q - n"
  using end_flush_loop_spec [where q = q and ws = "sq_pending q" and n = n and env = env] assms by (auto simp: sendq_end_flush_def)

section \<open>Runs of the send queue\<close>

text \<open>
  A run of the manager: buffers are queued, vectors are handed out, and bytes that were handed out are
  confirmed. \<open>Q\<close> is the sequence of the addresses queued so far, \<open>H\<close> the sequence of the addresses handed out,
  and \<open>C\<close> the number of bytes confirmed.
\<close>

inductive nb_run :: "mb_env \<Rightarrow> nb_MGR \<Rightarrow> nb_MGR \<Rightarrow> nat list \<Rightarrow> nat list \<Rightarrow> nat \<Rightarrow> bool" for env mgr0 where
  nb_run_start: "nb_run env mgr0 mgr0 [] [] 0"
| nb_run_enqueue: "nb_run env mgr0 mgr Q H C \<Longrightarrow> 0 < iov_len v \<Longrightarrow> length Q - C + iov_len v < 2 ^ 32 \<Longrightarrow>
    netbuf_enqueue env mgr v parent = Inr mgr' \<Longrightarrow> nb_run env mgr0 mgr' (Q @ iov_window v) H C"
| nb_run_start_flush: "nb_run env mgr0 mgr Q H C \<Longrightarrow> 0 < niov \<Longrightarrow>
    netbuf_start_flush mgr niov = Inr (mgr', iovs, ret, nused) \<Longrightarrow> nb_run env mgr0 mgr' Q (H @ concat (map iov_window iovs)) C"
| nb_run_end_flush: "nb_run env mgr0 mgr Q H C \<Longrightarrow> C + n \<le> length H \<Longrightarrow>
    netbuf_end_flush env mgr n = Inr mgr' \<Longrightarrow> nb_run env mgr0 mgr' Q H (C + n)"

definition run_inv :: "nb_MGR \<Rightarrow> nat list \<Rightarrow> nat list \<Rightarrow> nat \<Rightarrow> bool" where
  "run_inv mgr Q H C \<longleftrightarrow>
     sendq_inv (mgr_sendq mgr) \<and> C \<le> length Q \<and> queued (sq_pending (mgr_sendq mgr)) = drop C Q \<and>
     H = take (C + in_flight (mgr_sendq mgr)) Q"

lemma netbuf_init_inv:
  assumes "sndq_basealloc (case s of Some u \<Rightarrow> u | None \<Rightarrow> netbuf_default_settings) * SNDQELEM_size < 2 ^ 32"
    and "0 < sndq_basealloc (case s of Some u \<Rightarrow> u | None \<Rightarrow> netbuf_default_settings)"
  shows "run_inv (netbuf_init sqcache bufcache s) [] [] 0"
proof -
  define st where "st = (case s of Some u \<Rightarrow> u | None \<Rightarrow> netbuf_default_settings)"
  have b: "umul 32 SNDQELEM_size (sndq_basealloc st) = SNDQELEM_size * sndq_basealloc st"
    "0 < SNDQELEM_size * sndq_basealloc st" "SNDQELEM_size * sndq_basealloc st < 2 ^ 32"
    using assms by (simp_all add: umul_nowrap st_def [symmetric] mult.commute SNDQELEM_size_def)
  have "pool_inv (mblock_init sqcache (empty_pool\<lparr>mp_basealloc := SNDQELEM_size * sndq_basealloc st, mp_ncacheblocks := k\<rparr>)) []" for k
    using b(2,3) by (auto simp: mblock_init_def Let_def pool_inv_def block_at_def mblock_zero_def empty_pool_def umul_def)
  moreover have "pool_fifo (mblock_init sqcache (empty_pool\<lparr>mp_basealloc := SNDQELEM_size * sndq_basealloc st, mp_ncacheblocks := k\<rparr>)) []" for k
    by (simp add: pool_fifo_def mblock_init_def Let_def empty_pool_def)
  ultimately show ?thesis
    by (auto simp: run_inv_def netbuf_init_def Let_def st_def [symmetric] b(1) sendq_inv_def elem_spans_def flush_pos_ok_def
        in_flight_def intro!: exI [of _ "[]"])
qed

lemma run_inv_enqueue:
  assumes env: "mb_env_ok env" and r: "run_inv mgr Q H C" and v: "0 < iov_len v" "length Q - C + iov_len v < 2 ^ 32"
  shows "netbuf_enqueue env mgr v parent = Inl AssertFailed \<or>
    (\<exists>mgr'. netbuf_enqueue env mgr v parent = Inr mgr' \<and> run_inv mgr' (Q @ iov_window v) H C)"
proof -
  let ?q = "mgr_sendq mgr"
  have q: "sendq_inv ?q" "queued (sq_pending ?q) = drop C Q" "C \<le> length Q" "H = take (C + in_flight ?q) Q" "in_flight ?q \<le> length Q - C"
    using r in_flight_le [of ?q] by (auto simp: run_inv_def)
  have "length (queued (sq_pending ?q)) + iov_len v < 2 ^ 32" using v(2) q(2) by simp
  from sendq_enqueue_spec [OF env q(1) v(1) this, of parent] show ?thesis
  proof (elim disjE exE conjE)
    fix q' assume e: "sendq_enqueue env ?q v parent = Inr q'" "sendq_inv q'"
      "queued (sq_pending q') = queued (sq_pending ?q) @ iov_window v" "in_flight q' = in_flight ?q"
    have "C + in_flight ?q - length Q = 0" using q(3,5) by simp
    then have "run_inv (mgr\<lparr>mgr_sendq := q'\<rparr>) (Q @ iov_window v) H C" using e q by (simp add: run_inv_def)
    then show ?thesis using e(1) by (simp add: netbuf_enqueue_def)
  qed (simp add: netbuf_enqueue_def)
qed

lemma run_inv_start_flush:
  assumes r: "run_inv mgr Q H C" and niov: "0 < niov"
  shows "\<exists>mgr' iovs ret nused. netbuf_start_flush mgr niov = Inr (mgr', iovs, ret, nused) \<and>
    run_inv mgr' Q (H @ concat (map iov_window iovs)) C \<and> (length H < length Q \<longrightarrow> 0 < ret) \<and>
    (netbuf_get_niov mgr \<le> niov \<longrightarrow> H @ concat (map iov_window iovs) = Q)"
proof -
  let ?q = "mgr_sendq mgr"
  have q: "sendq_inv ?q" "queued (sq_pending ?q) = drop C Q" "C \<le> length Q" "H = take (C + in_flight ?q) Q" "in_flight ?q \<le> length Q - C"
    using r in_flight_le [of ?q] by (auto simp: run_inv_def)
  obtain q' iovs ret where f: "sendq_start_flush ?q niov = Inr (q', iovs, ret)" "sendq_inv q'" "sq_pending q' = sq_pending ?q"
    "concat (map iov_window iovs) = take ret (drop (in_flight ?q) (queued (sq_pending ?q)))"
    "in_flight q' = in_flight ?q + ret" "in_flight q' \<le> length (queued (sq_pending ?q))"
    "in_flight ?q < length (queued (sq_pending ?q)) \<longrightarrow> 0 < ret"
    "length (sq_pending ?q) \<le> niov \<longrightarrow> in_flight q' = length (queued (sq_pending ?q))"
    using sendq_start_flush_spec [OF q(1) niov] by blast
  have h: "H @ concat (map iov_window iovs) = take (C + in_flight ?q + ret) Q"
    using f(4) q(2,4) take_add [of "C + in_flight ?q" ret Q] by (simp add: add.commute)
  have lh: "length H = C + in_flight ?q" using q(3,4,5) by simp
  have "length (sq_pending ?q) \<le> length (queued (sq_pending ?q))"
    using q(1) by (intro queued_length_ge) (simp add: sendq_inv_def)
  then have nv: "netbuf_get_niov mgr = length (sq_pending ?q)" using q(1) by (simp add: netbuf_get_niov_def sendq_inv_def)
  have "run_inv (mgr\<lparr>mgr_sendq := q'\<rparr>) Q (H @ concat (map iov_window iovs)) C"
    using f(2,3,5) q(2,3) h by (simp add: run_inv_def add.assoc)
  moreover have "length H < length Q \<longrightarrow> 0 < ret" using f(7) q(2) lh by auto
  moreover have "netbuf_get_niov mgr \<le> niov \<longrightarrow> H @ concat (map iov_window iovs) = Q"
    using f(5,8) q(2,3) h nv by auto
  ultimately show ?thesis using f(1) by (simp add: netbuf_start_flush_def)
qed

lemma run_inv_end_flush:
  assumes r: "run_inv mgr Q H C" and n: "C + n \<le> length H"
  shows "\<exists>mgr'. netbuf_end_flush env mgr n = Inr mgr' \<and> run_inv mgr' Q H (C + n)"
proof -
  let ?q = "mgr_sendq mgr"
  have q: "sendq_inv ?q" "queued (sq_pending ?q) = drop C Q" "C \<le> length Q" "H = take (C + in_flight ?q) Q"
    using r by (auto simp: run_inv_def)
  have n': "n \<le> in_flight ?q" using n q(4) by simp
  obtain q' where e: "sendq_end_flush env ?q n = Inr q'" "sendq_inv q'" "queued (sq_pending q') = drop n (queued (sq_pending ?q))"
    "in_flight q' = in_flight ?q - n" using sendq_end_flush_spec [OF q(1) n'] by blast
  have "C + n \<le> length Q" using n q(4) by simp
  then have "run_inv (mgr\<lparr>mgr_sendq := q'\<rparr>) Q H (C + n)"
    using e(2,3,4) q(2,4) n' by (simp add: run_inv_def add.commute)
  then show ?thesis using e(1) by (simp add: netbuf_end_flush_def)
qed

lemma nb_run_inv:
  assumes "nb_run env mgr0 mgr Q H C" and "mb_env_ok env" and "run_inv mgr0 [] [] 0"
  shows "run_inv mgr Q H C"
  using assms(1)
proof induction
  case nb_run_start
  show ?case by (rule assms(3))
next
  case (nb_run_enqueue mgr Q H C v parent mgr')
  then show ?case using run_inv_enqueue [OF assms(2) nb_run_enqueue.IH nb_run_enqueue.hyps(2,3), of parent] by auto
next
  case (nb_run_start_flush mgr Q H C niov mgr' iovs ret nused)
  then show ?case using run_inv_start_flush [OF nb_run_start_flush.IH nb_run_start_flush.hyps(2)] by auto
next
  case (nb_run_end_flush mgr Q H C n mgr')
  then show ?case using run_inv_end_flush [OF nb_run_end_flush.IH nb_run_end_flush.hyps(2), of env] by auto
qed


definition small_settings :: nb_SETTINGS where
  "small_settings =
     \<lparr>sndq_cacheblocks = 0, sndq_basealloc = 2, dea_cacheblocks = 0, dea_basealloc = 1, data_cacheblocks = 0, data_basealloc = 64\<rparr>"

text \<open>The manager after one buffer of three bytes at address 100 was queued and handed out.\<close>

definition small_mgr :: "nat option \<Rightarrow> nat \<Rightarrow> nb_MGR" where
  "small_mgr req off =
     (netbuf_init [] [] (Some small_settings))
       \<lparr>mgr_sendq := \<lparr>sq_pending = [\<lparr>se_addr = 4096, se_base = 100, se_len = 3, se_parent = 7\<rparr>], sq_pdus = [],
           sq_last_requested = req, sq_last_offset = off, sq_pdu_offset = 0,
           sq_elempool = one_block_pool (one_block 0 32 None)\<rparr>\<rparr>"

lemma small_enqueue:
  "netbuf_enqueue one_block_env (netbuf_init [] [] (Some small_settings)) \<lparr>iov_base = 100, iov_len = 3\<rparr> 7 = Inr (small_mgr None 0)"
proof -
  have g: "mb_grow 64 32 = Some 64" by (subst mb_grow.simps) simp
  show ?thesis
    by (simp add: netbuf_enqueue_def netbuf_init_def small_settings_def sendq_enqueue_def enqueue_new_def get_sendqe_def
        mblock_reserve_data_def mblock_init_def empty_pool_def fresh_pool_def Let_def reserve_empty_block_def find_free_block_def
        alloc_new_block_def free_cacheblock_def one_block_env_def g mb_deref_def mb_store_def one_block_pool_def one_block_def
        mblock_zero_def SNDQELEM_size_def umul_def SPAN_MBUFFER_NC_def small_mgr_def)
qed

lemma small_start_flush:
  "netbuf_start_flush (small_mgr None 0) 1 = Inr (small_mgr (Some 4096) 3, [\<lparr>iov_base = 100, iov_len = 3\<rparr>], 3, Some 1)"
  by (simp add: netbuf_start_flush_def sendq_start_flush_def small_mgr_def flush_from_def uadd_nowrap)

lemma small_run: "nb_run one_block_env (netbuf_init [] [] (Some small_settings)) (small_mgr (Some 4096) 3) [100, 101, 102] [100, 101, 102] 0"
proof -
  have "nb_run one_block_env (netbuf_init [] [] (Some small_settings)) (small_mgr None 0) [100, 101, 102] [] 0"
    using nb_run_enqueue [OF nb_run_start _ _ small_enqueue] by (simp add: iov_window_def upt_rec)
  from nb_run_start_flush [OF this _ small_start_flush] show ?thesis by (simp add: iov_window_def upt_rec)
qed


section \<open>PDUs\<close>

lemma pdu_loop_spec:
  assumes "\<forall>p \<in> set ps. 0 < f (p - lloff)" and "n < 2 ^ 32" and "pdu_loop (\<lambda>p _. f p) lloff ps n = (ps', n')"
  shows "\<exists>k. ps' = drop k ps \<and> n = n' + sum_list (map (\<lambda>p. f (p - lloff)) (take k ps)) \<and> (ps' \<noteq> [] \<longrightarrow> n' < f (hd ps' - lloff))"
  using assms
proof (induction ps arbitrary: n)
  case Nil
  then show ?case by simp
next
  case (Cons p ps)
  show ?case
  proof (cases "n < f (p - lloff)")
    case True
    then show ?thesis using Cons.prems by (intro exI [of _ 0]) auto
  next
    case False
    then have u: "usub 32 n (f (p - lloff)) = n - f (p - lloff)" using Cons.prems(2) by (simp add: usub_nowrap)
    show ?thesis
    proof (cases "n = f (p - lloff)")
      case True
      then show ?thesis using Cons.prems(1,3) u by (intro exI [of _ 1]) (auto simp: Let_def intro: list.set_sel(1))
    next
      case ne: False
      have lt: "n - f (p - lloff) < 2 ^ 32" using Cons.prems(2) by simp
      obtain k where "ps' = drop k ps" "n - f (p - lloff) = n' + sum_list (map (\<lambda>p. f (p - lloff)) (take k ps))"
        "ps' \<noteq> [] \<longrightarrow> n' < f (hd ps' - lloff)"
        using Cons.IH [OF _ lt] Cons.prems False u ne by (auto simp: Let_def)
      then show ?thesis using False by (intro exI [of _ "Suc k"]) simp
    qed
  qed
qed

lemma window_flushed_pdus:
  "window_flushed env q w = Inr q1 \<Longrightarrow> sq_pdus q1 = sq_pdus q \<and> sq_pdu_offset q1 = sq_pdu_offset q"
  by (auto simp: window_flushed_def Let_def elim!: res_bind_InrE)

lemma window_chopped_pdus:
  "sq_pdus (window_chopped q w c) = sq_pdus q" "sq_pdu_offset (window_chopped q w c) = sq_pdu_offset q"
  by (simp_all add: window_chopped_def)

lemma end_flush_loop_pdus:
  "end_flush_loop env q ws n = Inr (q', rest, m) \<Longrightarrow> sq_pdus q' = sq_pdus q \<and> sq_pdu_offset q' = sq_pdu_offset q"
proof (induction ws arbitrary: q n q' rest m)
  case (Cons w ws)
  define c where "c = (if se_len w < n then se_len w else n)"
  show ?case
  proof (cases "usub 32 (se_len w) c = 0")
    case True
    then have "res_bind (window_flushed env q w) (\<lambda>q1. if usub 32 n c = 0 then Inr (q1, ws, usub 32 n c)
        else end_flush_loop env q1 ws (usub 32 n c)) = Inr (q', rest, m)"
      using Cons.prems by (simp add: Let_def c_def [symmetric])
    then obtain q1 where q1: "window_flushed env q w = Inr q1"
      "(if usub 32 n c = 0 then Inr (q1, ws, usub 32 n c) else end_flush_loop env q1 ws (usub 32 n c)) = Inr (q', rest, m)"
      by (rule res_bind_InrE)
    show ?thesis
      using q1(2) Cons.IH [of q1 "usub 32 n c"] window_flushed_pdus [OF q1(1)] by (cases "usub 32 n c = 0") simp_all
  next
    case False
    show ?thesis
    proof (cases "usub 32 n c = 0")
      case True
      then show ?thesis
        using Cons.prems False by (simp add: Let_def c_def [symmetric]) (auto simp: window_chopped_pdus)
    next
      case nz: False
      then obtain q2 r2 m2 where "end_flush_loop env (window_chopped q w c) ws (usub 32 n c) = Inr (q2, r2, m2)" "q' = q2"
        using Cons.prems False by (auto simp: Let_def c_def [symmetric] elim!: res_bind_InrE)
      then show ?thesis using Cons.IH window_chopped_pdus by metis
    qed
  qed
qed simp

text \<open>
  \<^bold>\<open>C33\<close>. \<open>netbuf_end_flush2\<close> removes from the list of PDUs exactly those that are completely written: the bytes
  confirmed now and the remainder kept from the last call are the sizes of the removed PDUs plus the new
  remainder, which is less than the size of the first PDU that stays.
\<close>

theorem netbuf_end_flush2_pdus:
  assumes "sendq_inv (mgr_sendq mgr)" and "n \<le> in_flight (mgr_sendq mgr)" and "n + sq_pdu_offset (mgr_sendq mgr) < 2 ^ 32"
    and "\<forall>p \<in> set (sq_pdus (mgr_sendq mgr)). 0 < f (p - lloff)"
  shows "\<exists>mgr' k. netbuf_end_flush2 env mgr n (\<lambda>p _. f p) lloff = Inr mgr' \<and>
    sq_pdus (mgr_sendq mgr') = drop k (sq_pdus (mgr_sendq mgr)) \<and>
    n + sq_pdu_offset (mgr_sendq mgr) =
      sq_pdu_offset (mgr_sendq mgr') + sum_list (map (\<lambda>p. f (p - lloff)) (take k (sq_pdus (mgr_sendq mgr)))) \<and>
    (sq_pdus (mgr_sendq mgr') \<noteq> [] \<longrightarrow> sq_pdu_offset (mgr_sendq mgr') < f (hd (sq_pdus (mgr_sendq mgr')) - lloff)) \<and>
    queued (sq_pending (mgr_sendq mgr')) = drop n (queued (sq_pending (mgr_sendq mgr)))"
proof -
  let ?q = "mgr_sendq mgr"
  obtain q1 where e: "sendq_end_flush env ?q n = Inr q1" "queued (sq_pending q1) = drop n (queued (sq_pending ?q))"
    using sendq_end_flush_spec [OF assms(1,2)] by blast
  then have q1: "sq_pdus q1 = sq_pdus ?q" "sq_pdu_offset q1 = sq_pdu_offset ?q"
    by (auto simp: sendq_end_flush_def lcb_assert_eq_Inr dest!: end_flush_loop_pdus elim!: res_bind_InrE)
  obtain ps m where l: "pdu_loop (\<lambda>p _. f p) lloff (sq_pdus ?q) (n + sq_pdu_offset ?q) = (ps, m)"
    by (cases "pdu_loop (\<lambda>p _. f p) lloff (sq_pdus ?q) (n + sq_pdu_offset ?q)")
  then have "netbuf_end_flush2 env mgr n (\<lambda>p _. f p) lloff = Inr (mgr\<lparr>mgr_sendq := q1\<lparr>sq_pdus := ps, sq_pdu_offset := m\<rparr>\<rparr>)"
    using e(1) q1 assms(3) by (simp add: netbuf_end_flush2_def netbuf_end_flush_def Let_def uadd_nowrap)
  then show ?thesis using pdu_loop_spec [OF assms(4,3) l] e(2) by auto
qed

theorem netbuf_end_flush2_pdus_witness:
  "\<exists>mgr'. netbuf_end_flush2 one_block_env (netbuf_pdu_enqueue (small_mgr (Some 4096) 3) 200 0) 3 (\<lambda>p _. if p = 200 then 2 else 5) 0 = Inr mgr' \<and>
     queued (sq_pending (mgr_sendq mgr')) = []"
proof -
  let ?m = "netbuf_pdu_enqueue (small_mgr (Some 4096) 3) 200 0"
  have "run_inv (netbuf_init [] [] (Some small_settings)) [] [] 0"
    by (rule netbuf_init_inv) (simp_all add: small_settings_def SNDQELEM_size_def)
  then have r: "run_inv (small_mgr (Some 4096) 3) [100, 101, 102] [100, 101, 102] 0"
    by (rule nb_run_inv [OF small_run one_block_env_ok])
  have "sendq_inv (mgr_sendq ?m)" using r by (simp add: run_inv_def sendq_inv_def netbuf_pdu_enqueue_def)
  moreover have "in_flight (mgr_sendq ?m) = 3" "sq_pdu_offset (mgr_sendq ?m) = 0" "queued (sq_pending (mgr_sendq ?m)) = [100, 101, 102]"
    by (simp_all add: in_flight_def netbuf_pdu_enqueue_def small_mgr_def window_def upt_rec)
  moreover have "\<forall>p \<in> set (sq_pdus (mgr_sendq ?m)). 0 < (if p - 0 = 200 then 2 else 5 :: nat)" by simp
  ultimately show ?thesis
    using netbuf_end_flush2_pdus [of ?m 3 "\<lambda>p. if p = 200 then 2 else 5" 0 one_block_env] by auto
qed

end
