(* ===== verification/Iov_Cursor.thy ===== *)
theory Iov_Cursor
  imports Netbuf_Sendq
begin

text \<open>
  The I/O-vector cursor of \<open>src/mc/iovcursor.h\<close> and \<open>src/mc/iovcursor-inl.h\<close>: a position in an
  array of buffers, used by the packet forwarder to read a request that is scattered over several
  network buffers.

  Memory is flat, as in \<open>Netbuf_Pool\<close> and \<open>Netbuf_Sendq\<close>: an address is a natural number, and
  \<open>c_mem\<close> gives the byte of every mapped address. A cursor holds the part of the array from its
  \<open>iov\<close> pointer on, so \<open>iov++\<close> is \<open>tl\<close> and reading through an exhausted pointer is a fault. The
  fields of type \<open>unsigned\<close> are 32 bits wide and \<open>iov_len\<close> is 64 bits wide; the conversions between
  them truncate as in C.

  The abstraction is the list of the addresses that are still unread. The three properties say that
  peeking delivers a prefix of that list (after the requested offset) without moving, and that the
  two advancing operations deliver a prefix and drop it.
\<close>

section \<open>Flat memory\<close>

type_synonym c_mem = "nat \<Rightarrow> byte option"

definition mapped :: "c_mem \<Rightarrow> nat list \<Rightarrow> bool" where
  "mapped mem as \<longleftrightarrow> list_all (\<lambda>a. mem a \<noteq> None) as"

definition store_at :: "c_mem \<Rightarrow> nat \<Rightarrow> byte option list \<Rightarrow> c_mem" where
  "store_at mem dst bs = (\<lambda>a. if dst \<le> a \<and> a < dst + length bs then bs ! (a - dst) else mem a)"

definition c_memcpy :: "c_mem \<Rightarrow> nat \<Rightarrow> nat \<Rightarrow> nat \<Rightarrow> c_mem res" where
  "c_memcpy mem dst src n =
     (if mapped mem [src..<src + n] \<and> mapped mem [dst..<dst + n]
      then Inr (store_at mem dst (map mem [src..<src + n])) else Inl OutOfBounds)"

section \<open>The cursor\<close>

record mc_IOVCURSOR =
  cu_iov :: "nb_IOV list"
  cu_niov :: nat
  cu_offset :: nat

record mc_IOVINFO =
  ii_c :: mc_IOVCURSOR
  ii_consumed :: nat
  ii_wanted :: nat
  ii_total :: nat

datatype iovcursor_STATUS =
  IOVCURSOR_STATUS_FRAGMENTED | IOVCURSOR_STATUS_CONTIGPTR_OK | IOVCURSOR_STATUS_BUFCOPY_OK

definition MINIMUM :: "nat \<Rightarrow> nat \<Rightarrow> nat" where
  "MINIMUM a b = (if a < b then a else b)"

definition to_unsigned :: "nat \<Rightarrow> nat" where
  "to_unsigned n = n mod 2 ^ 32"

section \<open>Peeking\<close>

text \<open>
  \<open>copytgt\<close> is a pointer that may be \<open>NULL\<close>. \<open>cref\<close> says whether \<open>contigref\<close> is not \<open>NULL\<close>;
  \<open>out\<close> is what has been stored through it: nothing yet, \<open>NULL\<close>, or a pointer.
\<close>

definition peek_exhausted ::
  "c_mem \<Rightarrow> bool \<Rightarrow> nat \<Rightarrow> (c_mem \<times> iovcursor_STATUS \<times> nat option option) res" where
  "peek_exhausted mem cref len =
     lcb_assert (len = 0)
       (if cref then Inr (mem, IOVCURSOR_STATUS_FRAGMENTED, Some None) else Inl NullPointer)"

fun peek_loop ::
  "c_mem \<Rightarrow> nat \<Rightarrow> nb_IOV list \<Rightarrow> nat option \<Rightarrow> bool \<Rightarrow> nat option option \<Rightarrow> nat \<Rightarrow> nat \<Rightarrow>
   (c_mem \<times> iovcursor_STATUS \<times> nat option option) res" where
  "peek_loop mem 0 iov copytgt cref out len offset = peek_exhausted mem cref len"
| "peek_loop mem (Suc n) iov copytgt cref out len offset =
     (if len = 0 then peek_exhausted mem cref len else
      case iov of [] \<Rightarrow> Inl OutOfBounds
      | cur # rest \<Rightarrow>
        if offset \<noteq> 0 \<and> iov_len cur \<le> offset
        then peek_loop mem n rest copytgt cref out len (usub 32 offset (to_unsigned (iov_len cur)))
        else
          let tmpoff = offset;
              contiglen = to_unsigned (usub 64 (iov_len cur) tmpoff);
              srcbuf = iov_base cur + tmpoff
          in if len \<le> contiglen then
               (if cref then Inr (mem, IOVCURSOR_STATUS_CONTIGPTR_OK, Some (Some srcbuf))
                else case copytgt of None \<Rightarrow> Inl NullPointer
                  | Some tgt \<Rightarrow> res_bind (c_memcpy mem tgt srcbuf len)
                      (\<lambda>mem. Inr (mem, IOVCURSOR_STATUS_BUFCOPY_OK, out)))
             else case copytgt of
               None \<Rightarrow> if cref then Inr (mem, IOVCURSOR_STATUS_FRAGMENTED, Some None)
                       else Inl NullPointer
             | Some tgt \<Rightarrow>
                 let to_copy = to_unsigned (MINIMUM len (usub 64 (iov_len cur) tmpoff));
                     out = (if cref then Some None else out);
                     len = usub 32 len to_copy
                 in res_bind (c_memcpy mem tgt srcbuf to_copy)
                      (\<lambda>mem. if len = 0 then Inr (mem, IOVCURSOR_STATUS_BUFCOPY_OK, out)
                        else peek_loop mem n rest (Some (tgt + to_copy)) False out len 0))"

definition iovcursor_peek_ex ::
  "c_mem \<Rightarrow> mc_IOVCURSOR \<Rightarrow> nat option \<Rightarrow> bool \<Rightarrow> nat \<Rightarrow> nat \<Rightarrow>
   (c_mem \<times> iovcursor_STATUS \<times> nat option option) res" where
  "iovcursor_peek_ex mem cursor copytgt cref len offset =
     peek_loop mem (cu_niov cursor) (cu_iov cursor) copytgt cref None len
       (uadd 32 offset (cu_offset cursor))"

definition iovcursor_peek :: "c_mem \<Rightarrow> mc_IOVCURSOR \<Rightarrow> nat \<Rightarrow> nat \<Rightarrow> nat \<Rightarrow> (c_mem \<times> bool) res" where
  "iovcursor_peek mem cursor buf len offset =
     res_bind (iovcursor_peek_ex mem cursor (Some buf) False len offset)
       (\<lambda>(mem, rv, _). Inr (mem, rv = IOVCURSOR_STATUS_BUFCOPY_OK))"

section \<open>Advancing\<close>

definition iovcursor_adv_first :: "mc_IOVCURSOR \<Rightarrow> nat \<Rightarrow> (mc_IOVCURSOR \<times> nb_IOV) res" where
  "iovcursor_adv_first cursor maxsize =
     (case cu_iov cursor of [] \<Rightarrow> Inl OutOfBounds
      | cur # rest \<Rightarrow>
        let avail = usub 64 (iov_len cur) (cu_offset cursor);
            len = MINIMUM avail maxsize
        in Inr
          (if len = avail
           then cursor\<lparr>cu_iov := rest, cu_niov := usub 32 (cu_niov cursor) 1, cu_offset := 0\<rparr>
           else cursor\<lparr>cu_offset := uadd 32 (cu_offset cursor) (to_unsigned len)\<rparr>,
           \<lparr>iov_base = iov_base cur + cu_offset cursor, iov_len = len\<rparr>))"

fun copy_loop ::
  "c_mem \<Rightarrow> nb_IOV list \<Rightarrow> nat \<Rightarrow> nat \<Rightarrow> nat \<Rightarrow> nat \<Rightarrow> (c_mem \<times> nb_IOV list \<times> nat \<times> nat) res" where
  "copy_loop mem [] niov off tgt len = (if len = 0 then Inr (mem, [], niov, off) else Inl OutOfBounds)"
| "copy_loop mem (cur # rest) niov off tgt len =
     (if len = 0 then Inr (mem, cur # rest, niov, off) else
      let to_copy = to_unsigned (MINIMUM (iov_len cur) len);
          len = usub 32 len to_copy
      in res_bind (c_memcpy mem tgt (iov_base cur) to_copy)
           (\<lambda>mem. if to_copy \<noteq> iov_len cur
              then lcb_assert (len = 0) (Inr (mem, cur # rest, niov, to_copy))
              else copy_loop mem rest (usub 32 niov 1) off (tgt + to_copy) len))"

definition iovcursor_adv_copy :: "c_mem \<Rightarrow> mc_IOVCURSOR \<Rightarrow> nat \<Rightarrow> nat \<Rightarrow> (c_mem \<times> mc_IOVCURSOR) res" where
  "iovcursor_adv_copy mem cursor tgt len =
     res_bind (iovcursor_adv_first cursor len) (\<lambda>(cursor, tmpiov).
     res_bind (c_memcpy mem tgt (iov_base tmpiov) (iov_len tmpiov)) (\<lambda>mem.
     res_bind (copy_loop mem (cu_iov cursor) (cu_niov cursor) (cu_offset cursor) (tgt + iov_len tmpiov)
         (usub 32 len (to_unsigned (iov_len tmpiov)))) (\<lambda>(mem, iov, niov, off).
     Inr (mem, cursor\<lparr>cu_iov := iov, cu_niov := niov, cu_offset := off\<rparr>))))"

definition IOVCURSOR_HAS_CONTIG :: "mc_IOVCURSOR \<Rightarrow> nat \<Rightarrow> bool res" where
  "IOVCURSOR_HAS_CONTIG mincur n =
     (case cu_iov mincur of [] \<Rightarrow> Inl OutOfBounds
      | cur # _ \<Rightarrow> Inr (n \<le> usub 64 (iov_len cur) (cu_offset mincur)))"

text \<open>
  \<open>malloc n\<close> is the array of \<open>n\<close> uninitialised elements, or \<open>None\<close> when the allocation fails; the
  elements are written one by one with a check against its length.
\<close>

fun count_iovs :: "nb_IOV list \<Rightarrow> nat \<Rightarrow> nat res" where
  "count_iovs [] cursz = (if cursz = 0 then Inr 0 else Inl OutOfBounds)"
| "count_iovs (cur # rest) cursz =
     (if cursz = 0 then Inr 0
      else res_bind (count_iovs rest (usub 32 cursz (to_unsigned (MINIMUM cursz (iov_len cur)))))
        (\<lambda>ii. Inr (uadd 32 ii 1)))"

fun fill_arr ::
  "nb_IOV list \<Rightarrow> nat \<Rightarrow> nat \<Rightarrow> nb_IOV list \<Rightarrow> nat \<Rightarrow> nat \<Rightarrow> (nb_IOV list \<times> nb_IOV list \<times> nat \<times> nat) res" where
  "fill_arr [] niov off arr ii len = (if len = 0 then Inr (arr, [], niov, off) else Inl OutOfBounds)"
| "fill_arr (cur # rest) niov off arr ii len =
     (if len = 0 then Inr (arr, cur # rest, niov, off) else
      let to_adv = to_unsigned (MINIMUM len (iov_len cur))
      in res_bind (mem_set arr ii \<lparr>iov_base = iov_base cur, iov_len = MINIMUM len (iov_len cur)\<rparr>) (\<lambda>arr.
         let len = usub 32 len to_adv
         in if len = 0 \<and> to_adv < iov_len cur then Inr (arr, cur # rest, niov, to_adv)
            else fill_arr rest (usub 32 niov 1) off arr (uadd 32 ii 1) len))"

definition iovcursor_adv_iovalloc ::
  "(nat \<Rightarrow> nb_IOV list option) \<Rightarrow> mc_IOVCURSOR \<Rightarrow> nat \<Rightarrow> (mc_IOVCURSOR \<times> nb_IOV list \<times> nat) res" where
  "iovcursor_adv_iovalloc malloc cursor len =
     res_bind (iovcursor_adv_first cursor len) (\<lambda>(cursor, dummy).
     let len = usub 32 len (to_unsigned (iov_len dummy))
     in res_bind (if len \<noteq> 0 then res_bind (count_iovs (cu_iov cursor) len) (\<lambda>ii. Inr (uadd 32 1 ii))
                  else Inr 1) (\<lambda>narr.
     case malloc narr of None \<Rightarrow> Inl NullPointer
     | Some arr \<Rightarrow>
       res_bind (mem_set arr 0 dummy) (\<lambda>arr.
       res_bind (fill_arr (cu_iov cursor) (cu_niov cursor) (cu_offset cursor) arr 1 len)
         (\<lambda>(arr, iov, niov, off).
       Inr (cursor\<lparr>cu_iov := iov, cu_niov := niov, cu_offset := off\<rparr>, arr, narr)))))"

fun sum_iov_len :: "nb_IOV list \<Rightarrow> nat \<Rightarrow> nat" where
  "sum_iov_len [] acc = acc"
| "sum_iov_len (v # vs) acc = sum_iov_len vs (uadd 32 acc (to_unsigned (iov_len v)))"

definition mc_iovinfo_init :: "mc_IOVINFO \<Rightarrow> nb_IOV list \<Rightarrow> mc_IOVINFO" where
  "mc_iovinfo_init info iov =
     info\<lparr>ii_c := \<lparr>cu_iov = iov, cu_niov = to_unsigned (length iov), cu_offset = 0\<rparr>,
          ii_total := sum_iov_len iov 0\<rparr>"

section \<open>The cursor as a sequence of addresses\<close>

definition iov_addrs :: "nb_IOV list \<Rightarrow> nat list" where
  "iov_addrs vs = concat (map iov_window vs)"

definition remaining :: "mc_IOVCURSOR \<Rightarrow> nat list" where
  "remaining cursor = drop (cu_offset cursor) (iov_addrs (cu_iov cursor))"

definition cursor_wf :: "mc_IOVCURSOR \<Rightarrow> bool" where
  "cursor_wf cursor \<longleftrightarrow>
     cu_niov cursor = length (cu_iov cursor) \<and> length (cu_iov cursor) < 2 ^ 32 \<and>
     length (iov_addrs (cu_iov cursor)) < 2 ^ 32 \<and>
     cu_offset cursor \<le> (case cu_iov cursor of [] \<Rightarrow> 0 | v # _ \<Rightarrow> iov_len v)"

definition disjoint_from :: "nat list \<Rightarrow> nat \<Rightarrow> nat \<Rightarrow> bool" where
  "disjoint_from as t n \<longleftrightarrow> list_all (\<lambda>a. a < t \<or> t + n \<le> a) as"

lemma iov_addrs_simps [simp]:
  "iov_addrs [] = []"
  "iov_addrs (v # vs) = [iov_base v..<iov_base v + iov_len v] @ iov_addrs vs"
  by (simp_all add: iov_addrs_def iov_window_def)

lemma remaining_update [simp]:
  "remaining (c\<lparr>cu_iov := vs, cu_niov := n, cu_offset := off\<rparr>) = drop off (iov_addrs vs)"
  by (simp add: remaining_def)

lemma mapped_simps [simp]:
  "mapped mem []" "mapped mem (as @ bs) \<longleftrightarrow> mapped mem as \<and> mapped mem bs"
  by (simp_all add: mapped_def)

lemma mapped_subset: "mapped mem as \<Longrightarrow> set bs \<subseteq> set as \<Longrightarrow> mapped mem bs"
  by (auto simp: mapped_def list_all_iff)

lemma mapped_upt: "mapped mem [a..<b] \<Longrightarrow> a \<le> c \<Longrightarrow> d \<le> b \<Longrightarrow> mapped mem [c..<d]"
  by (rule mapped_subset) auto

lemma mapped_take_drop: "mapped mem as \<Longrightarrow> mapped mem (take n as)" "mapped mem as \<Longrightarrow> mapped mem (drop n as)"
  by (auto elim!: mapped_subset dest: in_set_takeD in_set_dropD)

lemma mapped_store_at:
  assumes "mapped mem as" and "mapped mem bs"
  shows "mapped (store_at mem t (map mem as)) bs"
  using assms by (auto simp: mapped_def list_all_iff store_at_def)

lemma store_at_disjoint:
  assumes "disjoint_from as t n" and "length bs \<le> n"
  shows "map (store_at mem t bs) as = map mem as"
  using assms by (force simp: disjoint_from_def list_all_iff store_at_def)

lemma store_at_here: "map (store_at mem t bs) [t..<t + length bs] = bs"
  by (rule nth_equalityI) (simp_all add: store_at_def)

lemma store_at_empty [simp]: "store_at mem t [] = mem"
  by (rule ext) (simp add: store_at_def del: not_less, linarith)

lemma store_at_append: "store_at (store_at mem t bs) (t + length bs) cs = store_at mem t (bs @ cs)"
proof
  fix a
  show "store_at (store_at mem t bs) (t + length bs) cs a = store_at mem t (bs @ cs) a"
    by (cases "a < t + length bs") (auto simp: store_at_def nth_append)
qed

lemma disjoint_from_subset:
  assumes "disjoint_from as t n" and "set bs \<subseteq> set as" and "t \<le> u" and "u + m \<le> t + n"
  shows "disjoint_from bs u m"
  using assms by (force simp: disjoint_from_def list_all_iff)

lemma c_memcpy_ok:
  assumes "mapped mem [src..<src + n]" and "mapped mem [dst..<dst + n]"
  shows "c_memcpy mem dst src n = Inr (store_at mem dst (map mem [src..<src + n]))"
  using assms by (simp add: c_memcpy_def)

text \<open>Two copies into adjacent targets are one copy of the concatenated sources.\<close>

lemma store_at_two:
  assumes "disjoint_from bs t (length as + length bs)"
  shows "store_at (store_at mem t (map mem as)) (t + length as)
      (map (store_at mem t (map mem as)) bs) = store_at mem t (map mem (as @ bs))"
  by (simp only: store_at_disjoint [OF assms, of "map mem as" mem, simplified length_map, OF le_add1]
      map_append store_at_append [of mem t "map mem as" "map mem bs", simplified length_map])

lemma to_unsigned_id [simp]: "n < 2 ^ 32 \<Longrightarrow> to_unsigned n = n"
  by (simp add: to_unsigned_def)

lemma take_upt_iov:
  "n \<le> iov_len v \<Longrightarrow> take n ([iov_base v..<iov_base v + iov_len v] @ as) = [iov_base v..<iov_base v + n]"
  by simp

lemma adv_first_ok:
  assumes "cursor_wf cursor" and "cu_iov cursor \<noteq> []" and "n < 2 ^ 32"
  obtains cursor' v where "iovcursor_adv_first cursor n = Inr (cursor', v)"
    and "iov_window v = take (iov_len v) (remaining cursor)"
    and "iov_len v \<le> n" and "iov_len v \<le> length (remaining cursor)"
    and "cursor_wf cursor'" and "remaining cursor' = drop (iov_len v) (remaining cursor)"
    and "iov_len v < n \<longrightarrow> cu_offset cursor' = 0 \<and> length (cu_iov cursor') < length (cu_iov cursor)"
proof -
  obtain cur rest where vs: "cu_iov cursor = cur # rest" using assms(2) by (cases "cu_iov cursor") auto
  define off where "off = cu_offset cursor"
  have off: "off \<le> iov_len cur" and len: "length (iov_addrs (cur # rest)) < 2 ^ 32"
    and niov: "cu_niov cursor = Suc (length rest)" "Suc (length rest) < 2 ^ 32"
    using assms(1) vs by (simp_all add: cursor_wf_def off_def)
  have L: "iov_len cur < 2 ^ 32" using len by simp
  have avail: "usub 64 (iov_len cur) off = iov_len cur - off"
    using off L by (intro usub_nowrap) simp_all
  have rem: "remaining cursor = [iov_base cur + off..<iov_base cur + iov_len cur] @ iov_addrs rest"
    using off by (simp add: remaining_def vs off_def [symmetric])
  define v where "v = \<lparr>iov_base = iov_base cur + off, iov_len = MINIMUM (iov_len cur - off) n\<rparr>"
  have v: "iov_window v = take (iov_len v) (remaining cursor)" "iov_len v \<le> n"
    "iov_len v \<le> length (remaining cursor)"
    using off by (auto simp: v_def MINIMUM_def iov_window_def rem)
  show ?thesis
  proof (cases "iov_len cur - off \<le> n")
    case True
    define c where "c = cursor\<lparr>cu_iov := rest, cu_niov := usub 32 (cu_niov cursor) 1, cu_offset := 0\<rparr>"
    have lv: "iov_len v = iov_len cur - off" using True by (simp add: v_def MINIMUM_def)
    have "iovcursor_adv_first cursor n = Inr (c, v)"
      using True by (auto simp: iovcursor_adv_first_def vs off_def [symmetric] avail c_def v_def MINIMUM_def)
    moreover have "cursor_wf c"
      using niov len by (simp add: cursor_wf_def c_def unsigned_simps split: list.split)
    moreover have "remaining c = drop (iov_len v) (remaining cursor)"
      using off by (simp add: rem lv) (simp add: c_def remaining_def)
    ultimately show thesis by (rule that [OF _ v]) (simp add: c_def vs)
  next
    case False
    define c where "c = cursor\<lparr>cu_offset := uadd 32 off (to_unsigned n)\<rparr>"
    have lv: "iov_len v = n" using False by (simp add: v_def MINIMUM_def)
    have "off + n < 2 ^ 32" using False L by simp
    then have c: "c = cursor\<lparr>cu_offset := off + n\<rparr>" using assms(3) by (simp add: c_def unsigned_simps)
    have "iovcursor_adv_first cursor n = Inr (c, v)"
      using False by (auto simp: iovcursor_adv_first_def vs off_def [symmetric] avail c_def v_def MINIMUM_def)
    moreover have "cursor_wf c"
      using niov len False by (simp add: cursor_wf_def c vs)
    moreover have "remaining c = drop (iov_len v) (remaining cursor)"
      by (simp add: lv c remaining_def off_def add.commute)
    ultimately show thesis by (rule that [OF _ v]) (simp add: lv)
  qed
qed

definition drop_ok :: "nb_IOV list \<Rightarrow> nat \<Rightarrow> nb_IOV list \<Rightarrow> nat \<Rightarrow> nat \<Rightarrow> bool" where
  "drop_ok vs len vs' niov' off' \<longleftrightarrow>
     cursor_wf \<lparr>cu_iov = vs', cu_niov = niov', cu_offset = off'\<rparr> \<and>
     drop off' (iov_addrs vs') = drop len (iov_addrs vs)"

lemma copy_loop_ok:
  assumes "len \<le> length (iov_addrs vs)" and "length (iov_addrs vs) < 2 ^ 32" and "length vs < 2 ^ 32"
    and "mapped mem (iov_addrs vs)" and "mapped mem [t..<t + len]" and "disjoint_from (iov_addrs vs) t len"
  shows "\<exists>vs' niov' off'. copy_loop mem vs (length vs) 0 t len =
      Inr (store_at mem t (map mem (take len (iov_addrs vs))), vs', niov', off') \<and> drop_ok vs len vs' niov' off'"
  using assms
proof (induction vs arbitrary: mem t len)
  case Nil
  then show ?case by (simp add: drop_ok_def cursor_wf_def)
next
  case (Cons v vs)
  show ?case
  proof (cases "len = 0")
    case True
    then show ?thesis using Cons.prems by (simp add: drop_ok_def cursor_wf_def)
  next
    case False
    define k where "k = MINIMUM (iov_len v) len"
    have k: "k \<le> iov_len v" "k \<le> len" "k < 2 ^ 32" "len < 2 ^ 32" "to_unsigned k = k"
      using Cons.prems by (auto simp: k_def MINIMUM_def)
    have sub: "usub 32 len k = len - k" using k by (intro usub_nowrap) simp_all
    define mem' where "mem' = store_at mem t (map mem [iov_base v..<iov_base v + k])"
    have cpy: "c_memcpy mem t (iov_base v) k = Inr mem'"
      unfolding mem'_def using Cons.prems k
      by (intro c_memcpy_ok) (auto intro: mapped_upt)
    show ?thesis
    proof (cases "len < iov_len v")
      case True
      then have [simp]: "k = len" by (simp add: k_def MINIMUM_def)
      have "copy_loop mem (v # vs) (length (v # vs)) 0 t len = Inr (mem', v # vs, length (v # vs), len)"
        using False True cpy sub k(5) by (simp add: k_def [symmetric] Let_def)
      moreover have "drop_ok (v # vs) len (v # vs) (length (v # vs)) len"
        using Cons.prems True by (simp add: drop_ok_def cursor_wf_def)
      ultimately show ?thesis using True by (auto simp: mem'_def)
    next
      case nf: False
      then have kv: "k = iov_len v" by (auto simp: k_def MINIMUM_def)
      have n1: "usub 32 (Suc (length vs)) 1 = length vs" using Cons.prems by (simp add: usub_nowrap)
      have "copy_loop mem (v # vs) (length (v # vs)) 0 t len = copy_loop mem' vs (length vs) 0 (t + k) (len - k)"
        using False nf cpy sub k(5) n1 kv by (simp add: k_def [symmetric] Let_def)
      moreover have "\<exists>vs' niov' off'. copy_loop mem' vs (length vs) 0 (t + k) (len - k) =
          Inr (store_at mem' (t + k) (map mem' (take (len - k) (iov_addrs vs))), vs', niov', off') \<and>
          drop_ok vs (len - k) vs' niov' off'"
      proof (rule Cons.IH)
        show "mapped mem' (iov_addrs vs)" "mapped mem' [t + k..<t + k + (len - k)]"
          unfolding mem'_def using Cons.prems k
          by (auto intro!: mapped_store_at intro: mapped_upt)
        show "disjoint_from (iov_addrs vs) (t + k) (len - k)"
          using Cons.prems(6) k by (auto elim!: disjoint_from_subset)
      qed (use Cons.prems kv in simp_all)
      moreover have "store_at mem' (t + k) (map mem' (take (len - k) (iov_addrs vs))) =
          store_at mem t (map mem (take len (iov_addrs (v # vs))))"
      proof -
        have "disjoint_from (take (len - k) (iov_addrs vs)) t
            (length [iov_base v..<iov_base v + k] + length (take (len - k) (iov_addrs vs)))"
          using Cons.prems(1,6) kv k
          by (intro disjoint_from_subset [OF Cons.prems(6)]) (auto dest: in_set_takeD)
        from store_at_two [OF this, of mem] show ?thesis
          using k kv nf by (simp add: mem'_def)
      qed
      moreover have "drop_ok vs (len - k) vs' niov' off' \<Longrightarrow> drop_ok (v # vs) len vs' niov' off'"
        for vs' niov' off' using kv nf by (simp add: drop_ok_def)
      ultimately show ?thesis by auto
    qed
  qed
qed

lemma copy_loop_cursor:
  assumes "cursor_wf c" and "0 < len \<longrightarrow> cu_offset c = 0" and "len \<le> length (remaining c)"
    and "mapped mem (remaining c)" and "mapped mem [t..<t + len]" and "disjoint_from (remaining c) t len"
  shows "\<exists>vs' niov' off'. copy_loop mem (cu_iov c) (cu_niov c) (cu_offset c) t len =
      Inr (store_at mem t (map mem (take len (remaining c))), vs', niov', off') \<and>
      cursor_wf (c\<lparr>cu_iov := vs', cu_niov := niov', cu_offset := off'\<rparr>) \<and>
      drop off' (iov_addrs vs') = drop len (remaining c)"
proof (cases "len = 0")
  case True
  then have "copy_loop mem (cu_iov c) (cu_niov c) (cu_offset c) t len = Inr (mem, cu_iov c, cu_niov c, cu_offset c)"
    by (cases "cu_iov c") simp_all
  then show ?thesis using True assms(1) by (auto simp: remaining_def)
next
  case False
  then have "cu_offset c = 0" "cu_niov c = length (cu_iov c)" "remaining c = iov_addrs (cu_iov c)"
    using assms(1,2) by (simp_all add: cursor_wf_def remaining_def)
  moreover from this have "\<exists>vs' niov' off'. copy_loop mem (cu_iov c) (length (cu_iov c)) 0 t len =
      Inr (store_at mem t (map mem (take len (iov_addrs (cu_iov c)))), vs', niov', off') \<and>
      drop_ok (cu_iov c) len vs' niov' off'"
    using assms by (intro copy_loop_ok) (simp_all add: cursor_wf_def)
  ultimately show ?thesis by (auto simp: drop_ok_def cursor_wf_def)
qed

lemma iovcursor_adv_copy_ok:
  assumes "cursor_wf cursor" and "0 < len" and "len \<le> length (remaining cursor)"
    and "mapped mem (remaining cursor)" and "mapped mem [t..<t + len]"
    and "disjoint_from (remaining cursor) t len"
  shows "\<exists>cursor'. iovcursor_adv_copy mem cursor t len =
      Inr (store_at mem t (map mem (take len (remaining cursor))), cursor') \<and>
      cursor_wf cursor' \<and> remaining cursor' = drop len (remaining cursor)"
proof -
  have ne: "cu_iov cursor \<noteq> []" and len: "len < 2 ^ 32"
    using assms(1,2,3) by (auto simp: remaining_def cursor_wf_def)
  obtain c v where first: "iovcursor_adv_first cursor len = Inr (c, v)"
    and w: "iov_window v = take (iov_len v) (remaining cursor)"
    and le: "iov_len v \<le> len" "iov_len v \<le> length (remaining cursor)"
    and wf: "cursor_wf c" and rem: "remaining c = drop (iov_len v) (remaining cursor)"
    and off: "iov_len v < len \<longrightarrow> cu_offset c = 0 \<and> length (cu_iov c) < length (cu_iov cursor)"
    using adv_first_ok [OF assms(1) ne len] by metis
  define k where "k = iov_len v"
  define mem' where "mem' = store_at mem t (map mem (take k (remaining cursor)))"
  have k: "k \<le> len" "remaining c = drop k (remaining cursor)" using le rem by (simp_all add: k_def)
  have "mapped mem (iov_window v)"
    using assms(4) by (rule mapped_subset) (auto simp: w dest: in_set_takeD)
  then have cpy: "c_memcpy mem t (iov_base v) k = Inr mem'"
    unfolding mem'_def using c_memcpy_ok [of mem "iov_base v" k t] mapped_upt [OF assms(5), of t "t + k"] k
    by (simp add: k_def w [symmetric] iov_window_def)
  have sub: "usub 32 len (to_unsigned k) = len - k"
    using k(1) len by (simp add: usub_nowrap)
  have "\<exists>vs' niov' off'. copy_loop mem' (cu_iov c) (cu_niov c) (cu_offset c) (t + k) (len - k) =
      Inr (store_at mem' (t + k) (map mem' (take (len - k) (remaining c))), vs', niov', off') \<and>
      cursor_wf (c\<lparr>cu_iov := vs', cu_niov := niov', cu_offset := off'\<rparr>) \<and>
      drop off' (iov_addrs vs') = drop (len - k) (remaining c)"
  proof (rule copy_loop_cursor [OF wf])
    show "mapped mem' (remaining c)" "mapped mem' [t + k..<t + k + (len - k)]"
      unfolding mem'_def k(2) using assms(4,5) k(1)
      by (auto intro!: mapped_store_at mapped_take_drop intro: mapped_upt)
    show "disjoint_from (remaining c) (t + k) (len - k)"
      unfolding k(2) using k(1) by (intro disjoint_from_subset [OF assms(6)]) (auto dest: in_set_dropD)
  qed (use off k assms(3) in \<open>auto simp: k_def\<close>)
  moreover have "store_at mem' (t + k) (map mem' (take (len - k) (remaining c))) =
      store_at mem t (map mem (take len (remaining cursor)))"
  proof -
    have "disjoint_from (take (len - k) (drop k (remaining cursor))) t
        (length (take k (remaining cursor)) + length (take (len - k) (drop k (remaining cursor))))"
      using assms(3) k(1)
      by (intro disjoint_from_subset [OF assms(6)]) (auto dest: in_set_takeD in_set_dropD)
    from store_at_two [OF this, of mem] show ?thesis
      using k assms(3) by (simp add: mem'_def take_add [symmetric] flip: map_append)
  qed
  ultimately show ?thesis
    using cpy sub k by (auto simp: iovcursor_adv_copy_def first k_def [symmetric])
qed

lemma count_iovs_ok:
  assumes "len \<le> length (iov_addrs vs)" and "length (iov_addrs vs) < 2 ^ 32" and "length vs < 2 ^ 32"
  shows "\<exists>m. count_iovs vs len = Inr m \<and> m \<le> length vs"
  using assms
proof (induction vs arbitrary: len)
  case Nil
  then show ?case by simp
next
  case (Cons v vs)
  define k where "k = MINIMUM len (iov_len v)"
  have k: "k \<le> len" "k \<le> iov_len v" "len - k \<le> length (iov_addrs vs)" "len < 2 ^ 32"
    using Cons.prems by (auto simp: k_def MINIMUM_def)
  then have sub: "usub 32 len (to_unsigned k) = len - k" by (simp add: usub_nowrap)
  obtain m where m: "count_iovs vs (len - k) = Inr m" "m \<le> length vs"
    using Cons.IH [OF k(3)] Cons.prems by auto
  then have "uadd 32 m 1 = Suc m" using Cons.prems by (simp add: uadd_nowrap)
  then show ?case using m by (simp add: k_def [symmetric] sub)
qed

lemma fill_arr_ok:
  assumes "len \<le> length (iov_addrs vs)" and "length (iov_addrs vs) < 2 ^ 32" and "length vs < 2 ^ 32"
    and "count_iovs vs len = Inr m" and "length arr = ii + m" and "ii + m < 2 ^ 32"
  shows "\<exists>ws vs' niov' off'. fill_arr vs (length vs) 0 arr ii len = Inr (take ii arr @ ws, vs', niov', off') \<and>
      drop_ok vs len vs' niov' off' \<and> length ws = m \<and> iov_addrs ws = take len (iov_addrs vs)"
  using assms
proof (induction vs arbitrary: len m arr ii)
  case Nil
  then show ?case by (simp add: drop_ok_def cursor_wf_def)
next
  case (Cons v vs)
  show ?case
  proof (cases "len = 0")
    case True
    then show ?thesis using Cons.prems by (simp add: drop_ok_def cursor_wf_def)
  next
    case False
    define k where "k = MINIMUM len (iov_len v)"
    define w where "w = \<lparr>iov_base = iov_base v, iov_len = k\<rparr>"
    have k: "k \<le> len" "k \<le> iov_len v" "len - k \<le> length (iov_addrs vs)" "len < 2 ^ 32" "k < 2 ^ 32"
      using Cons.prems by (auto simp: k_def MINIMUM_def)
    then have sub: "usub 32 len (to_unsigned k) = len - k" by (simp add: usub_nowrap)
    obtain m' where m': "count_iovs vs (len - k) = Inr m'" "m' \<le> length vs"
      using count_iovs_ok [OF k(3)] Cons.prems by auto
    have "uadd 32 m' 1 = Suc m'" using Cons.prems m' by (simp add: uadd_nowrap)
    then have m: "m = Suc m'" using Cons.prems(4) m' False by (simp add: k_def [symmetric] sub)
    have arr: "take (Suc ii) (arr[ii := w]) = take ii arr @ [w]"
      using Cons.prems(5) m by (simp add: take_Suc_conv_app_nth)
    have step: "fill_arr (v # vs) (length (v # vs)) 0 arr ii len =
        (if len - k = 0 \<and> k < iov_len v then Inr (arr[ii := w], v # vs, length (v # vs), k)
         else fill_arr vs (length vs) 0 (arr[ii := w]) (Suc ii) (len - k))"
      using False Cons.prems m k sub
      by (simp add: k_def [symmetric] Let_def mem_set_def w_def usub_nowrap uadd_nowrap)
    show ?thesis
    proof (cases "len - k = 0 \<and> k < iov_len v")
      case True
      then have "k = len" "m' = 0" using k m' by (cases vs; simp)+
      then have "arr[ii := w] = take ii arr @ [w]" using arr Cons.prems(5) m by simp
      moreover have "drop_ok (v # vs) len (v # vs) (length (v # vs)) k"
        using True \<open>k = len\<close> Cons.prems by (simp add: drop_ok_def cursor_wf_def)
      moreover have "iov_addrs [w] = take len (iov_addrs (v # vs))"
        using True \<open>k = len\<close> by (simp add: w_def)
      ultimately show ?thesis using step True m \<open>m' = 0\<close> by (auto intro!: exI [of _ "[w]"])
    next
      case nf: False
      then have kv: "k = iov_len v" using k(1) by (auto simp: k_def MINIMUM_def split: if_splits)
      obtain ws vs' niov' off' where
        "fill_arr vs (length vs) 0 (arr[ii := w]) (Suc ii) (len - k) =
           Inr (take (Suc ii) (arr[ii := w]) @ ws, vs', niov', off')"
        and "drop_ok vs (len - k) vs' niov' off'" "length ws = m'"
        "iov_addrs ws = take (len - k) (iov_addrs vs)"
        using Cons.IH [OF k(3) _ _ m'(1), of "arr[ii := w]" "Suc ii"] Cons.prems m by auto
      moreover from this(2) have "drop_ok (v # vs) len vs' niov' off'"
        using kv k(1) by (simp add: drop_ok_def)
      moreover have "take len (iov_addrs (v # vs)) = iov_addrs [w] @ take (len - k) (iov_addrs vs)"
        using kv k(1) by (simp add: w_def)
      ultimately show ?thesis
        using step nf arr m by (auto intro!: exI [of _ "w # ws"])
    qed
  qed
qed

text \<open>What \<open>malloc\<close> promises: an array it returns has the requested size. It may return \<open>NULL\<close>.\<close>

definition iov_malloc_ok :: "(nat \<Rightarrow> nb_IOV list option) \<Rightarrow> bool" where
  "iov_malloc_ok malloc \<longleftrightarrow> (\<forall>n arr. malloc n = Some arr \<longrightarrow> length arr = n)"

lemma fill_arr_cursor:
  assumes "cursor_wf c" and "0 < len \<longrightarrow> cu_offset c = 0 \<and> Suc (length (cu_iov c)) < 2 ^ 32"
    and "len \<le> length (remaining c)"
  shows "\<exists>m. (if len \<noteq> 0 then res_bind (count_iovs (cu_iov c) len) (\<lambda>ii. Inr (uadd 32 1 ii)) else Inr 1) =
      Inr (Suc m) \<and>
      (\<forall>arr. length arr = Suc m \<longrightarrow> (\<exists>ws vs' niov' off'.
        fill_arr (cu_iov c) (cu_niov c) (cu_offset c) arr 1 len = Inr (take 1 arr @ ws, vs', niov', off') \<and>
        cursor_wf (c\<lparr>cu_iov := vs', cu_niov := niov', cu_offset := off'\<rparr>) \<and>
        drop off' (iov_addrs vs') = drop len (remaining c) \<and>
        length ws = m \<and> iov_addrs ws = take len (remaining c)))"
proof (cases "len = 0")
  case True
  have "fill_arr (cu_iov c) (cu_niov c) (cu_offset c) arr 1 len = Inr (arr, cu_iov c, cu_niov c, cu_offset c)" for arr
    using True by (cases "cu_iov c") simp_all
  then show ?thesis using True assms(1) by (auto simp: remaining_def)
next
  case False
  then have c: "cu_offset c = 0" "cu_niov c = length (cu_iov c)" "remaining c = iov_addrs (cu_iov c)"
    "Suc (length (cu_iov c)) < 2 ^ 32" "length (iov_addrs (cu_iov c)) < 2 ^ 32"
    using assms(1,2) by (simp_all add: cursor_wf_def remaining_def)
  obtain m where m: "count_iovs (cu_iov c) len = Inr m" "m \<le> length (cu_iov c)"
    using count_iovs_ok [of len "cu_iov c"] assms(3) c by auto
  then have "uadd 32 1 m = Suc m" using c(4) by (simp add: uadd_nowrap)
  moreover have "\<exists>ws vs' niov' off'. fill_arr (cu_iov c) (length (cu_iov c)) 0 arr 1 len =
      Inr (take 1 arr @ ws, vs', niov', off') \<and> drop_ok (cu_iov c) len vs' niov' off' \<and>
      length ws = m \<and> iov_addrs ws = take len (iov_addrs (cu_iov c))" if "length arr = Suc m" for arr
    using assms(3) c m that by (intro fill_arr_ok) simp_all
  ultimately show ?thesis
    using False m c(1,2,3) by (auto simp: drop_ok_def cursor_wf_def)
qed

definition peeked ::
  "c_mem \<Rightarrow> nat \<Rightarrow> bool \<Rightarrow> nat option option \<Rightarrow> nat list \<Rightarrow>
   c_mem \<times> iovcursor_STATUS \<times> nat option option \<Rightarrow> bool" where
  "peeked mem t cref out as r \<longleftrightarrow>
     cref \<and> (\<exists>p. r = (mem, IOVCURSOR_STATUS_CONTIGPTR_OK, Some (Some p)) \<and> as = [p..<p + length as]) \<or>
     r = (store_at mem t (map mem as), IOVCURSOR_STATUS_BUFCOPY_OK, if cref then Some None else out)"

lemma peek_loop_ok:
  assumes "0 < len" and "offset + len \<le> length (iov_addrs vs)" and "length (iov_addrs vs) < 2 ^ 32"
    and "mapped mem (iov_addrs vs)" and "mapped mem [t..<t + len]" and "disjoint_from (iov_addrs vs) t len"
  shows "\<exists>r. peek_loop mem (length vs) vs (Some t) cref out len offset = Inr r \<and>
      peeked mem t cref out (take len (drop offset (iov_addrs vs))) r"
  using assms
proof (induction vs arbitrary: mem t len offset cref out)
  case Nil
  then show ?case by simp
next
  case (Cons v vs)
  have L: "iov_len v < 2 ^ 32" "offset < 2 ^ 32" "len < 2 ^ 32" using Cons.prems by simp_all
  show ?case
  proof (cases "offset \<noteq> 0 \<and> iov_len v \<le> offset")
    case True
    have "\<exists>r. peek_loop mem (length vs) vs (Some t) cref out len (offset - iov_len v) = Inr r \<and>
        peeked mem t cref out (take len (drop (offset - iov_len v) (iov_addrs vs))) r"
      using Cons.prems True by (intro Cons.IH) (auto elim: disjoint_from_subset)
    moreover have "usub 32 offset (to_unsigned (iov_len v)) = offset - iov_len v"
      using True L by (simp add: usub_nowrap)
    ultimately show ?thesis using True Cons.prems(1) by simp
  next
    case False
    then have off: "offset \<le> iov_len v" by auto
    define k where "k = iov_len v - offset"
    have sub: "usub 64 (iov_len v) offset = k" "to_unsigned k = k"
      using off L by (simp_all add: k_def usub_nowrap)
    have rem: "drop offset (iov_addrs (v # vs)) = [iov_base v + offset..<iov_base v + offset + k] @ iov_addrs vs"
      using off by (simp add: k_def)
    have m: "mapped mem [iov_base v + offset..<iov_base v + offset + k]"
      using Cons.prems(4) off by (auto simp: k_def intro: mapped_upt)
    show ?thesis
    proof (cases "len \<le> k")
      case True
      have "c_memcpy mem t (iov_base v + offset) len =
          Inr (store_at mem t (map mem [iov_base v + offset..<iov_base v + offset + len]))"
        using m True Cons.prems(5) by (intro c_memcpy_ok) (auto intro: mapped_upt)
      moreover have "\<not> (offset \<noteq> 0 \<and> iov_len v \<le> offset)" using False by simp
      ultimately have step: "peek_loop mem (length (v # vs)) (v # vs) (Some t) cref out len offset =
          (if cref then Inr (mem, IOVCURSOR_STATUS_CONTIGPTR_OK, Some (Some (iov_base v + offset)))
           else Inr (store_at mem t (map mem [iov_base v + offset..<iov_base v + offset + len]),
             IOVCURSOR_STATUS_BUFCOPY_OK, out))"
        using True Cons.prems(1) by (simp add: sub Let_def del: de_Morgan_conj)
      have "take len (drop offset (iov_addrs (v # vs))) = [iov_base v + offset..<iov_base v + offset + len]"
        unfolding rem using True by simp
      then show ?thesis unfolding step by (auto simp: peeked_def)
    next
      case long: False
      define mem' where "mem' = store_at mem t (map mem [iov_base v + offset..<iov_base v + offset + k])"
      define out' where "out' = (if cref then Some None else out)"
      have cpy: "c_memcpy mem t (iov_base v + offset) k = Inr mem'"
        unfolding mem'_def using m long Cons.prems(5) by (intro c_memcpy_ok) (auto intro: mapped_upt)
      have step: "peek_loop mem (length (v # vs)) (v # vs) (Some t) cref out len offset =
          peek_loop mem' (length vs) vs (Some (t + k)) False out' (len - k) 0"
        using long False Cons.prems(1) L cpy
        by (simp add: sub Let_def MINIMUM_def usub_nowrap out'_def del: de_Morgan_conj)
      have "\<exists>r. peek_loop mem' (length vs) vs (Some (t + k)) False out' (len - k) 0 = Inr r \<and>
          peeked mem' (t + k) False out' (take (len - k) (drop 0 (iov_addrs vs))) r"
      proof (rule Cons.IH)
        show "mapped mem' (iov_addrs vs)" "mapped mem' [t + k..<t + k + (len - k)]"
          unfolding mem'_def using Cons.prems(4,5) m long
          by (auto intro!: mapped_store_at intro: mapped_upt)
        show "disjoint_from (iov_addrs vs) (t + k) (len - k)"
          using long by (intro disjoint_from_subset [OF Cons.prems(6)]) auto
      qed (use Cons.prems off long in \<open>simp_all add: k_def\<close>)
      moreover have "store_at mem' (t + k) (map mem' (take (len - k) (iov_addrs vs))) =
          store_at mem t (map mem (take len (drop offset (iov_addrs (v # vs)))))"
      proof -
        have "disjoint_from (take (len - k) (iov_addrs vs)) t
            (length [iov_base v + offset..<iov_base v + offset + k] + length (take (len - k) (iov_addrs vs)))"
          using long by (intro disjoint_from_subset [OF Cons.prems(6)]) (auto dest: in_set_takeD)
        from store_at_two [OF this, of mem] show ?thesis
          unfolding rem mem'_def using long by simp
      qed
      ultimately show ?thesis unfolding step by (auto simp: peeked_def out'_def)
    qed
  qed
qed

lemma iovcursor_adv_iovalloc_ok:
  assumes "cursor_wf cursor" and "0 < len" and "len \<le> length (remaining cursor)" and "iov_malloc_ok malloc"
  shows "\<exists>cursor' arr. iovcursor_adv_iovalloc malloc cursor len =
        (if malloc (length arr) = None then Inl NullPointer else Inr (cursor', arr, length arr)) \<and>
      iov_addrs arr = take len (remaining cursor) \<and>
      cursor_wf cursor' \<and> remaining cursor' = drop len (remaining cursor)"
proof -
  have ne: "cu_iov cursor \<noteq> []" and len: "len < 2 ^ 32" and niov: "length (cu_iov cursor) < 2 ^ 32"
    using assms(1,2,3) by (auto simp: remaining_def cursor_wf_def)
  obtain c v where first: "iovcursor_adv_first cursor len = Inr (c, v)"
    and w: "iov_window v = take (iov_len v) (remaining cursor)"
    and le: "iov_len v \<le> len" "iov_len v \<le> length (remaining cursor)"
    and wf: "cursor_wf c" and rem: "remaining c = drop (iov_len v) (remaining cursor)"
    and off: "iov_len v < len \<longrightarrow> cu_offset c = 0 \<and> length (cu_iov c) < length (cu_iov cursor)"
    using adv_first_ok [OF assms(1) ne len] by metis
  define l where "l = len - iov_len v"
  have sub: "usub 32 len (to_unsigned (iov_len v)) = l"
    using le(1) len by (simp add: usub_nowrap l_def)
  have l: "0 < l \<longrightarrow> cu_offset c = 0 \<and> Suc (length (cu_iov c)) < 2 ^ 32" "l \<le> length (remaining c)"
    using off niov le assms(3) by (auto simp: l_def rem)
  obtain m where narr: "(if l \<noteq> 0 then res_bind (count_iovs (cu_iov c) l) (\<lambda>ii. Inr (uadd 32 1 ii)) else Inr 1) =
      Inr (Suc m)" and fill: "length arr = Suc m \<Longrightarrow> \<exists>ws vs' niov' off'.
        fill_arr (cu_iov c) (cu_niov c) (cu_offset c) arr 1 l = Inr (take 1 arr @ ws, vs', niov', off') \<and>
        cursor_wf (c\<lparr>cu_iov := vs', cu_niov := niov', cu_offset := off'\<rparr>) \<and>
        drop off' (iov_addrs vs') = drop l (remaining c) \<and>
        length ws = m \<and> iov_addrs ws = take l (remaining c)" for arr
    using fill_arr_cursor [OF wf l] by blast
  obtain arr where arr: "malloc (Suc m) = None \<or> malloc (Suc m) = Some arr" "length arr = Suc m"
    using assms(4) by (cases "malloc (Suc m)") (auto simp: iov_malloc_ok_def intro: that [of "replicate (Suc m) v"])
  obtain ws vs' niov' off' where ws: "fill_arr (cu_iov c) (cu_niov c) (cu_offset c) (arr[0 := v]) 1 l =
        Inr (v # ws, vs', niov', off')"
    "cursor_wf (c\<lparr>cu_iov := vs', cu_niov := niov', cu_offset := off'\<rparr>)"
    "length ws = m" "iov_addrs ws = take l (remaining c)" "drop off' (iov_addrs vs') = drop l (remaining c)"
    using fill [of "arr[0 := v]"] arr(2) by (cases arr) auto
  have "iovcursor_adv_iovalloc malloc cursor len = (if malloc (Suc m) = None then Inl NullPointer
      else Inr (c\<lparr>cu_iov := vs', cu_niov := niov', cu_offset := off'\<rparr>, v # ws, Suc m))"
    unfolding iovcursor_adv_iovalloc_def first res_bind_simps prod.case Let_def sub narr
    using arr ws(1) by (auto simp: mem_set_def)
  moreover have "iov_addrs (v # ws) = take len (remaining cursor)"
    using w ws(4) le by (simp add: rem l_def iov_window_def take_add [symmetric])
  moreover have "length (v # ws) = Suc m" using ws(3) by simp
  moreover have "remaining (c\<lparr>cu_iov := vs', cu_niov := niov', cu_offset := off'\<rparr>) = drop len (remaining cursor)"
    using ws(5) le by (simp add: rem l_def)
  ultimately show ?thesis
    using ws(2) by (intro exI [of _ "c\<lparr>cu_iov := vs', cu_niov := niov', cu_offset := off'\<rparr>"] exI [of _ "v # ws"]) simp
qed

lemma store_at_elsewhere: "a < t \<or> t + length bs \<le> a \<Longrightarrow> store_at mem t bs a = mem a"
  by (auto simp: store_at_def)

lemma peeked_place:
  assumes "peeked mem t cref None as (mem', st, out)"
  shows "case st of
      IOVCURSOR_STATUS_CONTIGPTR_OK \<Rightarrow> cref \<and> mem' = mem \<and> (\<exists>p. out = Some (Some p) \<and> [p..<p + length as] = as)
    | IOVCURSOR_STATUS_BUFCOPY_OK \<Rightarrow> map mem' [t..<t + length as] = map mem as \<and>
        (\<forall>a. a < t \<or> t + length as \<le> a \<longrightarrow> mem' a = mem a) \<and> out = (if cref then Some None else None)
    | IOVCURSOR_STATUS_FRAGMENTED \<Rightarrow> False"
  using assms store_at_here [of mem t "map mem as"] store_at_elsewhere [of _ t "map mem as" mem]
  by (auto simp: peeked_def)

text \<open>
  \<^bold>\<open>C34\<close>. Peeking at \<open>len\<close> bytes at \<open>offset\<close>, when so many bytes are there, delivers exactly those bytes
  of the scattered stream, whatever way the buffers split them. Either the caller asked for a
  contiguous reference and gets a pointer whose \<open>len\<close> addresses are the addresses of those bytes,
  nothing being written; or the bytes are in the target buffer, no other byte of memory has changed,
  and the reference, if there is one, is \<open>NULL\<close>. The status tells which. This is for a positive length and
  a call that passes a target buffer.
\<close>

theorem iovcursor_peek_ex_spec:
  assumes "cursor_wf cursor" and "0 < len" and "offset + len \<le> length (remaining cursor)"
    and "mapped mem (iov_addrs (cu_iov cursor))" and "mapped mem [t..<t + len]"
    and "disjoint_from (iov_addrs (cu_iov cursor)) t len"
  shows "\<exists>mem' st out. iovcursor_peek_ex mem cursor (Some t) cref len offset = Inr (mem', st, out) \<and>
    (case st of
      IOVCURSOR_STATUS_CONTIGPTR_OK \<Rightarrow> cref \<and> mem' = mem \<and>
        (\<exists>p. out = Some (Some p) \<and> [p..<p + len] = take len (drop offset (remaining cursor)))
    | IOVCURSOR_STATUS_BUFCOPY_OK \<Rightarrow>
        map mem' [t..<t + len] = map mem (take len (drop offset (remaining cursor))) \<and>
        (\<forall>a. a < t \<or> t + len \<le> a \<longrightarrow> mem' a = mem a) \<and> out = (if cref then Some None else None)
    | IOVCURSOR_STATUS_FRAGMENTED \<Rightarrow> False)"
proof -
  define as where "as = take len (drop offset (remaining cursor))"
  have len: "length as = len" using assms(3) by (simp add: as_def)
  have wf: "cu_niov cursor = length (cu_iov cursor)" "length (iov_addrs (cu_iov cursor)) < 2 ^ 32"
    using assms(1) by (simp_all add: cursor_wf_def)
  have "offset + cu_offset cursor + len \<le> length (iov_addrs (cu_iov cursor))"
    using assms(2,3) by (simp add: remaining_def)
  from peek_loop_ok [OF assms(2) this wf(2) assms(4-6), of cref None]
  obtain mem' st out where "peek_loop mem (cu_niov cursor) (cu_iov cursor) (Some t) cref None len
      (offset + cu_offset cursor) = Inr (mem', st, out)" and p: "peeked mem t cref None as (mem', st, out)"
    by (auto simp: wf(1) as_def remaining_def add.commute)
  moreover have "uadd 32 offset (cu_offset cursor) = offset + cu_offset cursor"
    using assms(2,3) wf(2) by (simp add: uadd_nowrap remaining_def)
  ultimately show ?thesis
    using peeked_place [OF p] unfolding len as_def [symmetric] by (auto simp: iovcursor_peek_ex_def)
qed

definition two_buffers :: mc_IOVCURSOR where
  "two_buffers = \<lparr>cu_iov = [\<lparr>iov_base = 10, iov_len = 3\<rparr>, \<lparr>iov_base = 20, iov_len = 4\<rparr>],
     cu_niov = 2, cu_offset = 1\<rparr>"

definition low_memory :: c_mem where
  "low_memory a = (if a < 60 then Some (word_of_nat a) else None)"

lemma two_buffers_facts:
  "cursor_wf two_buffers" "remaining two_buffers = [11, 12, 20, 21, 22, 23]"
  "iov_addrs (cu_iov two_buffers) = [10, 11, 12, 20, 21, 22, 23]"
  by (simp_all add: two_buffers_def cursor_wf_def remaining_def upt_rec)

lemma low_memory_facts:
  "mapped low_memory [10, 11, 12, 20, 21, 22, 23]" "mapped low_memory [40..<44]"
  "disjoint_from [10, 11, 12, 20, 21, 22, 23] 40 4"
  by (simp_all add: mapped_def low_memory_def disjoint_from_def upt_rec)

theorem iovcursor_peek_ex_spec_witness:
  "\<exists>mem' st out. iovcursor_peek_ex low_memory two_buffers (Some 40) True 4 1 = Inr (mem', st, out) \<and>
    (case st of
      IOVCURSOR_STATUS_CONTIGPTR_OK \<Rightarrow> True \<and> mem' = low_memory \<and>
        (\<exists>p. out = Some (Some p) \<and> [p..<p + 4] = take 4 (drop 1 (remaining two_buffers)))
    | IOVCURSOR_STATUS_BUFCOPY_OK \<Rightarrow>
        map mem' [40..<40 + 4] = map low_memory (take 4 (drop 1 (remaining two_buffers))) \<and>
        (\<forall>a. a < 40 \<or> 40 + 4 \<le> a \<longrightarrow> mem' a = low_memory a) \<and> out = (if True then Some None else None)
    | IOVCURSOR_STATUS_FRAGMENTED \<Rightarrow> False)"
  by (rule iovcursor_peek_ex_spec) (use two_buffers_facts low_memory_facts in simp_all)

text \<open>
  \<^bold>\<open>C35\<close>. \<open>iovcursor_adv_copy\<close> moves the next \<open>len\<close> bytes of the scattered stream into the target and
  nothing else: the target then holds those bytes in order, no other byte of memory has changed, the
  cursor is well formed again and stands exactly \<open>len\<close> bytes further, whether it ends inside a
  buffer, at a boundary, or at the end of the array. It never reads past the array.
\<close>

theorem iovcursor_adv_copy_spec:
  assumes "cursor_wf cursor" and "0 < len" and "len \<le> length (remaining cursor)"
    and "mapped mem (remaining cursor)" and "mapped mem [t..<t + len]"
    and "disjoint_from (remaining cursor) t len"
  shows "\<exists>mem' cursor'. iovcursor_adv_copy mem cursor t len = Inr (mem', cursor') \<and>
    map mem' [t..<t + len] = map mem (take len (remaining cursor)) \<and>
    (\<forall>a. a < t \<or> t + len \<le> a \<longrightarrow> mem' a = mem a) \<and>
    cursor_wf cursor' \<and> remaining cursor' = drop len (remaining cursor)"
  using iovcursor_adv_copy_ok [OF assms] assms(3)
    store_at_here [of mem t "map mem (take len (remaining cursor))"]
    store_at_elsewhere [of _ t "map mem (take len (remaining cursor))" mem]
  by (auto simp: min_absorb2)

theorem iovcursor_adv_copy_spec_witness:
  "\<exists>mem' cursor'. iovcursor_adv_copy low_memory two_buffers 40 4 = Inr (mem', cursor') \<and>
    map mem' [40..<40 + 4] = map low_memory (take 4 (remaining two_buffers)) \<and>
    (\<forall>a. a < 40 \<or> 40 + 4 \<le> a \<longrightarrow> mem' a = low_memory a) \<and>
    cursor_wf cursor' \<and> remaining cursor' = drop 4 (remaining two_buffers)"
  by (rule iovcursor_adv_copy_spec)
    (use two_buffers_facts in \<open>simp_all add: mapped_def low_memory_def disjoint_from_def upt_rec\<close>)

text \<open>
  \<^bold>\<open>C36\<close>. \<open>iovcursor_adv_iovalloc\<close> returns an array that covers exactly the next \<open>len\<close> addresses of the
  stream, without copying, and advances the cursor past them. The size computed by the counting loop
  is exactly the number of elements the filling loop writes, so no element is left unset and none is
  written outside the allocation. The result of \<open>malloc\<close> is not checked: when it fails, the first element
  is written through a null pointer.
\<close>

theorem iovcursor_adv_iovalloc_spec:
  assumes "cursor_wf cursor" and "0 < len" and "len \<le> length (remaining cursor)" and "iov_malloc_ok malloc"
  shows "\<exists>cursor' arr. iovcursor_adv_iovalloc malloc cursor len =
      (if malloc (length arr) = None then Inl NullPointer else Inr (cursor', arr, length arr)) \<and>
    iov_addrs arr = take len (remaining cursor) \<and>
    cursor_wf cursor' \<and> remaining cursor' = drop len (remaining cursor)"
  by (rule iovcursor_adv_iovalloc_ok [OF assms])

theorem iovcursor_adv_iovalloc_spec_witness:
  "(\<exists>cursor' arr. iovcursor_adv_iovalloc (\<lambda>n. Some (replicate n \<lparr>iov_base = 0, iov_len = 0\<rparr>)) two_buffers 4 =
      Inr (cursor', arr, length arr) \<and>
    iov_addrs arr = take 4 (remaining two_buffers) \<and>
    cursor_wf cursor' \<and> remaining cursor' = drop 4 (remaining two_buffers)) \<and>
   iovcursor_adv_iovalloc (\<lambda>_. None) two_buffers 4 = Inl NullPointer"
  using iovcursor_adv_iovalloc_spec [of two_buffers 4 "\<lambda>n. Some (replicate n \<lparr>iov_base = 0, iov_len = 0\<rparr>)"]
    iovcursor_adv_iovalloc_spec [of two_buffers 4 "\<lambda>_. None"] two_buffers_facts
  by (simp add: iov_malloc_ok_def)

end
