(* ===== verification/Leb128.thy ===== *)
theory Leb128
  imports Prelude
begin

unbundle bit_operations_syntax

text \<open>
  The variable-length encoding of collection identifiers of \<open>src/mc/mcreq.c\<close> (unsigned LEB128): seven
  bits per byte, least significant group first, the top bit of a byte set when another byte follows.

  \<open>leb128_encode\<close> writes into a buffer of the caller and returns the number of bytes; every store is
  checked against the length of the buffer. \<open>leb128_decode\<close> reads through an accessor that may fault.
  The seven bits of a byte are shifted as a signed \<open>int\<close>: a shift by 32 or more and a shift whose result
  does not fit the \<open>int\<close> are undefined in C and are a fault here.
\<close>

section \<open>The two routines\<close>

lemma unat_drop7: "unat (drop_bit 7 (v :: 32 word)) = unat v div 128"
  by (simp only: unat_drop_bit_eq drop_bit_eq_div [of 7 "unat v"]) simp

lemma drop_7_less: "(v :: 32 word) \<noteq> 0 \<Longrightarrow> unat (drop_bit 7 v) < unat v"
  using unat_eq_zero [of v] by (simp add: unat_drop7 del: unat_eq_zero)

function leb_enc_loop :: "32 word \<Rightarrow> byte list \<Rightarrow> nat \<Rightarrow> (byte list \<times> nat) res" where
  "leb_enc_loop val buf idx =
     (if val = 0 then Inr (buf, idx) else
      let b = ucast (val AND 0x7f) :: byte;
          val = drop_bit 7 val;
          b = (if 0 < val then b OR 0x80 else b)
      in res_bind (mem_set buf idx b) (\<lambda>buf. leb_enc_loop val buf (idx + 1)))"
  by auto

termination by (relation "measure (\<lambda>(v, _, _). unat v)") (simp_all add: drop_7_less)

declare leb_enc_loop.simps [simp del]

definition leb128_encode :: "32 word \<Rightarrow> byte list \<Rightarrow> (byte list \<times> nat) res" where
  "leb128_encode val buf =
     (if val = 0 then res_bind (mem_set buf 0 0) (\<lambda>buf. Inr (buf, 1)) else leb_enc_loop val buf 0)"

function leb_dec_loop :: "(nat \<Rightarrow> byte res) \<Rightarrow> nat \<Rightarrow> nat \<Rightarrow> nat \<Rightarrow> 32 word \<Rightarrow> (32 word \<times> nat) res" where
  "leb_dec_loop buf nbuf idx shift val =
     (if idx < nbuf then
        res_bind (buf idx) (\<lambda>b.
          if 32 \<le> shift \<or> 2 ^ 31 \<le> unat (b AND 0x7f) * 2 ^ shift then Inl UndefinedShift else
          let val = val OR push_bit shift (ucast (b AND 0x7f))
          in if b AND 0x80 = 0 then Inr (val, idx)
             else leb_dec_loop buf nbuf (idx + 1) (shift + 7) val)
      else Inr (val, idx))"
  by auto

termination by (relation "measure (\<lambda>(_, nbuf, idx, _, _). nbuf - idx)") auto

declare leb_dec_loop.simps [simp del]

text \<open>The result is the return value and \<open>*result\<close>.\<close>

definition leb128_decode :: "(nat \<Rightarrow> byte res) \<Rightarrow> nat \<Rightarrow> (nat \<times> 32 word) res" where
  "leb128_decode buf nbuf =
     (if nbuf = 0 then Inr (0, 0) else
      res_bind (buf 0) (\<lambda>b.
        let val = ucast (b AND 0x7f)
        in if b AND 0x80 \<noteq> 0 then
             res_bind (leb_dec_loop buf nbuf 1 7 val) (\<lambda>(val, idx).
               if idx = nbuf then Inr (0, 0) else Inr (idx + 1, val))
           else Inr (1, val)))"

section \<open>The encoding as a function on numbers\<close>

fun leb_bytes :: "nat \<Rightarrow> byte list" where
  "leb_bytes n = (if n < 128 then [word_of_nat n] else word_of_nat (128 + n mod 128) # leb_bytes (n div 128))"

declare leb_bytes.simps [simp del]

lemma leb_bytes_length: "0 < length (leb_bytes n)"
  by (subst leb_bytes.simps) simp

lemma leb_bytes_bound: "n < 128 ^ k \<Longrightarrow> 0 < k \<Longrightarrow> length (leb_bytes n) \<le> k"
proof (induction k arbitrary: n)
  case (Suc k)
  show ?case
  proof (cases "n < 128")
    case True
    then show ?thesis by (simp add: leb_bytes.simps [of n])
  next
    case False
    then have "0 < k" using Suc.prems(1) by (cases k) auto
    moreover have "n div 128 < 128 ^ k" using Suc.prems(1) by (simp add: less_mult_imp_div_less mult.commute)
    ultimately have "length (leb_bytes (n div 128)) \<le> k" by (intro Suc.IH)
    then show ?thesis using False by (simp add: leb_bytes.simps [of n])
  qed
qed simp

lemma leb_bytes_minimal:
  "n < 128 ^ length (leb_bytes n) \<and> (1 < length (leb_bytes n) \<longrightarrow> 128 ^ (length (leb_bytes n) - 1) \<le> n)"
proof (induction n rule: leb_bytes.induct)
  case (1 n)
  show ?case
  proof (cases "n < 128")
    case True
    then show ?thesis by (simp add: leb_bytes.simps [of n])
  next
    case False
    define l where "l = length (leb_bytes (n div 128))"
    have l: "length (leb_bytes n) = Suc l" "0 < l"
      using False leb_bytes_length by (simp_all add: leb_bytes.simps [of n] l_def)
    have ih: "n div 128 < 128 ^ l" "1 < l \<longrightarrow> 128 ^ (l - 1) \<le> n div 128" using 1 [OF False] by (simp_all add: l_def)
    have "n < 128 * 128 ^ l" using ih(1) by (simp add: div_less_iff_less_mult mult.commute)
    moreover have "128 ^ l \<le> n"
    proof (cases "l = 1")
      case True
      then show ?thesis using False by simp
    next
      case nl: False
      then have "128 ^ (l - 1) \<le> n div 128" using ih(2) l(2) by simp
      then have "128 ^ (l - 1) * 128 \<le> n" by (simp add: less_eq_div_iff_mult_less_eq)
      then show ?thesis using l(2) by (simp add: power_eq_if mult.commute)
    qed
    ultimately show ?thesis by (simp add: l)
  qed
qed

lemma unat_low7: "unat ((v :: 'a::len word) AND 127) = unat v mod 128"
proof -
  have "v AND 127 = take_bit 7 v" by (simp add: take_bit_eq_mask mask_eq_exp_minus_1)
  then have "unat (v AND 127) = take_bit 7 (unat v)" by (simp only: unsigned_take_bit_eq)
  then show ?thesis by (simp add: take_bit_eq_mod)
qed

lemma top_bit_clear: "(b :: byte) AND 128 = 0 \<longleftrightarrow> unat b < 128"
proof -
  have "b AND 2 ^ 7 = 0 \<longleftrightarrow> \<not> bit b 7" by (rule and_exp_eq_0_iff_not_bit)
  moreover have "bit (unat b) 7 \<longleftrightarrow> bit b 7" by (simp add: bit_unsigned_iff)
  then have "bit b 7 \<longleftrightarrow> odd (unat b div 2 ^ 7)" by (simp only: bit_iff_odd [of "unat b" 7, symmetric])
  moreover have "unat b div 128 = (if unat b < 128 then 0 else 1)" using unat_byte_less [of b] by auto
  ultimately show ?thesis by simp
qed

lemma unat_word_of_nat_byte: "n < 256 \<Longrightarrow> unat (word_of_nat n :: byte) = n"
  by (simp add: unat_of_nat)

lemma leb_enc_byte:
  fixes v :: "32 word"
  shows "(if 0 < drop_bit 7 v then (ucast (v AND 127) :: byte) OR 128 else ucast (v AND 127)) =
    (if unat v < 128 then word_of_nat (unat v) else word_of_nat (128 + unat v mod 128))"
proof -
  define r where "r = unat v mod 128"
  have r: "r < 128" by (simp add: r_def)
  have "unat (ucast (v AND 127) :: byte) = r"
    using unat_low7 [of v] by (simp add: unsigned_ucast_eq take_bit_eq_mod r_def)
  then have u: "(ucast (v AND 127) :: byte) = word_of_nat r" 
    using r by (simp only: word_unat_eq_iff unat_word_of_nat_byte [of r])
  have "word_of_nat r OR (128 :: byte) = word_of_nat (push_bit 7 1 OR r)"
    by (simp add: of_nat_or_eq or.commute)
  also have "\<dots> = word_of_nat (128 + r)" using or_push_bit [of r 7 1] r by simp
  finally have o: "(word_of_nat r :: byte) OR 128 = word_of_nat (128 + r)" .
  have "0 < drop_bit 7 v \<longleftrightarrow> \<not> unat v < 128" using unat_drop7 [of v] 
    by (simp add: word_less_nat_alt div_greater_zero_iff not_less)
  then show ?thesis unfolding u o by (simp add: r_def)
qed

lemma leb_enc_loop_eq:
  assumes "v \<noteq> 0" and "idx + length (leb_bytes (unat v)) \<le> length buf"
  shows "leb_enc_loop v buf idx =
    Inr (take idx buf @ leb_bytes (unat v) @ drop (idx + length (leb_bytes (unat v))) buf,
      idx + length (leb_bytes (unat v)))"
  using assms
proof (induction v buf idx rule: leb_enc_loop.induct)
  case (1 v buf idx)
  define n where "n = unat v"
  define b :: byte where "b = (if n < 128 then word_of_nat n else word_of_nat (128 + n mod 128))"
  have b: "(if 0 < drop_bit 7 v then (ucast (v AND 127) :: byte) OR 128 else ucast (v AND 127)) = b"
    using leb_enc_byte [of v] by (simp add: b_def n_def)
  have i: "idx < length buf" using 1(3) leb_bytes_length [of "unat v"] by linarith
  have step: "leb_enc_loop v buf idx = leb_enc_loop (drop_bit 7 v) (buf[idx := b]) (idx + 1)"
    using 1(2) i b by (simp add: leb_enc_loop.simps [of v] Let_def mem_set_def)
  have hd: "take (Suc idx) (buf[idx := b]) = take idx buf @ [b]"
    using i by (simp add: take_Suc_conv_app_nth)
  show ?case
  proof (cases "n < 128")
    case True
    then have "drop_bit 7 v = 0" using unat_drop7 [of v] unat_eq_zero [of "drop_bit 7 v"] by (simp add: n_def)
    then have "leb_enc_loop v buf idx = Inr (buf[idx := b], idx + 1)"
      unfolding step by (simp add: leb_enc_loop.simps)
    moreover have "buf[idx := b] = take idx buf @ [b] @ drop (idx + 1) buf"
      using i by (simp add: upd_conv_take_nth_drop)
    ultimately show ?thesis using True by (simp add: n_def [symmetric] leb_bytes.simps [of n] b_def)
  next
    case False
    have l: "leb_bytes n = b # leb_bytes (n div 128)" using False by (simp add: leb_bytes.simps [of n] b_def)
    have nz: "drop_bit 7 v \<noteq> 0" using False unat_drop7 [of v] by (auto simp: n_def)
    have "leb_enc_loop (drop_bit 7 v) (buf[idx := b]) (idx + 1) =
        Inr (take (idx + 1) (buf[idx := b]) @ leb_bytes (unat (drop_bit 7 v)) @
          drop (idx + 1 + length (leb_bytes (unat (drop_bit 7 v)))) (buf[idx := b]),
          idx + 1 + length (leb_bytes (unat (drop_bit 7 v))))"
      by (rule 1(1) [OF 1(2) refl refl refl, unfolded b])
        (use nz 1(3) l i in \<open>simp_all add: mem_set_def unat_drop7 n_def\<close>)
    then show ?thesis unfolding step using hd l by (simp add: unat_drop7 n_def)
  qed
qed

lemma leb128_encode_eq:
  assumes "length (leb_bytes (unat v)) \<le> length buf"
  shows "leb128_encode v buf =
    Inr (leb_bytes (unat v) @ drop (length (leb_bytes (unat v))) buf, length (leb_bytes (unat v)))"
proof (cases "v = 0")
  case True
  then show ?thesis
    using assms by (cases buf) (simp_all add: leb128_encode_def mem_set_def leb_bytes.simps [of 0])
next
  case False
  then show ?thesis using leb_enc_loop_eq [OF False, of 0 buf] assms by (simp add: leb128_encode_def)
qed

lemma leb_dec_val:
  assumes "m < 2 ^ shift" and "unat (b :: byte) mod 128 = r"
  shows "(word_of_nat m :: 32 word) OR push_bit shift (ucast (b AND 127)) = word_of_nat (m + r * 2 ^ shift)"
proof -
  have "(ucast (b AND 127) :: 32 word) = word_of_nat (unat (b AND 127))" by simp
  then have "(ucast (b AND 127) :: 32 word) = word_of_nat r" by (simp only: unat_low7 assms(2))
  then have "(word_of_nat m :: 32 word) OR push_bit shift (ucast (b AND 127)) = word_of_nat (push_bit shift r OR m)"
    by (simp only: of_nat_or_eq push_bit_of_nat [symmetric] or.commute)
  then show ?thesis by (simp only: or_push_bit [OF assms(1)]) (simp add: mult.commute add.commute)
qed

lemma shift_fits: "n < 2 ^ (k - shift) \<Longrightarrow> shift \<le> k \<Longrightarrow> n * 2 ^ shift < (2 :: nat) ^ k"
  by (metis le_add_diff_inverse2 mult_less_cancel2 power_add zero_less_numeral zero_less_power)

lemma many_groups: "(n :: nat) < 2 ^ k \<Longrightarrow> 128 \<le> n \<Longrightarrow> 7 < k"
proof (rule ccontr)
  assume n: "n < 2 ^ k" "128 \<le> n" "\<not> 7 < k"
  then have "(2::nat) ^ k \<le> 2 ^ 7" by (intro power_increasing) auto
  then show False using n by simp
qed

lemma group_fits: "unat (b :: byte) < 128 \<Longrightarrow> shift \<le> 24 \<Longrightarrow> unat b * 2 ^ shift < 2 ^ 31"
proof -
  assume b: "unat b < 128" and "shift \<le> 24"
  then have "(2::nat) ^ shift \<le> 2 ^ 24" by (intro power_increasing) simp_all
  then have "unat b * 2 ^ shift \<le> 127 * 2 ^ 24" using b by (intro mult_le_mono) simp_all
  then show ?thesis by simp
qed

lemma leb_dec_loop_eq:
  assumes "m < 2 ^ shift" and "n < 2 ^ (31 - shift)" and "shift < 31"
    and "\<And>i. i < length (leb_bytes n) \<Longrightarrow> buf (idx + i) = Inr (leb_bytes n ! i)"
    and "idx + length (leb_bytes n) \<le> nbuf"
  shows "leb_dec_loop buf nbuf idx shift (word_of_nat m) =
    Inr (word_of_nat (m + n * 2 ^ shift), idx + length (leb_bytes n) - 1)"
  using assms
proof (induction n arbitrary: m shift idx rule: leb_bytes.induct)
  case (1 n)
  define b :: byte where "b = (if n < 128 then word_of_nat n else word_of_nat (128 + n mod 128))"
  have "hd (leb_bytes n) = b" by (simp add: leb_bytes.simps [of n] b_def)
  then have b: "buf idx = Inr b"
    using "1.prems"(4) [of 0] leb_bytes_length [of n] by (cases "leb_bytes n") simp_all
  have ub: "unat b = (if n < 128 then n else 128 + n mod 128)"
    by (simp add: b_def unat_word_of_nat_byte del: of_nat_add)
  have i: "idx < nbuf" using "1.prems"(5) leb_bytes_length [of n] by linarith
  show ?case
  proof (cases "n < 128")
    case True
    then have "b AND 128 = 0" "unat b mod 128 = n" by (simp_all add: top_bit_clear ub)
    moreover from this have "unat (b AND 127) * 2 ^ shift < 2 ^ 31"
      using shift_fits [OF "1.prems"(2)] "1.prems"(3) by (simp add: unat_low7)
    ultimately show ?thesis
      using i b "1.prems"(3) True leb_dec_val [OF "1.prems"(1), of b n]
      by (simp add: leb_dec_loop.simps Let_def leb_bytes.simps [of n])
  next
    case False
    define r where "r = n mod 128"
    have s7: "7 < 31 - shift" using many_groups [OF "1.prems"(2)] False by simp
    have r: "unat b mod 128 = r" "b AND 128 \<noteq> 0" "r < 128" using False by (simp_all add: ub r_def top_bit_clear)
    have fits: "unat (b AND 127) * 2 ^ shift < 2 ^ 31" using group_fits [of "b AND 127" shift] s7 by (simp add: unat_low7)
    have l: "leb_bytes n = b # leb_bytes (n div 128)" using False by (simp add: leb_bytes.simps [of n] b_def)
    have "leb_dec_loop buf nbuf idx shift (word_of_nat m) =
        leb_dec_loop buf nbuf (idx + 1) (shift + 7) (word_of_nat (m + r * 2 ^ shift))"
      using i b "1.prems"(3) r fits leb_dec_val [OF "1.prems"(1) r(1)] by (simp add: leb_dec_loop.simps [of _ _ idx] Let_def)
    also have "\<dots> = Inr (word_of_nat (m + r * 2 ^ shift + n div 128 * 2 ^ (shift + 7)),
        idx + 1 + length (leb_bytes (n div 128)) - 1)"
    proof (rule "1.IH" [OF False])
      have "m + r * 2 ^ shift < 2 ^ shift + r * 2 ^ shift" using "1.prems"(1) by simp
      also have "\<dots> = (r + 1) * 2 ^ shift" by simp
      also have "\<dots> \<le> 128 * 2 ^ shift" using r(3) by (intro mult_le_mono1) simp
      finally show "m + r * 2 ^ shift < 2 ^ (shift + 7)" by (simp add: power_add)
      have "(2::nat) ^ (31 - shift) = 2 ^ (31 - (shift + 7)) * 128"
        using s7 power_add [of "2::nat" "31 - (shift + 7)" 7] by simp
      then show "n div 128 < 2 ^ (31 - (shift + 7))" using "1.prems"(2) by (simp add: div_less_iff_less_mult)
      show "buf (idx + 1 + i) = Inr (leb_bytes (n div 128) ! i)" if "i < length (leb_bytes (n div 128))" for i
        using "1.prems"(4) [of "Suc i"] that by (simp add: l)
    qed (use s7 "1.prems"(5) in \<open>simp_all add: l\<close>)
    also have "m + r * 2 ^ shift + n div 128 * 2 ^ (shift + 7) = m + (r + 128 * (n div 128)) * 2 ^ shift"
      by (simp add: power_add distrib_right)
    also have "r + 128 * (n div 128) = n" by (simp add: r_def)
    finally show ?thesis by (simp add: l)
  qed
qed

lemma leb128_decode_eq:
  assumes "n < 2 ^ 31" and "\<And>i. i < length (leb_bytes n) \<Longrightarrow> buf i = Inr (leb_bytes n ! i)"
    and "length (leb_bytes n) \<le> nbuf"
  shows "leb128_decode buf nbuf = Inr (length (leb_bytes n), word_of_nat n)"
proof -
  define b :: byte where "b = (if n < 128 then word_of_nat n else word_of_nat (128 + n mod 128))"
  have "hd (leb_bytes n) = b" by (simp add: leb_bytes.simps [of n] b_def)
  then have b: "buf 0 = Inr b" "0 < nbuf"
    using assms(2) [of 0] assms(3) leb_bytes_length [of n] by (cases "leb_bytes n"; simp)+
  have ub: "unat b = (if n < 128 then n else 128 + n mod 128)"
    by (simp add: b_def unat_word_of_nat_byte del: of_nat_add)
  have v: "(ucast (b AND 127) :: 32 word) = word_of_nat (n mod 128)"
    using leb_dec_val [of 0 0 b "n mod 128"] by (simp add: ub split: if_splits)
  show ?thesis
  proof (cases "n < 128")
    case True
    then have "b AND 128 = 0" by (simp add: top_bit_clear ub)
    then show ?thesis using True b v by (simp add: leb128_decode_def leb_bytes.simps [of n] Let_def)
  next
    case False
    then have l: "leb_bytes n = b # leb_bytes (n div 128)" and t: "b AND 128 \<noteq> 0"
      by (simp_all add: leb_bytes.simps [of n] b_def [symmetric] top_bit_clear ub) (simp add: b_def)
    have "leb_dec_loop buf nbuf 1 7 (word_of_nat (n mod 128)) =
        Inr (word_of_nat (n mod 128 + n div 128 * 2 ^ 7), 1 + length (leb_bytes (n div 128)) - 1)"
    proof (rule leb_dec_loop_eq)
      show "n div 128 < 2 ^ (31 - 7)" using assms(1) by (simp add: div_less_iff_less_mult)
      show "buf (1 + i) = Inr (leb_bytes (n div 128) ! i)" if "i < length (leb_bytes (n div 128))" for i
        using assms(2) [of "Suc i"] that by (simp add: l)
    qed (use assms(3) in \<open>simp_all add: l\<close>)
    moreover have "n mod 128 + n div 128 * 2 ^ 7 = n" by simp
    ultimately show ?thesis
      using b v t assms(3) by (simp add: leb128_decode_def Let_def l)
  qed
qed

text \<open>The last group of an identifier from \<open>2 ^ 31\<close> on is shifted into the sign bit.\<close>

lemma leb_dec_loop_sign:
  assumes "2 ^ (31 - shift) \<le> n" and "n < 2 ^ (32 - shift)" and "shift < 32"
    and "\<And>i. i < length (leb_bytes n) \<Longrightarrow> buf (idx + i) = Inr (leb_bytes n ! i)"
    and "idx + length (leb_bytes n) \<le> nbuf"
  shows "leb_dec_loop buf nbuf idx shift v = Inl UndefinedShift"
  using assms
proof (induction n arbitrary: v shift idx rule: leb_bytes.induct)
  case (1 n)
  define b :: byte where "b = (if n < 128 then word_of_nat n else word_of_nat (128 + n mod 128))"
  have "hd (leb_bytes n) = b" by (simp add: leb_bytes.simps [of n] b_def)
  then have b: "buf idx = Inr b"
    using "1.prems"(4) [of 0] leb_bytes_length [of n] by (cases "leb_bytes n") simp_all
  have ub: "unat b = (if n < 128 then n else 128 + n mod 128)"
    by (simp add: b_def unat_word_of_nat_byte del: of_nat_add)
  have i: "idx < nbuf" using "1.prems"(5) leb_bytes_length [of n] by linarith
  show ?case
  proof (cases "n < 128")
    case True
    have "(2::nat) ^ (31 - shift) * 2 ^ shift = 2 ^ 31" using "1.prems"(3) by (simp flip: power_add)
    then have "2 ^ 31 \<le> n * 2 ^ shift" using mult_le_mono1 [OF "1.prems"(1), of "2 ^ shift"] by simp
    moreover have "unat (b AND 127) = n" using True ub by (simp add: unat_low7)
    ultimately show ?thesis using i b by (simp add: leb_dec_loop.simps)
  next
    case False
    have s7: "7 < 32 - shift" using many_groups [OF "1.prems"(2)] False by simp
    have t: "b AND 128 \<noteq> 0" using False by (simp add: ub top_bit_clear)
    have fits: "unat (b AND 127) * 2 ^ shift < 2 ^ 31" using group_fits [of "b AND 127" shift] s7 by (simp add: unat_low7)
    have l: "leb_bytes n = b # leb_bytes (n div 128)" using False by (simp add: leb_bytes.simps [of n] b_def)
    have e: "(2::nat) ^ (k - shift) = 2 ^ (k - (shift + 7)) * 128" if "shift + 7 \<le> k" for k
      using that power_add [of "2::nat" "k - (shift + 7)" 7] by simp
    have "leb_dec_loop buf nbuf (idx + 1) (shift + 7) (v OR push_bit shift (ucast (b AND 127))) = Inl UndefinedShift"
    proof (rule "1.IH" [OF False])
      show "2 ^ (31 - (shift + 7)) \<le> n div 128" using "1.prems"(1) e [of 31] s7 by (simp add: less_eq_div_iff_mult_less_eq)
      show "n div 128 < 2 ^ (32 - (shift + 7))" using "1.prems"(2) e [of 32] s7 by (simp add: div_less_iff_less_mult)
      show "buf (idx + 1 + i) = Inr (leb_bytes (n div 128) ! i)" if "i < length (leb_bytes (n div 128))" for i
        using "1.prems"(4) [of "Suc i"] that by (simp add: l)
    qed (use s7 "1.prems"(5) in \<open>simp_all add: l\<close>)
    then show ?thesis using i b "1.prems"(3) t fits by (simp add: leb_dec_loop.simps [of _ _ idx] Let_def)
  qed
qed

lemma leb128_decode_sign:
  assumes "2 ^ 31 \<le> n" and "n < 2 ^ 32" and "\<And>i. i < length (leb_bytes n) \<Longrightarrow> buf i = Inr (leb_bytes n ! i)"
    and "length (leb_bytes n) \<le> nbuf"
  shows "leb128_decode buf nbuf = Inl UndefinedShift"
proof -
  define b :: byte where "b = word_of_nat (128 + n mod 128)"
  have l: "leb_bytes n = b # leb_bytes (n div 128)" using assms(1) by (simp add: leb_bytes.simps [of n] b_def)
  have "unat b = 128 + n mod 128" by (simp add: b_def unat_word_of_nat_byte del: of_nat_add)
  then have t: "b AND 128 \<noteq> 0" by (simp add: top_bit_clear)
  have b: "buf 0 = Inr b" "0 < nbuf" using assms(3) [of 0] assms(4) by (simp_all add: l)
  have "leb_dec_loop buf nbuf 1 7 (ucast (b AND 127)) = Inl UndefinedShift"
  proof (rule leb_dec_loop_sign [where n = "n div 128"])
    show "2 ^ (31 - 7) \<le> n div 128" using assms(1) by (simp add: less_eq_div_iff_mult_less_eq)
    show "n div 128 < 2 ^ (32 - 7)" using assms(2) by (simp add: div_less_iff_less_mult)
    show "buf (1 + i) = Inr (leb_bytes (n div 128) ! i)" if "i < length (leb_bytes (n div 128))" for i
      using assms(3) [of "Suc i"] that by (simp add: l)
  qed (use assms(4) in \<open>simp_all add: l\<close>)
  then show ?thesis using b t by (simp add: leb128_decode_def Let_def)
qed

lemma leb_dec_loop_total:
  assumes "\<forall>i < nbuf. \<exists>b. buf i = Inr b" and "nbuf \<le> 5" and "nbuf = 5 \<longrightarrow> (\<exists>b. buf 4 = Inr b \<and> unat b mod 128 < 8)"
  shows "\<exists>r. leb_dec_loop buf nbuf idx (7 * idx) v = Inr r"
proof (induction "nbuf - idx" arbitrary: idx v)
  case 0
  then show ?case by (simp add: leb_dec_loop.simps)
next
  case (Suc k)
  then have i: "idx < nbuf" "k = nbuf - (idx + 1)" by simp_all
  then obtain b where b: "buf idx = Inr b" using assms(1) by blast
  have "unat (b AND 127) * 2 ^ (7 * idx) < 2 ^ 31"
  proof (cases "idx = 4")
    case True
    then have "unat (b AND 127) < 8" using assms(2,3) i(1) b by (auto simp: unat_low7)
    then show ?thesis using True by simp
  next
    case False
    then show ?thesis using i(1) assms(2) by (intro group_fits) (simp_all add: unat_low7)
  qed
  then show ?case
    using Suc.hyps(1) [OF i(2)] b i assms(2) by (simp add: leb_dec_loop.simps [of _ _ idx] Let_def add.commute)
qed

text \<open>
  \<^bold>\<open>C37\<close>. Encoding a collection identifier never writes more than the five bytes of the caller's buffer and
  uses the fewest bytes possible. For an identifier below \<open>2 ^ 31\<close>, decoding any memory that starts with those
  bytes, whatever follows, returns the identifier and the same number of bytes. From \<open>2 ^ 31\<close> on the decoder
  shifts the last group into the sign bit of an \<open>int\<close>, which C leaves undefined. On arbitrary bytes the decoder
  is defined when it may read at most four of them, or five of which the last has seven low bits below 8.
\<close>

theorem leb128_round_trip:
  "\<exists>n. leb128_encode v (replicate 5 0) = Inr (leb_bytes (unat v) @ replicate (5 - n) 0, n) \<and>
     length (leb_bytes (unat v)) = n \<and> 1 \<le> n \<and> n \<le> 5 \<and>
     unat v < 128 ^ n \<and> (1 < n \<longrightarrow> 128 ^ (n - 1) \<le> unat v) \<and>
     leb128_decode (mem_get (leb_bytes (unat v) @ rest)) (n + length rest) =
       (if unat v < 2 ^ 31 then Inr (n, v) else Inl UndefinedShift) \<and>
     (length hostile \<le> 4 \<or> length hostile = 5 \<and> unat (hostile ! 4) mod 128 < 8 \<longrightarrow>
        (\<exists>r. leb128_decode (mem_get hostile) (length hostile) = Inr r))"
proof -
  define n where "n = length (leb_bytes (unat v))"
  have v: "unat v < 2 ^ 32" using unsigned_less [of v] by simp
  then have n5: "n \<le> 5" using leb_bytes_bound [of "unat v" 5] by (simp add: n_def)
  have "leb128_encode v (replicate 5 0) = Inr (leb_bytes (unat v) @ replicate (5 - n) 0, n)"
    using leb128_encode_eq [of v "replicate 5 0"] n5 by (simp add: n_def)
  moreover have "leb128_decode (mem_get (leb_bytes (unat v) @ rest)) (n + length rest) =
      (if unat v < 2 ^ 31 then Inr (n, v) else Inl UndefinedShift)"
    using leb128_decode_eq [of "unat v" "mem_get (leb_bytes (unat v) @ rest)" "n + length rest"]
      leb128_decode_sign [of "unat v" "mem_get (leb_bytes (unat v) @ rest)" "n + length rest"] v
    by (simp add: mem_get_def nth_append n_def)
  moreover have "\<exists>r. leb128_decode (mem_get hostile) (length hostile) = Inr r"
    if h: "length hostile \<le> 4 \<or> length hostile = 5 \<and> unat (hostile ! 4) mod 128 < 8"
  proof (cases "hostile = []")
    case False
    obtain val idx where
      "leb_dec_loop (mem_get hostile) (length hostile) 1 (7 * 1) (ucast (hostile ! 0 AND 127)) = Inr (val, idx)"
      using leb_dec_loop_total [of "length hostile" "mem_get hostile" 1] h by (fastforce simp: mem_get_def)
    then show ?thesis using False by (simp add: leb128_decode_def mem_get_def Let_def)
  qed (simp add: leb128_decode_def)
  ultimately show ?thesis
    using n5 leb_bytes_length [of "unat v", folded n_def] leb_bytes_minimal [of "unat v", folded n_def]
    by (intro exI [of _ n]) (simp add: n_def [symmetric])
qed

theorem leb128_round_trip_witness:
  "\<exists>n. leb128_encode 300 (replicate 5 0) = Inr (leb_bytes (unat (300 :: 32 word)) @ replicate (5 - n) 0, n) \<and>
     length (leb_bytes (unat (300 :: 32 word))) = n \<and> 1 \<le> n \<and> n \<le> 5 \<and>
     unat (300 :: 32 word) < 128 ^ n \<and> (1 < n \<longrightarrow> 128 ^ (n - 1) \<le> unat (300 :: 32 word)) \<and>
     leb128_decode (mem_get (leb_bytes (unat (300 :: 32 word)) @ [7])) (n + length [7 :: byte]) = Inr (n, 300) \<and>
     (\<exists>r. leb128_decode (mem_get [255, 255, 255, 255, 7]) (length [255, 255, 255, 255, 7 :: byte]) = Inr r)"
  using leb128_round_trip [of 300 "[7]" "[255, 255, 255, 255, 7]"] by simp

end
