(* ===== verification/Mcreq.thy ===== *)
theory Mcreq
  imports Iov_Cursor Leb128 Vb_Map
begin

unbundle bit_operations_syntax

text \<open>
  Request packets of \<open>src/mc/mcreq.c\<close>: how a key and its collection identifier are laid out behind the
  24-byte memcached header, how they are read back, and how the identifier of a packet is replaced.

  A packet is a record of the fields of \<open>mc_PACKET\<close>; its header and key live in the flat memory of
  \<open>Iov_Cursor\<close>, in a span of the block allocator of \<open>Netbuf_Pool\<close> or in a block of its own. The
  header is modelled field by field as the host reads it from its 24 bytes; the host is little-endian,
  so \<open>htons\<close> and its relatives swap. The C allocator is an argument.
\<close>

section \<open>Bytes and byte order\<close>

primrec le_val :: "byte list \<Rightarrow> nat" where
  "le_val [] = 0"
| "le_val (b # bs) = unat b + 256 * le_val bs"

primrec le_bytes :: "nat \<Rightarrow> nat \<Rightarrow> byte list" where
  "le_bytes 0 v = []"
| "le_bytes (Suc k) v = word_of_nat v # le_bytes k (v div 256)"

definition htons :: "nat \<Rightarrow> nat" where
  "htons v = le_val (rev (le_bytes 2 v))"

definition htonl :: "nat \<Rightarrow> nat" where
  "htonl v = le_val (rev (le_bytes 4 v))"

definition load_byte :: "c_mem \<Rightarrow> nat \<Rightarrow> byte res" where
  "load_byte mem a = (case mem a of None \<Rightarrow> Inl OutOfBounds | Some b \<Rightarrow> Inr b)"

definition load :: "c_mem \<Rightarrow> nat \<Rightarrow> nat \<Rightarrow> byte list res" where
  "load mem a n = (if mapped mem [a..<a + n] then Inr (map (the \<circ> mem) [a..<a + n]) else Inl OutOfBounds)"

definition put :: "c_mem \<Rightarrow> nat \<Rightarrow> byte list \<Rightarrow> c_mem res" where
  "put mem dst bs =
     (if mapped mem [dst..<dst + length bs] then Inr (store_at mem dst (map Some bs)) else Inl OutOfBounds)"

text \<open>\<open>calloc\<close> returns the address of the new block; \<open>free\<close> of the block of a standalone span.\<close>

definition c_calloc :: "(c_mem \<Rightarrow> nat \<Rightarrow> nat option) \<Rightarrow> c_mem \<Rightarrow> nat \<Rightarrow> (c_mem \<times> nat) res" where
  "c_calloc calloc mem n =
     (case calloc mem n of None \<Rightarrow> Inl NullPointer
      | Some a \<Rightarrow> Inr (store_at mem a (replicate n (Some 0)), a))"

definition c_free :: "c_mem \<Rightarrow> nat \<Rightarrow> nat \<Rightarrow> c_mem" where
  "c_free mem a n = (\<lambda>x. if a \<le> x \<and> x < a + n then None else mem x)"

section \<open>Types\<close>

record protocol_binary_request_header =
  rq_magic :: byte
  rq_opcode :: byte
  rq_keylen :: nat
  rq_extlen :: byte
  rq_datatype :: byte
  rq_vbucket :: nat
  rq_bodylen :: nat
  rq_opaque :: nat
  rq_cas :: nat

definition hdr_of_bytes :: "byte list \<Rightarrow> protocol_binary_request_header" where
  "hdr_of_bytes bs =
     \<lparr>rq_magic = bs ! 0, rq_opcode = bs ! 1, rq_keylen = le_val (take 2 (drop 2 bs)),
      rq_extlen = bs ! 4, rq_datatype = bs ! 5, rq_vbucket = le_val (take 2 (drop 6 bs)),
      rq_bodylen = le_val (take 4 (drop 8 bs)), rq_opaque = le_val (take 4 (drop 12 bs)),
      rq_cas = le_val (take 8 (drop 16 bs))\<rparr>"

definition bytes_of_hdr :: "protocol_binary_request_header \<Rightarrow> byte list" where
  "bytes_of_hdr h =
     [rq_magic h, rq_opcode h] @ le_bytes 2 (rq_keylen h) @ [rq_extlen h, rq_datatype h] @
     le_bytes 2 (rq_vbucket h) @ le_bytes 4 (rq_bodylen h) @ le_bytes 4 (rq_opaque h) @ le_bytes 8 (rq_cas h)"

definition PROTOCOL_BINARY_REQ :: byte where
  "PROTOCOL_BINARY_REQ = 0x80"

definition PROTOCOL_BINARY_AREQ :: byte where
  "PROTOCOL_BINARY_AREQ = 0x08"

definition MCREQ_PKT_BASESIZE :: nat where
  "MCREQ_PKT_BASESIZE = 24"

datatype lcb_KVBUFTYPE = LCB_KV_COPY | LCB_KV_CONTIG | LCB_KV_IOV | LCB_KV_VBID | LCB_KV_IOVCOPY

record lcb_CONTIGBUF =
  cb_bytes :: nat
  cb_nbytes :: nat

record lcb_KEYBUF =
  kb_type :: lcb_KVBUFTYPE
  kb_contig :: lcb_CONTIGBUF
  kb_vbid :: nat

record lcb_FRAGBUF =
  fb_iov :: "nb_IOV list"
  fb_niov :: nat
  fb_total_length :: nat

record lcb_VALBUF =
  vb_vtype :: lcb_KVBUFTYPE
  vb_contig :: lcb_CONTIGBUF
  vb_multi :: lcb_FRAGBUF

datatype mc_VALUE = Value_single nb_SPAN | Value_multi lcb_FRAGBUF

record mc_REQDATA =
  rd_cookie :: nat
  rd_start :: nat
  rd_deadline :: nat
  rd_dispatch :: nat
  rd_span :: "nat option"
  rd_nsubreq :: nat

record mc_PACKET =
  pk_kh_span :: nb_SPAN
  pk_extlen :: nat
  pk_retries :: nat
  pk_flags :: "16 word"
  pk_opaque :: nat
  pk_rdata :: mc_REQDATA
  pk_value :: mc_VALUE
  pk_alloc_parent :: nat

record mc_PIPELINE =
  pl_nbmgr :: nb_MGR
  pl_reqpool :: nb_MGR

record mc_CMDQUEUE =
  cq_pipelines :: "mc_PIPELINE list"
  cq_npipelines :: nat
  cq_seq :: nat
  cq_config :: "CONFIG option"
  cq_fallback :: "mc_PIPELINE option"

datatype lcb_STATUS =
  LCB_SUCCESS | LCB_ERR_NO_MEMORY | LCB_ERR_INVALID_ARGUMENT | LCB_ERR_NO_CONFIGURATION |
  LCB_ERR_NO_MATCHING_SERVER

definition MCREQ_F_KEY_NOCOPY :: "16 word" where
  "MCREQ_F_KEY_NOCOPY = push_bit 0 1"

definition MCREQ_F_VALUE_NOCOPY :: "16 word" where
  "MCREQ_F_VALUE_NOCOPY = push_bit 1 1"

definition MCREQ_F_VALUE_IOV :: "16 word" where
  "MCREQ_F_VALUE_IOV = push_bit 2 1"

definition MCREQ_F_HASVALUE :: "16 word" where
  "MCREQ_F_HASVALUE = push_bit 3 1"

definition MCREQ_F_NOCID :: "16 word" where
  "MCREQ_F_NOCID = push_bit 10 1"

definition CREATE_STANDALONE_SPAN :: "nat \<Rightarrow> nat \<Rightarrow> nb_SPAN" where
  "CREATE_STANDALONE_SPAN buf len =
     \<lparr>sp_parent = buf, sp_offset = NETBUF_INVALID_OFFSET, sp_size = len mod 2 ^ 32\<rparr>"

section \<open>Reserving space\<close>

text \<open>The parameter \<open>hdrsize\<close> has type \<open>uint8_t\<close>: a larger argument is truncated by the call.\<close>

definition mcreq_reserve_header :: "mb_env \<Rightarrow> nb_MGR \<Rightarrow> mc_PACKET \<Rightarrow> nat \<Rightarrow> (nb_MGR \<times> mc_PACKET \<times> lcb_STATUS) res" where
  "mcreq_reserve_header env mgr packet hdrsize =
     (let hdrsize = hdrsize mod 2 ^ 8;
          packet = packet\<lparr>pk_extlen := usub 8 hdrsize MCREQ_PKT_BASESIZE,
                          pk_kh_span := (pk_kh_span packet)\<lparr>sp_size := hdrsize\<rparr>\<rparr>
      in res_bind (netbuf_mblock_reserve env mgr hdrsize) (\<lambda>(mgr, rv).
           case rv of None \<Rightarrow> Inr (mgr, packet, LCB_ERR_NO_MEMORY)
           | Some span \<Rightarrow> Inr (mgr, packet\<lparr>pk_kh_span := span\<rparr>, LCB_SUCCESS)))"

text \<open>
  \<open>use_collections\<close> stands for \<open>instance && LCBT_SETTING(instance, use_collections)\<close>.
\<close>

definition mcreq_reserve_key ::
  "mb_env \<Rightarrow> bool \<Rightarrow> nb_MGR \<Rightarrow> c_mem \<Rightarrow> mc_PACKET \<Rightarrow> nat \<Rightarrow> lcb_KEYBUF \<Rightarrow> 32 word \<Rightarrow>
   (nb_MGR \<times> c_mem \<times> mc_PACKET \<times> lcb_STATUS) res" where
  "mcreq_reserve_key env use_collections mgr mem packet hdrsize kreq collection_id =
     (let hdrsize = hdrsize mod 2 ^ 8; contig = kb_contig kreq
      in res_bind (if pk_flags packet AND MCREQ_F_NOCID = 0 \<and> use_collections
                   then leb128_encode collection_id (replicate 5 0) else Inr (replicate 5 0, 0)) (\<lambda>(cid, n).
         let ncid = n mod 2 ^ 8;
             packet = packet\<lparr>pk_extlen := usub 8 hdrsize MCREQ_PKT_BASESIZE,
                             pk_kh_span := (pk_kh_span packet)\<lparr>sp_size := cb_nbytes contig mod 2 ^ 32\<rparr>\<rparr>
         in case kb_type kreq of
              LCB_KV_COPY \<Rightarrow>
                let sz = uadd 32 (cb_nbytes contig mod 2 ^ 32) (hdrsize + ncid);
                    packet = packet\<lparr>pk_kh_span := (pk_kh_span packet)\<lparr>sp_size := sz\<rparr>\<rparr>
                in res_bind (netbuf_mblock_reserve env mgr sz) (\<lambda>(mgr, rv).
                   case rv of None \<Rightarrow> Inr (mgr, mem, packet, LCB_ERR_NO_MEMORY)
                   | Some span \<Rightarrow>
                     res_bind (SPAN_BUFFER (mgr_datapool mgr) span) (\<lambda>buf.
                     res_bind (if ncid \<noteq> 0 then put mem (buf + hdrsize) (take ncid cid) else Inr mem) (\<lambda>mem.
                     res_bind (c_memcpy mem (buf + hdrsize + ncid) (cb_bytes contig) (cb_nbytes contig)) (\<lambda>mem.
                     Inr (mgr, mem, packet\<lparr>pk_kh_span := span\<rparr>, LCB_SUCCESS)))))
            | LCB_KV_CONTIG \<Rightarrow>
                Inr (mgr, mem, packet\<lparr>pk_kh_span := CREATE_STANDALONE_SPAN (cb_bytes contig) (cb_nbytes contig),
                                      pk_flags := pk_flags packet OR MCREQ_F_KEY_NOCOPY\<rparr>, LCB_SUCCESS)
            | _ \<Rightarrow> Inr (mgr, mem, packet, LCB_ERR_INVALID_ARGUMENT)))"

text \<open>
  The span of the value union. When the other member was written last, its bytes are not meaningful as
  a span; the routines below only use the size they have just stored.
\<close>

fun union_single :: "mc_VALUE \<Rightarrow> nb_SPAN" where
  "union_single (Value_single s) = s"
| "union_single (Value_multi f) = CREATE_STANDALONE_SPAN 0 0"

definition mcreq_reserve_value2 :: "mb_env \<Rightarrow> nb_MGR \<Rightarrow> mc_PACKET \<Rightarrow> nat \<Rightarrow> (nb_MGR \<times> mc_PACKET \<times> lcb_STATUS) res" where
  "mcreq_reserve_value2 env mgr pkt n =
     (let pkt = pkt\<lparr>pk_value := Value_single ((union_single (pk_value pkt))\<lparr>sp_size := n mod 2 ^ 32\<rparr>)\<rparr>
      in if n = 0 then Inr (mgr, pkt, LCB_SUCCESS) else
         let pkt = pkt\<lparr>pk_flags := pk_flags pkt OR MCREQ_F_HASVALUE\<rparr>
         in res_bind (netbuf_mblock_reserve env mgr (n mod 2 ^ 32)) (\<lambda>(mgr, rv).
              case rv of None \<Rightarrow> Inr (mgr, pkt, LCB_ERR_NO_MEMORY)
              | Some span \<Rightarrow> Inr (mgr, pkt\<lparr>pk_value := Value_single span\<rparr>, LCB_SUCCESS)))"

fun copy_iovs :: "c_mem \<Rightarrow> nat \<Rightarrow> nat \<Rightarrow> nb_IOV list \<Rightarrow> c_mem res" where
  "copy_iovs mem buf cur_offset [] = Inr mem"
| "copy_iovs mem buf cur_offset (v # vs) =
     res_bind (c_memcpy mem (buf + cur_offset) (iov_base v) (iov_len v)) (\<lambda>mem.
       copy_iovs mem buf (uadd 32 cur_offset (to_unsigned (iov_len v))) vs)"

text \<open>\<open>iov_alloc n\<close> says whether the allocation of an array of \<open>n\<close> vectors succeeds.\<close>

definition mcreq_reserve_value ::
  "mb_env \<Rightarrow> (nat \<Rightarrow> bool) \<Rightarrow> nb_MGR \<Rightarrow> c_mem \<Rightarrow> mc_PACKET \<Rightarrow> lcb_VALBUF \<Rightarrow>
   (nb_MGR \<times> c_mem \<times> mc_PACKET \<times> lcb_STATUS) res" where
  "mcreq_reserve_value env iov_alloc mgr mem packet vreq =
     (let has_value = (\<lambda>p. p\<lparr>pk_flags := pk_flags p OR MCREQ_F_HASVALUE\<rparr>);
          contig = vb_contig vreq; msrc = vb_multi vreq
      in case vb_vtype vreq of
        LCB_KV_COPY \<Rightarrow>
          let sz = cb_nbytes contig mod 2 ^ 32;
              packet = packet\<lparr>pk_value := Value_single ((union_single (pk_value packet))\<lparr>sp_size := sz\<rparr>)\<rparr>
          in if sz = 0 then Inr (mgr, mem, packet, LCB_SUCCESS) else
             res_bind (netbuf_mblock_reserve env mgr sz) (\<lambda>(mgr, rv).
             case rv of None \<Rightarrow> Inr (mgr, mem, packet, LCB_ERR_NO_MEMORY)
             | Some span \<Rightarrow>
               res_bind (SPAN_BUFFER (mgr_datapool mgr) span) (\<lambda>buf.
               res_bind (c_memcpy mem buf (cb_bytes contig) (cb_nbytes contig)) (\<lambda>mem.
               Inr (mgr, mem, has_value (packet\<lparr>pk_value := Value_single span\<rparr>), LCB_SUCCESS))))
      | LCB_KV_CONTIG \<Rightarrow>
          Inr (mgr, mem, has_value (packet\<lparr>
                 pk_value := Value_single (CREATE_STANDALONE_SPAN (cb_bytes contig) (cb_nbytes contig)),
                 pk_flags := pk_flags packet OR MCREQ_F_VALUE_NOCOPY\<rparr>), LCB_SUCCESS)
      | LCB_KV_IOV \<Rightarrow>
          if fb_niov msrc \<noteq> 0 \<and> \<not> iov_alloc (fb_niov msrc) then Inl NullPointer
          else if length (fb_iov msrc) < fb_niov msrc then Inl OutOfBounds
          else let iov = take (fb_niov msrc) (fb_iov msrc)
               in Inr (mgr, mem, has_value (packet\<lparr>
                    pk_value := Value_multi \<lparr>fb_iov = iov, fb_niov = fb_niov msrc, fb_total_length = sum_iov_len iov 0\<rparr>,
                    pk_flags := pk_flags packet OR (MCREQ_F_VALUE_IOV OR MCREQ_F_VALUE_NOCOPY)\<rparr>), LCB_SUCCESS)
      | LCB_KV_IOVCOPY \<Rightarrow>
          if length (fb_iov msrc) < fb_niov msrc then Inl OutOfBounds else
          let iov = take (fb_niov msrc) (fb_iov msrc);
              sz = (if fb_total_length msrc \<noteq> 0 then fb_total_length msrc else sum_iov_len iov 0);
              packet = packet\<lparr>pk_value := Value_single ((union_single (pk_value packet))\<lparr>sp_size := sz\<rparr>)\<rparr>
          in res_bind (netbuf_mblock_reserve env mgr sz) (\<lambda>(mgr, rv).
             case rv of None \<Rightarrow> Inr (mgr, mem, packet, LCB_ERR_NO_MEMORY)
             | Some span \<Rightarrow>
               res_bind (SPAN_BUFFER (mgr_datapool mgr) span) (\<lambda>buf.
               res_bind (copy_iovs mem buf 0 iov) (\<lambda>mem.
               Inr (mgr, mem, has_value (packet\<lparr>pk_value := Value_single span\<rparr>), LCB_SUCCESS))))
      | LCB_KV_VBID \<Rightarrow> Inr (mgr, mem, has_value packet, LCB_SUCCESS))"

section \<open>New packets\<close>

definition sizeof_mc_PACKET :: nat where
  "sizeof_mc_PACKET = 112"

text \<open>\<open>junk\<close> is the uninitialised content of the new packet. The result is the packet, or \<open>NULL\<close>.\<close>

definition mcreq_allocate_packet ::
  "mb_env \<Rightarrow> mc_PIPELINE \<Rightarrow> nat \<Rightarrow> mc_PACKET \<Rightarrow> (mc_PIPELINE \<times> nat \<times> mc_PACKET option) res" where
  "mcreq_allocate_packet env pipeline seqno junk =
     res_bind (netbuf_mblock_reserve env (pl_reqpool pipeline) sizeof_mc_PACKET) (\<lambda>(reqpool, rv).
     let pipeline = pipeline\<lparr>pl_reqpool := reqpool\<rparr>
     in case rv of None \<Rightarrow> Inr (pipeline, seqno, None)
        | Some span \<Rightarrow>
            Inr (pipeline, uadd 32 seqno 1,
              Some (junk\<lparr>pk_alloc_parent := sp_parent span, pk_flags := 0, pk_retries := 0, pk_opaque := seqno,
                         pk_rdata := (pk_rdata junk)\<lparr>rd_span := None, rd_deadline := 0\<rparr>\<rparr>)))"

definition mcreq_map_key :: "byte list \<Rightarrow> c_mem \<Rightarrow> CONFIG \<Rightarrow> lcb_KEYBUF \<Rightarrow> nat \<Rightarrow> (int \<times> int) res" where
  "mcreq_map_key stack mem config key nhdr =
     (case kb_type key of
        LCB_KV_VBID \<Rightarrow> res_bind (lcbvb_vbmaster config (int (kb_vbid key))) (\<lambda>srvix. Inr (int (kb_vbid key), srvix))
      | LCB_KV_COPY \<Rightarrow>
          res_bind (load mem (cb_bytes (kb_contig key)) (cb_nbytes (kb_contig key))) (lcbvb_map_key stack config)
      | _ \<Rightarrow>
          res_bind (load mem (cb_bytes (kb_contig key) + nhdr) (usub 64 (cb_nbytes (kb_contig key)) nhdr))
            (lcbvb_map_key stack config))"

definition mcreq_get_key_size :: "protocol_binary_request_header \<Rightarrow> nat" where
  "mcreq_get_key_size hdr =
     (if rq_magic hdr = PROTOCOL_BINARY_AREQ then rq_keylen hdr div 256 mod 256 else htons (rq_keylen hdr))"

text \<open>
  The pipeline a packet goes to: the one at an index, or the fallback. The result of \<open>mcreq_basic_packet\<close>
  is either the status of an early return or the outputs \<open>*pipeline\<close>, \<open>*packet\<close> and \<open>*req\<close>.
\<close>

datatype pipeline_ref = Pipeline nat | Fallback

definition choose_pipeline :: "mc_CMDQUEUE \<Rightarrow> int \<Rightarrow> bool \<Rightarrow> (pipeline_ref \<times> mc_PIPELINE) option res" where
  "choose_pipeline queue srvix fallback_ok =
     (if - 1 < srvix \<and> srvix < int (cq_npipelines queue) then
        (if nat srvix < length (cq_pipelines queue)
         then Inr (Some (Pipeline (nat srvix), cq_pipelines queue ! nat srvix)) else Inl OutOfBounds)
      else case cq_fallback queue of
          Some fb \<Rightarrow> if fallback_ok then Inr (Some (Fallback, fb)) else Inr None
        | None \<Rightarrow> Inr None)"

fun set_pipeline :: "mc_CMDQUEUE \<Rightarrow> pipeline_ref \<Rightarrow> mc_PIPELINE \<Rightarrow> mc_CMDQUEUE" where
  "set_pipeline queue (Pipeline i) pl = queue\<lparr>cq_pipelines := (cq_pipelines queue)[i := pl]\<rparr>"
| "set_pipeline queue Fallback pl = queue\<lparr>cq_fallback := Some pl\<rparr>"

definition basic_header ::
  "protocol_binary_request_header \<Rightarrow> nat \<Rightarrow> nat \<Rightarrow> nat \<Rightarrow> int \<Rightarrow> protocol_binary_request_header" where
  "basic_header req nkey extlen ffextlen vb =
     req\<lparr>rq_magic := (if ffextlen \<noteq> 0 then PROTOCOL_BINARY_AREQ else PROTOCOL_BINARY_REQ),
         rq_keylen := (if ffextlen \<noteq> 0 then nkey mod 256 * 256 + ffextlen else htons nkey),
         rq_vbucket := htons (nat (vb mod 2 ^ 16)),
         rq_extlen := word_of_nat extlen\<rparr>"

definition mcreq_basic_packet ::
  "mb_env \<Rightarrow> byte list \<Rightarrow> bool \<Rightarrow> mc_PACKET \<Rightarrow> mc_CMDQUEUE \<Rightarrow> c_mem \<Rightarrow> lcb_KEYBUF option \<Rightarrow> 32 word \<Rightarrow>
   protocol_binary_request_header \<Rightarrow> nat \<Rightarrow> nat \<Rightarrow> bool \<Rightarrow>
   (mc_CMDQUEUE \<times> c_mem \<times> (lcb_STATUS + pipeline_ref \<times> mc_PACKET \<times> protocol_binary_request_header)) res" where
  "mcreq_basic_packet env stack use_collections junk queue mem key collection_id req extlen ffextlen fallback_ok =
     (case cq_config queue of None \<Rightarrow> Inr (queue, mem, Inl LCB_ERR_NO_CONFIGURATION)
      | Some config \<Rightarrow>
      case key of None \<Rightarrow> Inr (queue, mem, Inl LCB_ERR_INVALID_ARGUMENT)
      | Some key \<Rightarrow>
      let nhdr = MCREQ_PKT_BASESIZE + extlen + ffextlen
      in res_bind (mcreq_map_key stack mem config key nhdr) (\<lambda>(vb, srvix).
         res_bind (choose_pipeline queue srvix fallback_ok) (\<lambda>choice.
         case choice of None \<Rightarrow> Inr (queue, mem, Inl LCB_ERR_NO_MATCHING_SERVER)
         | Some (ref, pipeline) \<Rightarrow>
         res_bind (mcreq_allocate_packet env pipeline (cq_seq queue) junk) (\<lambda>(pipeline, seqno, packet).
         let queue = (set_pipeline queue ref pipeline)\<lparr>cq_seq := seqno\<rparr>
         in case packet of None \<Rightarrow> Inr (queue, mem, Inl LCB_ERR_NO_MEMORY)
         | Some packet \<Rightarrow>
         res_bind (mcreq_reserve_key env use_collections (pl_nbmgr pipeline) mem packet nhdr key collection_id)
           (\<lambda>(nbmgr, mem, packet, _).
         let queue = set_pipeline queue ref (pipeline\<lparr>pl_nbmgr := nbmgr\<rparr>);
             nkey = usub 32 (sp_size (pk_kh_span packet)) (MCREQ_PKT_BASESIZE + pk_extlen packet) mod 2 ^ 16
         in Inr (queue, mem, Inr (ref, packet, basic_header req nkey extlen ffextlen vb)))))))"

section \<open>Reading a packet\<close>

definition mcreq_write_hdr :: "nb_MGR \<Rightarrow> c_mem \<Rightarrow> mc_PACKET \<Rightarrow> protocol_binary_request_header \<Rightarrow> c_mem res" where
  "mcreq_write_hdr mgr mem pkt hdr =
     res_bind (SPAN_BUFFER (mgr_datapool mgr) (pk_kh_span pkt)) (\<lambda>kh. put mem kh (bytes_of_hdr hdr))"

definition mcreq_read_hdr :: "nb_MGR \<Rightarrow> c_mem \<Rightarrow> mc_PACKET \<Rightarrow> protocol_binary_request_header res" where
  "mcreq_read_hdr mgr mem pkt =
     res_bind (SPAN_BUFFER (mgr_datapool mgr) (pk_kh_span pkt)) (\<lambda>kh.
     res_bind (load mem kh 24) (\<lambda>bs. Inr (hdr_of_bytes bs)))"

text \<open>The length of the framing extras and of the key, as the three functions below compute them.\<close>

definition header_lens :: "protocol_binary_request_header \<Rightarrow> nat \<times> nat" where
  "header_lens req =
     (if rq_magic req = PROTOCOL_BINARY_AREQ then (rq_keylen req mod 256, rq_keylen req div 256)
      else (0, htons (rq_keylen req)))"

definition mcreq_get_cid :: "bool \<Rightarrow> nb_MGR \<Rightarrow> c_mem \<Rightarrow> mc_PACKET \<Rightarrow> 32 word res" where
  "mcreq_get_cid use_collections mgr mem packet =
     res_bind (SPAN_BUFFER (mgr_datapool mgr) (pk_kh_span packet)) (\<lambda>kh.
     res_bind (load mem kh 24) (\<lambda>bs.
     let req = hdr_of_bytes bs; (ffext, nk) = header_lens req;
         k = kh + 24 + unat (rq_extlen req) + ffext
     in if pk_flags packet AND MCREQ_F_NOCID = 0 \<and> use_collections then
          res_bind (leb128_decode (\<lambda>i. load_byte mem (k + i)) nk) (\<lambda>(n, cid).
            Inr (if n mod 2 ^ 8 \<noteq> 0 then cid else 0))
        else Inr 0))"

definition mcreq_get_key :: "bool \<Rightarrow> nb_MGR \<Rightarrow> c_mem \<Rightarrow> mc_PACKET \<Rightarrow> (nat \<times> nat) res" where
  "mcreq_get_key use_collections mgr mem packet =
     res_bind (SPAN_BUFFER (mgr_datapool mgr) (pk_kh_span packet)) (\<lambda>kh.
     res_bind (load mem kh 24) (\<lambda>bs.
     let req = hdr_of_bytes bs; (ffext, nk) = header_lens req;
         k = kh + 24 + unat (rq_extlen req) + ffext
     in res_bind (if pk_flags packet AND MCREQ_F_NOCID = 0 \<and> use_collections then
            res_bind (leb128_decode (\<lambda>i. load_byte mem (k + i)) nk) (\<lambda>(n, cid). Inr (n mod 2 ^ 8))
          else Inr 0) (\<lambda>ncid. Inr (k + ncid, usub 64 nk ncid))))"

definition mcreq_get_bodysize :: "nb_MGR \<Rightarrow> c_mem \<Rightarrow> mc_PACKET \<Rightarrow> nat res" where
  "mcreq_get_bodysize mgr mem packet =
     res_bind (SPAN_BUFFER (mgr_datapool mgr) (pk_kh_span packet)) (\<lambda>kh.
     res_bind (load mem (kh + 8) 4) (\<lambda>bs. Inr (htonl (le_val bs))))"

definition mcreq_get_vbucket :: "nb_MGR \<Rightarrow> c_mem \<Rightarrow> mc_PACKET \<Rightarrow> nat res" where
  "mcreq_get_vbucket mgr mem packet =
     res_bind (SPAN_BUFFER (mgr_datapool mgr) (pk_kh_span packet)) (\<lambda>kh.
     res_bind (load mem (kh + 6) 2) (\<lambda>bs. Inr (htons (le_val bs))))"

text \<open>The sizes of the two members of the value union occupy the same four bytes.\<close>

fun union_size :: "mc_VALUE \<Rightarrow> nat" where
  "union_size (Value_single s) = sp_size s"
| "union_size (Value_multi f) = fb_total_length f"

definition mcreq_get_size :: "mc_PACKET \<Rightarrow> nat" where
  "mcreq_get_size packet =
     (let sz = sp_size (pk_kh_span packet)
      in if pk_flags packet AND MCREQ_F_HASVALUE \<noteq> 0 then uadd 32 sz (union_size (pk_value packet)) else sz)"

section \<open>Replacing the collection identifier\<close>

definition mcreq_set_cid ::
  "mb_env \<Rightarrow> (c_mem \<Rightarrow> nat \<Rightarrow> nat option) \<Rightarrow> nb_MGR \<Rightarrow> c_mem \<Rightarrow> mc_PACKET \<Rightarrow> 32 word \<Rightarrow>
   (nb_MGR \<times> c_mem \<times> mc_PACKET) res" where
  "mcreq_set_cid env calloc mgr mem packet cid =
     res_bind (SPAN_BUFFER (mgr_datapool mgr) (pk_kh_span packet)) (\<lambda>kh.
     res_bind (load mem kh 24) (\<lambda>bs.
     let req = hdr_of_bytes bs; (ffext, nk) = header_lens req;
         nhdr = 24 + unat (rq_extlen req) + ffext
     in res_bind (leb128_decode (\<lambda>i. load_byte mem (kh + nhdr + i)) nk) (\<lambda>(nold, old).
        res_bind (leb128_encode cid (replicate 5 0)) (\<lambda>(buf, n).
        let nbuf = n mod 2 ^ 8;
            size0 = sp_size (pk_kh_span packet);
            new_size = usub 32 (uadd 32 size0 nbuf) nold;
            new_klen = usub 64 (nk + nbuf) nold;
            req = req\<lparr>rq_bodylen := htonl (usub 32 (uadd 32 (htonl (rq_bodylen req)) nbuf) nold),
                      rq_keylen := (if rq_magic req = PROTOCOL_BINARY_AREQ then (new_klen * 256 + ffext) mod 2 ^ 16
                                    else htons new_klen)\<rparr>
        in res_bind (c_calloc calloc mem new_size) (\<lambda>(mem, kdata).
           res_bind (c_memcpy mem kdata kh nhdr) (\<lambda>mem.
           res_bind (put mem kdata (bytes_of_hdr req)) (\<lambda>mem.
           res_bind (put mem (kdata + nhdr) (take nbuf buf)) (\<lambda>mem.
           res_bind (c_memcpy mem (kdata + nhdr + nbuf) (kh + nhdr + nold) (usub 64 (usub 64 new_size nbuf) nhdr)) (\<lambda>mem.
           res_bind (if sp_offset (pk_kh_span packet) = NETBUF_INVALID_OFFSET
                     then Inr (mgr, c_free mem kh size0)
                     else res_bind (netbuf_mblock_release env mgr (pk_kh_span packet)) (\<lambda>mgr. Inr (mgr, mem)))
             (\<lambda>(mgr, mem).
           Inr (mgr, mem, packet\<lparr>pk_kh_span := CREATE_STANDALONE_SPAN kdata new_size\<rparr>)))))))))))"

section \<open>Facts on bytes in memory\<close>

definition holds :: "c_mem \<Rightarrow> nat \<Rightarrow> byte list \<Rightarrow> bool" where
  "holds mem a bs \<longleftrightarrow> map mem [a..<a + length bs] = map Some bs"

lemma holds_Nil [simp]: "holds mem a []"
  by (simp add: holds_def)

lemma holds_nth: "holds mem a bs \<longleftrightarrow> (\<forall>i < length bs. mem (a + i) = Some (bs ! i))"
  unfolding holds_def list_eq_iff_nth_eq by auto

lemma holds_append: "holds mem a (xs @ ys) \<longleftrightarrow> holds mem a xs \<and> holds mem (a + length xs) ys"
  unfolding holds_def length_append add.assoc [symmetric]
  using upt_add_eq_append [of a "a + length xs" "length ys"] by auto

lemma holds_mapped: "holds mem a bs \<Longrightarrow> n \<le> length bs \<Longrightarrow> mapped mem [a..<a + n]"
  unfolding holds_nth mapped_def list_all_iff
  by (metis atLeastLessThan_iff le_Suc_ex less_le_trans nat_add_left_cancel_less option.distinct(1) set_upt)

lemma load_holds: "holds mem a bs \<Longrightarrow> load mem a (length bs) = Inr bs"
  unfolding load_def using holds_mapped [of mem a bs "length bs"]
  by (auto simp: holds_nth intro!: nth_equalityI)

lemma load_byte_holds: "holds mem a bs \<Longrightarrow> i < length bs \<Longrightarrow> load_byte mem (a + i) = Inr (bs ! i)"
  by (simp add: load_byte_def holds_nth)

lemma holds_store: "holds (store_at mem a (map Some bs)) a bs"
  by (simp add: holds_nth store_at_def)

lemma holds_store_apart:
  "holds mem a bs \<Longrightarrow> a + length bs \<le> d \<or> d + length xs \<le> a \<Longrightarrow> holds (store_at mem d xs) a bs"
  by (auto simp: holds_nth store_at_def)

lemma memcpy_holds:
  assumes "holds mem src bs" and "mapped mem [dst..<dst + length bs]"
  shows "c_memcpy mem dst src (length bs) = Inr (store_at mem dst (map Some bs))"
  using assms holds_mapped [of mem src bs "length bs"] by (simp add: c_memcpy_def holds_def)

lemma put_holds:
  assumes "mapped mem [dst..<dst + length bs]"
  shows "put mem dst bs = Inr (store_at mem dst (map Some bs))"
  using assms by (simp add: put_def)

lemma holds_patch:
  assumes "holds mem a bs" and "off + length xs \<le> length bs"
  shows "holds (store_at mem (a + off) (map Some xs)) a (take off bs @ xs @ drop (off + length xs) bs)"
proof -
  have "store_at mem (a + off) (map Some xs) (a + i) = Some ((take off bs @ xs @ drop (off + length xs) bs) ! i)"
    if "i < length bs" for i
    using nth_patch [OF assms(2) that] assms that by (auto simp: store_at_def holds_nth)
  then show ?thesis using assms(2) by (simp add: holds_nth)
qed

lemma mapped_store_Some: "mapped mem as \<Longrightarrow> mapped (store_at mem d (map Some bs)) as"
  by (auto simp: mapped_def list_all_iff store_at_def)

lemma length_le_bytes [simp]: "length (le_bytes k v) = k"
  by (induction k arbitrary: v) simp_all

lemma le_val_bound: "le_val bs < 256 ^ length bs"
proof (induction bs)
  case (Cons b bs)
  have "unat b + 256 * le_val bs < 256 + 256 * le_val bs" using unat_byte_less [of b] by simp
  also have "\<dots> \<le> 256 * 256 ^ length bs" using Cons by simp
  finally show ?case by simp
qed simp

lemma le_val_le_bytes: "v < 256 ^ k \<Longrightarrow> le_val (le_bytes k v) = v"
proof (induction k arbitrary: v)
  case (Suc k)
  have "v div 256 < 256 ^ k" using Suc.prems by (simp add: div_less_iff_less_mult mult.commute)
  moreover have "unat (word_of_nat v :: byte) = v mod 256" by (simp add: unat_of_nat)
  ultimately show ?case using Suc.IH [of "v div 256"] by simp
qed simp

lemma le_bytes_le_val: "le_bytes (length bs) (le_val bs) = bs"
proof (induction bs)
  case (Cons b bs)
  have "unat (word_of_nat (unat b + 256 * le_val bs) :: byte) = (unat b + 256 * le_val bs) mod 256"
    by (simp only: unat_of_nat) simp
  then have "word_of_nat (unat b + 256 * le_val bs) = b"
    using unat_byte_less [of b] by (simp only: word_unat_eq_iff) simp
  moreover have "(unat b + 256 * le_val bs) div 256 = le_val bs" using unat_byte_less [of b] by simp
  ultimately show ?case using Cons by simp
qed simp

lemma swap_swap:
  assumes "v < 256 ^ k"
  shows "le_val (rev (le_bytes k (le_val (rev (le_bytes k v))))) = v"
  using le_bytes_le_val [of "rev (le_bytes k v)"] le_val_le_bytes [OF assms] by simp

lemma htons_htons: "v < 2 ^ 16 \<Longrightarrow> htons (htons v) = v"
  unfolding htons_def by (rule swap_swap) simp

lemma htonl_htonl: "v < 2 ^ 32 \<Longrightarrow> htonl (htonl v) = v"
  unfolding htonl_def by (rule swap_swap) simp

lemma hton_bounds: "htons v < 2 ^ 16" "htonl v < 2 ^ 32"
  using le_val_bound [of "rev (le_bytes 2 v)"] le_val_bound [of "rev (le_bytes 4 v)"]
  by (simp_all add: htons_def htonl_def)

definition hdr_ok :: "protocol_binary_request_header \<Rightarrow> bool" where
  "hdr_ok h \<longleftrightarrow> rq_keylen h < 2 ^ 16 \<and> rq_vbucket h < 2 ^ 16 \<and> rq_bodylen h < 2 ^ 32 \<and>
     rq_opaque h < 2 ^ 32 \<and> rq_cas h < 2 ^ 64"

lemma length_bytes_of_hdr [simp]: "length (bytes_of_hdr h) = 24"
  by (simp add: bytes_of_hdr_def)

lemma list_2: "length xs = 2 \<Longrightarrow> \<exists>a b. xs = [a, b]"
  by (auto simp: length_Suc_conv numeral_2_eq_2)

lemma list_4: "length xs = 4 \<Longrightarrow> \<exists>a b c d. xs = [a, b, c, d]"
  by (auto simp: length_Suc_conv eval_nat_numeral)

lemma hdr_of_bytes_of_hdr:
  assumes "hdr_ok h"
  shows "hdr_of_bytes (bytes_of_hdr h) = h"
proof -
  obtain a b c d e f g i j k l m cs where le:
    "le_bytes 2 (rq_keylen h) = [a, b]" "le_bytes 2 (rq_vbucket h) = [c, d]"
    "le_bytes 4 (rq_bodylen h) = [e, f, g, i]" "le_bytes 4 (rq_opaque h) = [j, k, l, m]"
    "le_bytes 8 (rq_cas h) = cs"
    using list_2 [OF length_le_bytes] list_4 [OF length_le_bytes] by metis
  have val: "le_val [a, b] = rq_keylen h" "le_val [c, d] = rq_vbucket h"
    "le_val [e, f, g, i] = rq_bodylen h" "le_val [j, k, l, m] = rq_opaque h" "le_val cs = rq_cas h"
    unfolding le [symmetric] using assms by (simp_all add: le_val_le_bytes hdr_ok_def del: le_bytes.simps)
  have "length cs = 8" unfolding le [symmetric] by simp
  then show ?thesis
    unfolding hdr_of_bytes_def bytes_of_hdr_def le by (simp add: val [simplified])
qed

section \<open>The layout of a packet\<close>

text \<open>
  Behind the header come the extras (the framing extras and the ordinary ones), the encoded collection
  identifier and the key; the header records the lengths.
\<close>

definition packet_layout ::
  "c_mem \<Rightarrow> nat \<Rightarrow> protocol_binary_request_header \<Rightarrow> byte list \<Rightarrow> 32 word \<Rightarrow> byte list \<Rightarrow> bool" where
  "packet_layout mem kh hdr ext cid key \<longleftrightarrow>
     hdr_ok hdr \<and> holds mem kh (bytes_of_hdr hdr @ ext @ leb_bytes (unat cid) @ key) \<and>
     header_lens hdr = (length ext - unat (rq_extlen hdr), length (leb_bytes (unat cid)) + length key) \<and>
     unat (rq_extlen hdr) \<le> length ext"

lemma leb_bytes_small: "0 < length (leb_bytes (unat (cid :: 32 word)))" "length (leb_bytes (unat cid)) \<le> 5"
proof -
  have "unat cid < 2 ^ 32" using unsigned_less [of cid] by simp
  then show "length (leb_bytes (unat cid)) \<le> 5" using leb_bytes_bound [of "unat cid" 5] by simp
qed (rule leb_bytes_length)

lemma header_lens_bound:
  assumes "hdr_ok hdr" and "header_lens hdr = (f, nk)"
  shows "f < 256" and "nk < 2 ^ 16"
  using assms hton_bounds(1) [of "rq_keylen hdr"]
  by (auto simp: header_lens_def hdr_ok_def split: if_splits)

lemma layout_header:
  assumes "packet_layout mem kh hdr ext cid key"
  shows "load mem kh 24 = Inr (bytes_of_hdr hdr)" and "hdr_of_bytes (bytes_of_hdr hdr) = hdr"
  using assms load_holds [of mem kh "bytes_of_hdr hdr"]
  by (simp_all add: packet_layout_def holds_append hdr_of_bytes_of_hdr)

lemma layout_decode:
  assumes "packet_layout mem kh hdr ext cid key"
  shows "leb128_decode (\<lambda>i. load_byte mem (kh + 24 + length ext + i)) (length (leb_bytes (unat cid)) + length key) =
    (if unat cid < 2 ^ 31 then Inr (length (leb_bytes (unat cid)), cid) else Inl UndefinedShift)"
proof -
  let ?buf = "\<lambda>i. load_byte mem (kh + 24 + length ext + i)" and ?n = "length (leb_bytes (unat cid)) + length key"
  have "holds mem (kh + 24 + length ext) (leb_bytes (unat cid))"
    using assms by (simp add: packet_layout_def holds_append)
  then have b: "?buf i = Inr (leb_bytes (unat cid) ! i)" if "i < length (leb_bytes (unat cid))" for i
    using that by (simp add: load_byte_holds)
  have v: "unat cid < 2 ^ 32" using unsigned_less [of cid] by simp
  show ?thesis
  proof (cases "unat cid < 2 ^ 31")
    case True
    then have "leb128_decode ?buf ?n = Inr (length (leb_bytes (unat cid)), word_of_nat (unat cid))"
      using b by (intro leb128_decode_eq) simp_all
    then show ?thesis using True by simp
  next
    case False
    then have "leb128_decode ?buf ?n = Inl UndefinedShift" using b v by (intro leb128_decode_sign [of "unat cid"]) simp_all
    then show ?thesis using False by simp
  qed
qed

lemma layout_lens:
  assumes "packet_layout mem kh hdr ext cid key"
  shows "header_lens hdr = (length ext - unat (rq_extlen hdr), length (leb_bytes (unat cid)) + length key)"
    and "24 + unat (rq_extlen hdr) + (length ext - unat (rq_extlen hdr)) = 24 + length ext"
    and "kh + 24 + unat (rq_extlen hdr) + (length ext - unat (rq_extlen hdr)) = kh + 24 + length ext"
  using assms by (simp_all add: packet_layout_def)

lemma get_cid_layout:
  assumes "SPAN_BUFFER (mgr_datapool mgr) (pk_kh_span packet) = Inr kh"
    and "packet_layout mem kh hdr ext cid key" and "pk_flags packet AND MCREQ_F_NOCID = 0"
  shows "mcreq_get_cid True mgr mem packet = (if unat cid < 2 ^ 31 then Inr cid else Inl UndefinedShift)"
  unfolding mcreq_get_cid_def assms(1) res_bind_simps layout_header [OF assms(2)] Let_def
    layout_lens(1) [OF assms(2)] prod.case layout_lens(3) [OF assms(2)] layout_decode [OF assms(2)]
  using assms(3) leb_bytes_small [of cid] by simp

lemma get_key_layout:
  assumes "SPAN_BUFFER (mgr_datapool mgr) (pk_kh_span packet) = Inr kh"
    and "packet_layout mem kh hdr ext cid key" and "pk_flags packet AND MCREQ_F_NOCID = 0"
  shows "mcreq_get_key True mgr mem packet =
      (if unat cid < 2 ^ 31 then Inr (kh + 24 + length ext + length (leb_bytes (unat cid)), length key) else Inl UndefinedShift)"
    and "holds mem (kh + 24 + length ext + length (leb_bytes (unat cid))) key"
proof -
  have "length (leb_bytes (unat cid)) + length key < 2 ^ 64"
    using header_lens_bound(2) [OF _ layout_lens(1) [OF assms(2)]] assms(2) by (simp add: packet_layout_def)
  then show "mcreq_get_key True mgr mem packet =
      (if unat cid < 2 ^ 31 then Inr (kh + 24 + length ext + length (leb_bytes (unat cid)), length key) else Inl UndefinedShift)"
    unfolding mcreq_get_key_def assms(1) res_bind_simps layout_header [OF assms(2)] Let_def
      layout_lens(1) [OF assms(2)] prod.case layout_lens(3) [OF assms(2)] layout_decode [OF assms(2)]
    using assms(3) leb_bytes_small [of cid] by (simp add: usub_nowrap)
  show "holds mem (kh + 24 + length ext + length (leb_bytes (unat cid))) key"
    using assms(2) by (simp add: packet_layout_def holds_append)
qed

lemma hdr_fields:
  assumes "hdr_ok hdr" and "holds mem kh (bytes_of_hdr hdr)"
  shows "load mem (kh + 6) 2 = Inr (le_bytes 2 (rq_vbucket hdr))"
    and "load mem (kh + 8) 4 = Inr (le_bytes 4 (rq_bodylen hdr))"
proof -
  define pre where "pre = [rq_magic hdr, rq_opcode hdr] @ le_bytes 2 (rq_keylen hdr) @ [rq_extlen hdr, rq_datatype hdr]"
  have len: "length pre = 6" "kh + 6 + length (le_bytes 2 (rq_vbucket hdr)) = kh + 8"
    by (simp_all add: pre_def)
  have "bytes_of_hdr hdr = pre @ le_bytes 2 (rq_vbucket hdr) @ le_bytes 4 (rq_bodylen hdr) @
      le_bytes 4 (rq_opaque hdr) @ le_bytes 8 (rq_cas hdr)"
    by (simp only: bytes_of_hdr_def pre_def append_assoc)
  then have "holds mem (kh + length pre) (le_bytes 2 (rq_vbucket hdr))"
    "holds mem (kh + length pre + length (le_bytes 2 (rq_vbucket hdr))) (le_bytes 4 (rq_bodylen hdr))"
    using assms(2) by (simp_all only: holds_append)
  then have "holds mem (kh + 6) (le_bytes 2 (rq_vbucket hdr))" "holds mem (kh + 8) (le_bytes 4 (rq_bodylen hdr))"
    by (simp_all only: len)
  then show "load mem (kh + 6) 2 = Inr (le_bytes 2 (rq_vbucket hdr))"
    "load mem (kh + 8) 4 = Inr (le_bytes 4 (rq_bodylen hdr))"
    using load_holds [of mem "kh + 6" "le_bytes 2 (rq_vbucket hdr)"]
      load_holds [of mem "kh + 8" "le_bytes 4 (rq_bodylen hdr)"]
    by (simp_all only: length_le_bytes)
qed

text \<open>What \<open>calloc\<close> promises: a block it returns is memory that was not in use.\<close>

definition calloc_fresh :: "(c_mem \<Rightarrow> nat \<Rightarrow> nat option) \<Rightarrow> c_mem \<Rightarrow> bool" where
  "calloc_fresh calloc mem \<longleftrightarrow> (\<forall>n a. calloc mem n = Some a \<longrightarrow> (\<forall>x. a \<le> x \<and> x < a + n \<longrightarrow> mem x = None))"

definition cid_header ::
  "protocol_binary_request_header \<Rightarrow> nat \<Rightarrow> nat \<Rightarrow> nat \<Rightarrow> nat \<Rightarrow> protocol_binary_request_header" where
  "cid_header hdr ffext klen nbuf nold =
     hdr\<lparr>rq_bodylen := htonl (usub 32 (uadd 32 (htonl (rq_bodylen hdr)) nbuf) nold),
         rq_keylen := (if rq_magic hdr = PROTOCOL_BINARY_AREQ then (klen * 256 + ffext) mod 2 ^ 16 else htons klen)\<rparr>"

lemma cid_header_ok:
  assumes "hdr_ok hdr" and "ffext < 256" and "header_lens hdr = (ffext, nk)"
    and "klen < (if rq_magic hdr = PROTOCOL_BINARY_AREQ then 2 ^ 8 else 2 ^ 16)"
  shows "hdr_ok (cid_header hdr ffext klen nbuf nold)"
    and "header_lens (cid_header hdr ffext klen nbuf nold) = (ffext, klen)"
    and "rq_extlen (cid_header hdr ffext klen nbuf nold) = rq_extlen hdr"
    and "rq_vbucket (cid_header hdr ffext klen nbuf nold) = rq_vbucket hdr"
proof -
  show "hdr_ok (cid_header hdr ffext klen nbuf nold)"
    using assms(1) hton_bounds by (simp add: hdr_ok_def cid_header_def)
  show "header_lens (cid_header hdr ffext klen nbuf nold) = (ffext, klen)"
  proof (cases "rq_magic hdr = PROTOCOL_BINARY_AREQ")
    case True
    then have "klen * 256 + ffext < 2 ^ 16" using assms(2,4) by simp
    then show ?thesis using True assms(2) by (simp add: header_lens_def cid_header_def)
  next
    case False
    then show ?thesis using assms(3,4) by (simp add: header_lens_def cid_header_def htons_htons)
  qed
qed (simp_all add: cid_header_def)

lemma holds_apart:
  assumes "holds mem a bs" and "\<forall>x. kd \<le> x \<and> x < kd + N \<longrightarrow> mem x = None" and "bs \<noteq> []" and "0 < N"
  shows "a + length bs \<le> kd \<or> kd + N \<le> a"
proof (rule ccontr)
  assume n: "\<not> ?thesis"
  define i where "i = max a kd - a"
  have i: "i < length bs" "kd \<le> a + i" "a + i < kd + N" using n assms(3,4) by (auto simp: i_def max_def)
  then show False using assms(1,2) by (auto simp: holds_nth)
qed

text \<open>The five stores into the new block.\<close>

lemma rebuild_holds:
  assumes "holds mem kh (hb @ ext @ old @ key)" and "length hb = length hb'"
    and fresh: "\<forall>x. kd \<le> x \<and> x < kd + N \<longrightarrow> mem x = None" and "N = length hb' + length ext + length new + length key"
    and "0 < length hb"
  shows "\<exists>mem1 mem2 mem3 mem4.
      c_memcpy (store_at mem kd (replicate N (Some 0))) kd kh (length hb + length ext) = Inr mem1 \<and>
      put mem1 kd hb' = Inr mem2 \<and> put mem2 (kd + (length hb + length ext)) new = Inr mem3 \<and>
      c_memcpy mem3 (kd + (length hb + length ext) + length new) (kh + (length hb + length ext) + length old) (length key) = Inr mem4 \<and>
      holds mem4 kd (hb' @ ext @ new @ key) \<and>
      (\<forall>x. x < kd \<or> kd + N \<le> x \<longrightarrow> mem4 x = mem x)"
proof -
  define n where "n = length hb + length ext"
  define mem0 where "mem0 = store_at mem kd (replicate N (Some 0))"
  have N: "N = n + length new + length key" using assms(2,4) by (simp add: n_def)
  have old: "holds mem kh (hb @ ext)" "holds mem (kh + n + length old) key"
    using assms(1) by (simp_all add: holds_append n_def add.assoc)
  have "kh + length (hb @ ext @ old @ key) \<le> kd \<or> kd + N \<le> kh"
    using assms(5) N by (intro holds_apart [OF assms(1) fresh]) (auto simp: n_def)
  then have apart: "kh + length (hb @ ext) \<le> kd \<or> kd + N \<le> kh"
    "kh + n + length old + length key \<le> kd \<or> kd + N \<le> kh + n + length old" by (auto simp: n_def)
  define mem1 where "mem1 = store_at mem0 kd (map Some (hb @ ext))"
  define mem2 where "mem2 = store_at mem1 kd (map Some hb')"
  define mem3 where "mem3 = store_at mem2 (kd + n) (map Some new)"
  define mem4 where "mem4 = store_at mem3 (kd + n + length new) (map Some key)"
  have m0: "mapped mem0 [kd..<kd + N]" by (auto simp: mapped_def mem0_def list_all_iff store_at_def)
  have m: "mapped mem1 [kd..<kd + N]" "mapped mem2 [kd..<kd + N]" "mapped mem3 [kd..<kd + N]"
    unfolding mem1_def mem2_def mem3_def by (intro mapped_store_Some m0)+
  have "c_memcpy mem0 kd kh n = Inr mem1"
    using memcpy_holds [of mem0 kh "hb @ ext" kd] holds_store_apart [OF old(1), of kd "replicate N (Some 0)"]
      apart(1) mapped_upt [OF m0, of kd "kd + n"] N
    by (auto simp: mem0_def mem1_def n_def)
  moreover have "put mem1 kd hb' = Inr mem2"
    using put_holds [of mem1 kd hb'] mapped_upt [OF m(1), of kd "kd + length hb'"] assms(4) by (simp add: mem2_def)
  moreover have "put mem2 (kd + n) new = Inr mem3"
    using put_holds [of mem2 "kd + n" new] mapped_upt [OF m(2), of "kd + n" "kd + n + length new"] N by (simp add: mem3_def)
  moreover have "holds mem3 (kh + n + length old) key"
    unfolding mem3_def mem2_def mem1_def mem0_def using apart(2) N assms(2)
    by (intro holds_store_apart old(2)) (auto simp: n_def)
  then have "c_memcpy mem3 (kd + n + length new) (kh + n + length old) (length key) = Inr mem4"
    using memcpy_holds [of mem3 "kh + n + length old" key "kd + n + length new"] 
      mapped_upt [OF m(3), of "kd + n + length new" "kd + N"] N by (simp add: mem4_def add.assoc)
  moreover have "holds mem4 kd (hb' @ ext @ new @ key)"
  proof -
    have "holds mem1 (kd + length hb) ext" using holds_store [of mem0 kd "hb @ ext"] by (simp add: mem1_def holds_append)
    then have "holds mem2 (kd + length hb') ext" unfolding mem2_def assms(2) by (rule holds_store_apart) simp
    moreover have "holds mem2 kd hb'" unfolding mem2_def by (rule holds_store)
    ultimately have "holds mem3 (kd + length hb') ext" "holds mem3 kd hb'"
      unfolding mem3_def by (auto intro!: holds_store_apart simp: n_def assms(2))
    moreover have "holds mem3 (kd + n) new" unfolding mem3_def by (rule holds_store)
    ultimately have "holds mem4 (kd + length hb') ext" "holds mem4 kd hb'" "holds mem4 (kd + n) new"
      unfolding mem4_def by (auto intro!: holds_store_apart simp: n_def assms(2))
    moreover have "holds mem4 (kd + n + length new) key" unfolding mem4_def by (rule holds_store)
    ultimately show ?thesis by (simp add: holds_append n_def assms(2) add.assoc)
  qed
  moreover have "\<forall>x. x < kd \<or> kd + N \<le> x \<longrightarrow> mem4 x = mem x"
    using N assms(2) by (auto simp: mem4_def mem3_def mem2_def mem1_def mem0_def store_at_def n_def)
  ultimately show ?thesis unfolding mem0_def n_def by blast
qed

lemma release_kh:
  assumes "sp_offset span = NETBUF_INVALID_OFFSET \<or> (\<exists>l1 l2. pool_inv (mgr_datapool mgr) (l1 @ span # l2))"
    and "holds mem kd bs" and "kh + n \<le> kd \<or> kd + length bs \<le> kh"
    and "rel = (if sp_offset span = NETBUF_INVALID_OFFSET then Inr (mgr, c_free mem kh n)
      else res_bind (netbuf_mblock_release env mgr span) (\<lambda>mgr. Inr (mgr, mem)))"
  shows "(\<exists>mgr' mem'. rel = Inr (mgr', mem') \<and> holds mem' kd bs \<and> mgr' = mgr\<lparr>mgr_datapool := mgr_datapool mgr'\<rparr> \<and>
      (\<forall>x. x < kh \<or> kh + n \<le> x \<longrightarrow> mem' x = mem x)) \<or>
    sp_offset span \<noteq> NETBUF_INVALID_OFFSET \<and>
      (\<exists>op f. env_queue env (mgr_datapool mgr) (sp_parent span) op = Some f \<and> rel = Inl f)"
proof (cases "sp_offset span = NETBUF_INVALID_OFFSET")
  case True
  then show ?thesis using assms(2-4) by (auto simp: holds_nth c_free_def)
next
  case False
  then obtain l1 l2 where "pool_inv (mgr_datapool mgr) (l1 @ span # l2)" using assms(1) by blast
  from mblock_release_data_inv [OF this, of env] show ?thesis
    using False assms(2,4)
    by (cases "mblock_release_data env (mgr_datapool mgr) (sp_parent span) (sp_size span) (sp_offset span)")
      (auto simp: netbuf_mblock_release_def queue_faults_def)
qed

lemma mcreq_set_cid_runs:
  fixes old cid :: "32 word"
  defines "nold \<equiv> length (leb_bytes (unat old))" and "nbuf \<equiv> length (leb_bytes (unat cid))"
  assumes buf: "SPAN_BUFFER (mgr_datapool mgr) (pk_kh_span packet) = Inr kh"
    and lay: "packet_layout mem kh hdr ext old key" and old: "unat old < 2 ^ 31"
    and sz: "sp_size (pk_kh_span packet) = 24 + length ext + nold + length key"
    and kind: "sp_offset (pk_kh_span packet) = NETBUF_INVALID_OFFSET \<or>
      (\<exists>l1 l2. pool_inv (mgr_datapool mgr) (l1 @ pk_kh_span packet # l2))"
    and kd: "calloc mem N = Some kd" "\<forall>x. kd \<le> x \<and> x < kd + N \<longrightarrow> mem x = None"
    and N: "N = 24 + length ext + nbuf + length key"
    and klen: "nbuf + length key < (if rq_magic hdr = PROTOCOL_BINARY_AREQ then 2 ^ 8 else 2 ^ 16)"
  shows "(\<exists>mgr' mem'. mcreq_set_cid env calloc mgr mem packet cid =
      Inr (mgr', mem', packet\<lparr>pk_kh_span := CREATE_STANDALONE_SPAN kd N\<rparr>) \<and> mgr' = mgr\<lparr>mgr_datapool := mgr_datapool mgr'\<rparr> \<and>
      packet_layout mem' kd (cid_header hdr (length ext - unat (rq_extlen hdr)) (nbuf + length key) nbuf nold) ext cid key \<and>
      (\<forall>x. (x < kd \<or> kd + N \<le> x) \<and> (x < kh \<or> kh + sp_size (pk_kh_span packet) \<le> x) \<longrightarrow> mem' x = mem x)) \<or>
    sp_offset (pk_kh_span packet) \<noteq> NETBUF_INVALID_OFFSET \<and>
      (\<exists>op f. env_queue env (mgr_datapool mgr) (sp_parent (pk_kh_span packet)) op = Some f \<and>
         mcreq_set_cid env calloc mgr mem packet cid = Inl f)"
proof -
  define ffext where "ffext = length ext - unat (rq_extlen hdr)"
  define hdr' where "hdr' = cid_header hdr ffext (nbuf + length key) nbuf nold"
  have ok: "hdr_ok hdr" and lens: "header_lens hdr = (ffext, nold + length key)"
    and ext: "unat (rq_extlen hdr) \<le> length ext"
    and cont: "holds mem kh (bytes_of_hdr hdr @ ext @ leb_bytes (unat old) @ key)"
    using lay by (simp_all add: packet_layout_def ffext_def nold_def)
  have small: "ffext < 256" "nold + length key < 2 ^ 16" "nold \<le> 5" "nbuf \<le> 5" "0 < nbuf"
    using header_lens_bound [OF ok lens] leb_bytes_small [of old] leb_bytes_small [of cid]
    by (simp_all add: nold_def nbuf_def)
  then have "length ext < 512" using ext unat_byte_less [of "rq_extlen hdr"] by (simp add: ffext_def)
  then have ar: "usub 32 (uadd 32 (sp_size (pk_kh_span packet)) nbuf) nold = N"
    "usub 64 (nold + length key + nbuf) nold = nbuf + length key"
    "usub 64 (usub 64 N nbuf) (24 + length ext) = length key" "N < 2 ^ 32"
    using small by (simp_all add: sz N usub_nowrap uadd_nowrap)
  have enc: "leb128_encode cid (replicate 5 0) = Inr (leb_bytes (unat cid) @ replicate (5 - nbuf) 0, nbuf)"
    using leb128_encode_eq [of cid "replicate 5 0"] small(4) by (simp add: nbuf_def)
  have dec: "leb128_decode (\<lambda>i. load_byte mem (kh + (24 + length ext) + i)) (nold + length key) = Inr (nold, old)"
    using layout_decode [OF lay] old by (simp add: nold_def add.assoc)
  obtain mem1 mem2 mem3 mem4 where st:
      "c_memcpy (store_at mem kd (replicate N (Some 0))) kd kh (24 + length ext) = Inr mem1"
      "put mem1 kd (bytes_of_hdr hdr') = Inr mem2" "put mem2 (kd + (24 + length ext)) (leb_bytes (unat cid)) = Inr mem3"
      "c_memcpy mem3 (kd + (24 + length ext) + nbuf) (kh + (24 + length ext) + nold) (length key) = Inr mem4"
      "holds mem4 kd (bytes_of_hdr hdr' @ ext @ leb_bytes (unat cid) @ key)"
      "\<forall>x. x < kd \<or> kd + N \<le> x \<longrightarrow> mem4 x = mem x"
    using rebuild_holds [OF cont _ kd(2), of "bytes_of_hdr hdr'" "leb_bytes (unat cid)"]
    by (auto simp: N nbuf_def nold_def)
  define rel where "rel = (if sp_offset (pk_kh_span packet) = NETBUF_INVALID_OFFSET
      then Inr (mgr, c_free mem4 kh (sp_size (pk_kh_span packet)))
      else res_bind (netbuf_mblock_release env mgr (pk_kh_span packet)) (\<lambda>mgr. Inr (mgr, mem4)))"
  have "kh + (24 + length ext + nold + length key) \<le> kd \<or> kd + N \<le> kh"
    using holds_apart [OF cont kd(2)] by (auto simp: N nold_def bytes_of_hdr_def)
  then have outcome: "(\<exists>mgr' mem'. rel = Inr (mgr', mem') \<and> holds mem' kd (bytes_of_hdr hdr' @ ext @ leb_bytes (unat cid) @ key) \<and>
        mgr' = mgr\<lparr>mgr_datapool := mgr_datapool mgr'\<rparr> \<and>
        (\<forall>x. x < kh \<or> kh + sp_size (pk_kh_span packet) \<le> x \<longrightarrow> mem' x = mem4 x)) \<or>
      sp_offset (pk_kh_span packet) \<noteq> NETBUF_INVALID_OFFSET \<and>
        (\<exists>op f. env_queue env (mgr_datapool mgr) (sp_parent (pk_kh_span packet)) op = Some f \<and> rel = Inl f)"
    by (intro release_kh [OF kind st(5) _ rel_def]) (auto simp: sz N nbuf_def)
  have nb: "nbuf mod 2 ^ 8 = nbuf" "take nbuf (leb_bytes (unat cid) @ replicate (5 - nbuf) 0) = leb_bytes (unat cid)"
    using small(4) by (simp_all add: nbuf_def)
  have off: "24 + unat (rq_extlen hdr) + ffext = 24 + length ext" using ext by (simp add: ffext_def)
  have hd: "hdr\<lparr>rq_bodylen := htonl (usub 32 (uadd 32 (htonl (rq_bodylen hdr)) nbuf) nold),
      rq_keylen := (if rq_magic hdr = PROTOCOL_BINARY_AREQ then ((nbuf + length key) * 256 + ffext) mod 2 ^ 16
                    else htons (nbuf + length key))\<rparr> = hdr'"
    by (simp add: hdr'_def cid_header_def)
  have run: "mcreq_set_cid env calloc mgr mem packet cid =
      res_bind rel (\<lambda>(mgr, mem). Inr (mgr, mem, packet\<lparr>pk_kh_span := CREATE_STANDALONE_SPAN kd N\<rparr>))"
    unfolding mcreq_set_cid_def buf res_bind_simps layout_header [OF lay] Let_def lens prod.case off
      dec enc nb ar hd c_calloc_def kd(1) option.case st rel_def [symmetric] ..
  have "packet_layout mem' kd hdr' ext cid key" if "holds mem' kd (bytes_of_hdr hdr' @ ext @ leb_bytes (unat cid) @ key)" for mem'
    using cid_header_ok [OF ok small(1) lens klen, of nbuf nold] that ext
    by (simp add: packet_layout_def hdr'_def nbuf_def ffext_def)
  then show ?thesis using outcome run st(6) unfolding hdr'_def [symmetric] ffext_def [symmetric] by fastforce
qed

text \<open>The two ways in which it ends before anything is built.\<close>

lemma mcreq_set_cid_ends:
  assumes buf: "SPAN_BUFFER (mgr_datapool mgr) (pk_kh_span packet) = Inr kh" and lay: "packet_layout mem kh hdr ext old key"
    and sz: "sp_size (pk_kh_span packet) = 24 + length ext + length (leb_bytes (unat old)) + length key"
  shows "2 ^ 31 \<le> unat old \<Longrightarrow> mcreq_set_cid env calloc mgr mem packet cid = Inl UndefinedShift"
    and "unat old < 2 ^ 31 \<Longrightarrow> calloc mem (24 + length ext + length (leb_bytes (unat cid)) + length key) = None \<Longrightarrow>
      mcreq_set_cid env calloc mgr mem packet cid = Inl NullPointer"
proof -
  let ?nold = "length (leb_bytes (unat old))" and ?nbuf = "length (leb_bytes (unat cid))"
  define ffext where "ffext = length ext - unat (rq_extlen hdr)"
  have ok: "hdr_ok hdr" and lens: "header_lens hdr = (ffext, ?nold + length key)" and ext: "unat (rq_extlen hdr) \<le> length ext"
    using lay by (simp_all add: packet_layout_def ffext_def)
  have off: "24 + unat (rq_extlen hdr) + ffext = 24 + length ext" using ext by (simp add: ffext_def)
  note step = mcreq_set_cid_def buf res_bind_simps layout_header [OF lay] Let_def lens prod.case off
  have dec: "leb128_decode (\<lambda>i. load_byte mem (kh + (24 + length ext) + i)) (?nold + length key) =
      (if unat old < 2 ^ 31 then Inr (?nold, old) else Inl UndefinedShift)"
    using layout_decode [OF lay] by (simp add: add.assoc)
  show "mcreq_set_cid env calloc mgr mem packet cid = Inl UndefinedShift" if "2 ^ 31 \<le> unat old"
    unfolding step dec using that by simp
  have small: "ffext < 256" "?nold + length key < 2 ^ 16" "?nold \<le> 5" "?nbuf \<le> 5"
    using header_lens_bound [OF ok lens] leb_bytes_small [of old] leb_bytes_small [of cid] by simp_all
  then have "length ext < 512" using ext unat_byte_less [of "rq_extlen hdr"] by (simp add: ffext_def)
  then have N: "usub 32 (uadd 32 (sp_size (pk_kh_span packet)) (?nbuf mod 2 ^ 8)) ?nold = 24 + length ext + ?nbuf + length key"
    using small by (simp add: sz usub_nowrap uadd_nowrap)
  have enc: "leb128_encode cid (replicate 5 0) = Inr (leb_bytes (unat cid) @ replicate (5 - ?nbuf) 0, ?nbuf)"
    using leb128_encode_eq [of cid "replicate 5 0"] small(4) by simp
  show "mcreq_set_cid env calloc mgr mem packet cid = Inl NullPointer"
    if "unat old < 2 ^ 31" "calloc mem (24 + length ext + ?nbuf + length key) = None"
    unfolding step dec if_P [OF that(1)] enc N c_calloc_def that(2) option.case ..
qed

section \<open>Building a packet\<close>

lemma reserve_span:
  assumes "mb_env_ok env" and "pool_inv (mgr_datapool mgr) live" and "0 < n" and "n \<le> 2 ^ 31"
    and "netbuf_mblock_reserve env mgr n = Inr (mgr', Some span)"
  shows "sp_size span = n" and "SPAN_BUFFER (mgr_datapool mgr') span = Inr (span_addr (mgr_datapool mgr') span)"
proof -
  obtain p' where r: "mblock_reserve_data env (mgr_datapool mgr) n = Inr (p', Some span)"
    and m: "mgr' = mgr\<lparr>mgr_datapool := p'\<rparr>"
    using assms(5) by (auto simp: netbuf_mblock_reserve_def elim!: res_bind_InrE)
  then have s: "sp_size span = n" "pool_inv p' (span # live)"
    using mblock_reserve_data_inv [OF assms(1,2,3,4)] by auto
  then have a: "sp_parent span \<in> set (mp_active p')" "0 < sp_size span"
    "sp_offset span + sp_size span \<le> mb_nalloc (block_at p' (sp_parent span))" 
    using pool_inv_span [OF s(2), of span] by simp_all
  then have "mp_blocks p' (sp_parent span) \<noteq> None" "mb_nalloc (block_at p' (sp_parent span)) < 2 ^ 32"
    using s(2) by (auto simp: pool_inv_def)
  then show "SPAN_BUFFER (mgr_datapool mgr') span = Inr (span_addr (mgr_datapool mgr') span)"
    using a(2,3) by (auto simp: m SPAN_BUFFER_def SPAN_MBUFFER_NC_def NETBUF_INVALID_OFFSET_def mb_deref_at span_addr_def)
  show "sp_size span = n" by (fact s(1))
qed

lemma mcreq_reserve_key_ok:
  fixes cid :: "32 word"
  defines "ncid \<equiv> length (leb_bytes (unat cid))"
  assumes "mb_env_ok env" and "pool_inv (mgr_datapool mgr) live" and h: "24 \<le> hdrsize" "hdrsize < 256"
    and "kb_type kb = LCB_KV_COPY" and kn: "cb_nbytes (kb_contig kb) = length key" "length key < 2 ^ 16"
    and src: "holds mem (cb_bytes (kb_contig kb)) key"
    and res: "netbuf_mblock_reserve env mgr (hdrsize + ncid + length key) = Inr (mgr', Some span)"
    and kh: "kh = span_addr (mgr_datapool mgr') span" "mapped mem [kh..<kh + (hdrsize + ncid + length key)]"
    and apart: "kh + (hdrsize + ncid + length key) \<le> cb_bytes (kb_contig kb) \<or>
      cb_bytes (kb_contig kb) + length key \<le> kh"
    and "pk_flags packet AND MCREQ_F_NOCID = 0"
  shows "\<exists>mem'. mcreq_reserve_key env True mgr mem packet hdrsize kb cid =
      Inr (mgr', mem', packet\<lparr>pk_extlen := hdrsize - 24, pk_kh_span := span\<rparr>, LCB_SUCCESS) \<and>
      holds mem' (kh + hdrsize) (leb_bytes (unat cid) @ key) \<and> mapped mem' [kh..<kh + (hdrsize + ncid + length key)]"
proof -
  have n: "0 < ncid" "ncid \<le> 5" using leb_bytes_small [of cid] by (simp_all add: ncid_def)
  have enc: "leb128_encode cid (replicate 5 0) = Inr (leb_bytes (unat cid) @ replicate (5 - ncid) 0, ncid)"
    using leb128_encode_eq [of cid "replicate 5 0"] n by (simp add: ncid_def)
  have size: "uadd 32 (length key) (hdrsize + ncid) = hdrsize + ncid + length key"
    using h kn n by (simp add: uadd_nowrap)
  have buf: "SPAN_BUFFER (mgr_datapool mgr') span = Inr kh"
    unfolding kh(1) using h kn n by (intro reserve_span(2) [OF assms(2,3) _ _ res]) simp_all
  define mem1 where "mem1 = store_at mem (kh + hdrsize) (map Some (leb_bytes (unat cid)))"
  define mem2 where "mem2 = store_at mem1 (kh + hdrsize + ncid) (map Some key)"
  have p1: "put mem (kh + hdrsize) (take ncid (leb_bytes (unat cid) @ replicate (5 - ncid) 0)) = Inr mem1"
    using put_holds [of mem "kh + hdrsize" "leb_bytes (unat cid)"] mapped_upt [OF kh(2), of "kh + hdrsize" "kh + hdrsize + ncid"]
    by (simp add: ncid_def mem1_def)
  have m1: "mapped mem1 [kh..<kh + (hdrsize + ncid + length key)]"
    unfolding mem1_def by (rule mapped_store_Some [OF kh(2)])
  have "holds mem1 (cb_bytes (kb_contig kb)) key"
    unfolding mem1_def using apart by (intro holds_store_apart src) (auto simp: ncid_def)
  then have p2: "c_memcpy mem1 (kh + hdrsize + ncid) (cb_bytes (kb_contig kb)) (length key) = Inr mem2"
    unfolding mem2_def by (intro memcpy_holds mapped_upt [OF m1]) simp_all
  have "holds mem1 (kh + hdrsize) (leb_bytes (unat cid))" unfolding mem1_def by (rule holds_store)
  then have "holds mem2 (kh + hdrsize) (leb_bytes (unat cid))"
    unfolding mem2_def by (rule holds_store_apart) (simp add: ncid_def)
  moreover have "holds mem2 (kh + hdrsize + ncid) key" unfolding mem2_def by (rule holds_store)
  ultimately have "holds mem2 (kh + hdrsize) (leb_bytes (unat cid) @ key)" by (simp add: holds_append ncid_def)
  moreover have "mapped mem2 [kh..<kh + (hdrsize + ncid + length key)]"
    unfolding mem2_def by (rule mapped_store_Some [OF m1])
  moreover have "mcreq_reserve_key env True mgr mem packet hdrsize kb cid =
      Inr (mgr', mem2, packet\<lparr>pk_extlen := hdrsize - 24, pk_kh_span := span\<rparr>, LCB_SUCCESS)"
    using h kn n enc size res buf p1 p2 assms(6,14)
    by (simp add: mcreq_reserve_key_def Let_def MCREQ_PKT_BASESIZE_def usub_nowrap)
  ultimately show ?thesis by blast
qed

lemma basic_header_ok:
  assumes "hdr_ok req" and "extlen < 256" and "ffextlen < 256"
    and "nkey < (if ffextlen \<noteq> 0 then 2 ^ 8 else 2 ^ 16)"
  shows "hdr_ok (basic_header req nkey extlen ffextlen vb)"
    and "header_lens (basic_header req nkey extlen ffextlen vb) = (ffextlen, nkey)"
    and "unat (rq_extlen (basic_header req nkey extlen ffextlen vb)) = extlen"
    and "htons (rq_vbucket (basic_header req nkey extlen ffextlen vb)) = nat (vb mod 2 ^ 16)"
proof -
  have vb: "nat (vb mod 2 ^ 16) < 2 ^ 16" by simp
  show "hdr_ok (basic_header req nkey extlen ffextlen vb)"
    using assms hton_bounds by (auto simp: hdr_ok_def basic_header_def)
  show "header_lens (basic_header req nkey extlen ffextlen vb) = (ffextlen, nkey)"
    using assms(3,4)
    by (auto simp: header_lens_def basic_header_def htons_htons PROTOCOL_BINARY_AREQ_def PROTOCOL_BINARY_REQ_def)
  show "unat (rq_extlen (basic_header req nkey extlen ffextlen vb)) = extlen"
    using assms(2) by (simp add: basic_header_def unat_word_of_nat_byte)
  show "htons (rq_vbucket (basic_header req nkey extlen ffextlen vb)) = nat (vb mod 2 ^ 16)"
    using htons_htons [OF vb] by (simp add: basic_header_def)
qed

text \<open>What is in memory between the header and the key is the extras, whatever their bytes are.\<close>

lemma write_hdr_layout:
  assumes "SPAN_BUFFER (mgr_datapool mgr) (pk_kh_span packet) = Inr kh"
    and "mapped mem [kh..<kh + (24 + n)]" and "holds mem (kh + (24 + n)) (leb_bytes (unat cid) @ key)"
    and "hdr_ok hdr" and "header_lens hdr = (n - unat (rq_extlen hdr), length (leb_bytes (unat cid)) + length key)"
    and "unat (rq_extlen hdr) \<le> n"
  shows "\<exists>mem' ext. mcreq_write_hdr mgr mem packet hdr = Inr mem' \<and> packet_layout mem' kh hdr ext cid key"
proof -
  define ext where "ext = map (the \<circ> mem) [kh + 24..<kh + 24 + n]"
  define mem' where "mem' = store_at mem kh (map Some (bytes_of_hdr hdr))"
  have len: "length ext = n" by (simp add: ext_def)
  have "mcreq_write_hdr mgr mem packet hdr = Inr mem'"
    using put_holds [of mem kh "bytes_of_hdr hdr"] mapped_upt [OF assms(2), of kh "kh + 24"] assms(1)
    by (simp add: mcreq_write_hdr_def mem'_def)
  moreover have "holds mem (kh + 24) ext"
    using mapped_upt [OF assms(2), of "kh + 24" "kh + 24 + n"]
    by (auto simp: holds_nth ext_def mapped_def list_all_iff)
  then have "holds mem' (kh + 24) ext" unfolding mem'_def by (rule holds_store_apart) simp
  moreover have "holds mem' (kh + (24 + n)) (leb_bytes (unat cid) @ key)"
    unfolding mem'_def using assms(3) by (rule holds_store_apart) simp
  moreover have "holds mem' kh (bytes_of_hdr hdr)" unfolding mem'_def by (rule holds_store)
  ultimately show ?thesis
    using assms(4-6) len by (auto simp: packet_layout_def holds_append add.assoc intro!: exI [of _ ext])
qed

text \<open>
  \<^bold>\<open>C38\<close>. A request built by \<open>mcreq_basic_packet\<close> and completed by \<open>mcreq_write_hdr\<close> is the request that was
  asked for. When the cluster map sends the key to a server that has a pipeline and both allocations
  succeed, the packet is on that pipeline, carries the next sequence number as its opaque value, and reading
  it back gives the collection identifier, the vBucket and the exact bytes of the key. The framing
  extras and the extras may have any length the one-byte header size can express, and the key any
  length the header can record. The identifier and the key are in place for every identifier; from
  \<open>2 ^ 31\<close> on, reading them back ends in the undefined shift of the decoder. The statement is for keys that are copied
  (\<open>LCB_KV_COPY\<close>) and an instance that uses collections.
\<close>

theorem mcreq_basic_packet_spec:
  fixes cid :: "32 word"
  assumes "mb_env_ok env" and "cq_config queue = Some config" and "lcbvb_map_key stack config key = Inr (vb, srvix)"
    and "0 \<le> srvix" and "srvix < int (cq_npipelines queue)" and "length (cq_pipelines queue) = cq_npipelines queue"
    and "pl = cq_pipelines queue ! nat srvix" and "pool_inv (mgr_datapool (pl_nbmgr pl)) live"
    and "hdr_ok req" and "24 + extlen + ffextlen < 2 ^ 8"
    and "kb_type kb = LCB_KV_COPY" and "cb_nbytes (kb_contig kb) = length key"
    and "holds mem (cb_bytes (kb_contig kb)) key"
    and "length (leb_bytes (unat cid)) + length key < (if ffextlen \<noteq> 0 then 2 ^ 8 else 2 ^ 16)"
    and "n = 24 + extlen + ffextlen + length (leb_bytes (unat cid)) + length key"
    and "netbuf_mblock_reserve env (pl_reqpool pl) sizeof_mc_PACKET = Inr (reqpool', Some pspan)"
    and "netbuf_mblock_reserve env (pl_nbmgr pl) n = Inr (nbmgr', Some span)"
    and "kh = span_addr (mgr_datapool nbmgr') span" and "mapped mem [kh..<kh + n]"
    and "kh + n \<le> cb_bytes (kb_contig kb) \<or> cb_bytes (kb_contig kb) + length key \<le> kh"
  shows "\<exists>queue' mem' packet hdr mem'' ext.
    mcreq_basic_packet env stack True junk queue mem (Some kb) cid req extlen ffextlen fallback_ok =
      Inr (queue', mem', Inr (Pipeline (nat srvix), packet, hdr)) \<and>
    pl_nbmgr (cq_pipelines queue' ! nat srvix) = nbmgr' \<and>
    pk_opaque packet = cq_seq queue \<and> cq_seq queue' = (cq_seq queue + 1) mod 2 ^ 32 \<and>
    mcreq_write_hdr nbmgr' mem' packet hdr = Inr mem'' \<and> packet_layout mem'' kh hdr ext cid key \<and>
    mcreq_get_vbucket nbmgr' mem'' packet = Inr (nat (vb mod 2 ^ 16)) \<and>
    (if unat cid < 2 ^ 31 then
       mcreq_get_cid True nbmgr' mem'' packet = Inr cid \<and>
       (\<exists>k. mcreq_get_key True nbmgr' mem'' packet = Inr (k, length key) \<and> holds mem'' k key)
     else mcreq_get_cid True nbmgr' mem'' packet = Inl UndefinedShift \<and>
       mcreq_get_key True nbmgr' mem'' packet = Inl UndefinedShift)"
proof -
  define h where "h = 24 + extlen + ffextlen"
  define l where "l = length (leb_bytes (unat cid))"
  define pkt0 where "pkt0 = junk\<lparr>pk_alloc_parent := sp_parent pspan, pk_flags := 0, pk_retries := 0,
    pk_opaque := cq_seq queue, pk_rdata := (pk_rdata junk)\<lparr>rd_span := None, rd_deadline := 0\<rparr>\<rparr>"
  define pkt where "pkt = pkt0\<lparr>pk_extlen := h - 24, pk_kh_span := span\<rparr>"
  define hdr where "hdr = basic_header req (l + length key) extlen ffextlen vb"
  have h: "24 \<le> h" "h < 256" and n: "n = h + l + length key" using assms(10,15) by (simp_all add: h_def l_def)
  have key: "length key < 2 ^ 16" "l + length key < 2 ^ 16" using assms(14) by (auto simp: l_def split: if_splits)
  obtain mem' where rk: "mcreq_reserve_key env True (pl_nbmgr pl) mem pkt0 h kb cid = Inr (nbmgr', mem', pkt, LCB_SUCCESS)"
    and cont: "holds mem' (kh + h) (leb_bytes (unat cid) @ key)" "mapped mem' [kh..<kh + n]"
    using mcreq_reserve_key_ok [OF assms(1,8) h assms(11,12) key(1) assms(13), of cid nbmgr' span kh pkt0]
      assms(17-20) by (auto simp: n l_def [symmetric] pkt_def pkt0_def)
  have sp: "sp_size span = n" "SPAN_BUFFER (mgr_datapool nbmgr') (pk_kh_span pkt) = Inr kh"
    using reserve_span [OF assms(1,8) _ _ assms(17)] h key n assms(18) by (simp_all add: pkt_def)
  have nkey: "usub 32 (sp_size (pk_kh_span pkt)) (MCREQ_PKT_BASESIZE + pk_extlen pkt) mod 2 ^ 16 = l + length key"
    using h key n by (simp add: pkt_def sp(1) MCREQ_PKT_BASESIZE_def usub_nowrap)
  have mk: "mcreq_map_key stack mem config kb h = Inr (vb, srvix)"
    using assms(3,11,12,13) by (simp add: mcreq_map_key_def load_holds)
  have ch: "choose_pipeline queue srvix fallback_ok = Inr (Some (Pipeline (nat srvix), pl))"
    using assms(4-7) by (simp add: choose_pipeline_def nat_less_iff)
  have al: "mcreq_allocate_packet env pl (cq_seq queue) junk =
      Inr (pl\<lparr>pl_reqpool := reqpool'\<rparr>, uadd 32 (cq_seq queue) 1, Some pkt0)"
    using assms(16) by (simp add: mcreq_allocate_packet_def pkt0_def Let_def)
  define queue' where "queue' = set_pipeline ((set_pipeline queue (Pipeline (nat srvix)) (pl\<lparr>pl_reqpool := reqpool'\<rparr>))
      \<lparr>cq_seq := uadd 32 (cq_seq queue) 1\<rparr>) (Pipeline (nat srvix)) (pl\<lparr>pl_reqpool := reqpool', pl_nbmgr := nbmgr'\<rparr>)"
  have "mcreq_basic_packet env stack True junk queue mem (Some kb) cid req extlen ffextlen fallback_ok =
      Inr (queue', mem', Inr (Pipeline (nat srvix), pkt, hdr))"
    using mk ch al rk nkey
    by (simp add: mcreq_basic_packet_def assms(2) MCREQ_PKT_BASESIZE_def h_def [symmetric] Let_def queue'_def hdr_def)
  moreover have "pl_nbmgr (cq_pipelines queue' ! nat srvix) = nbmgr'" "cq_seq queue' = (cq_seq queue + 1) mod 2 ^ 32"
    using assms(4-6) by (simp_all add: queue'_def uadd_def nat_less_iff)
  moreover have ok: "hdr_ok hdr" "header_lens hdr = (ffextlen, l + length key)" "unat (rq_extlen hdr) = extlen"
    "htons (rq_vbucket hdr) = nat (vb mod 2 ^ 16)"
    unfolding hdr_def using assms(9,10,14) by (intro basic_header_ok; simp add: l_def)+
  obtain mem'' ext where w: "mcreq_write_hdr nbmgr' mem' pkt hdr = Inr mem''" and lay: "packet_layout mem'' kh hdr ext cid key"
    using write_hdr_layout [OF sp(2), of mem' "extlen + ffextlen" cid key hdr] ok cont n
      mapped_upt [OF cont(2), of kh "kh + h"] by (auto simp: h_def l_def add.assoc)
  moreover have "mcreq_get_vbucket nbmgr' mem'' pkt = Inr (nat (vb mod 2 ^ 16))"
    using hdr_fields(1) [OF ok(1), of mem'' kh] lay sp(2) ok(1,4)
    by (simp add: mcreq_get_vbucket_def packet_layout_def holds_append le_val_le_bytes hdr_ok_def del: le_bytes.simps)
  moreover have "pk_opaque pkt = cq_seq queue" "pk_flags pkt AND MCREQ_F_NOCID = 0" by (simp_all add: pkt_def pkt0_def)
  moreover from this have "if unat cid < 2 ^ 31 then
       mcreq_get_cid True nbmgr' mem'' pkt = Inr cid \<and>
       (\<exists>k. mcreq_get_key True nbmgr' mem'' pkt = Inr (k, length key) \<and> holds mem'' k key)
     else mcreq_get_cid True nbmgr' mem'' pkt = Inl UndefinedShift \<and> mcreq_get_key True nbmgr' mem'' pkt = Inl UndefinedShift"
    using get_cid_layout [OF sp(2) lay] get_key_layout [OF sp(2) lay] by simp
  ultimately show ?thesis using lay by blast
qed

definition one_vbucket :: CONFIG where
  "one_vbucket = lcbvb_create\<lparr>nvb := 1, vbuckets := Some [[0]]\<rparr>"

definition packet_mgr :: nb_MGR where
  "packet_mgr = netbuf_init [] [] (Some (small_settings\<lparr>data_basealloc := 128\<rparr>))"

definition packet_mgr' :: "nat \<Rightarrow> nb_MGR" where
  "packet_mgr' n = packet_mgr\<lparr>mgr_datapool := (mb_store (fresh_pool 128 []) 0
     \<lparr>mb_start = 0, mb_wrap = n, mb_cursor = n, mb_nalloc = 128, mb_root = 4096, mb_deallocs = None, mb_parent = False\<rparr>)
     \<lparr>mp_active := [0]\<rparr>\<rparr>"

definition one_queue :: mc_CMDQUEUE where
  "one_queue = \<lparr>cq_pipelines = [\<lparr>pl_nbmgr = packet_mgr, pl_reqpool = packet_mgr\<rparr>], cq_npipelines = 1, cq_seq = 41,
     cq_config = Some one_vbucket, cq_fallback = None\<rparr>"

definition get_request :: protocol_binary_request_header where
  "get_request = \<lparr>rq_magic = 0, rq_opcode = 0, rq_keylen = 0, rq_extlen = 0, rq_datatype = 0, rq_vbucket = 0,
     rq_bodylen = 0, rq_opaque = 0, rq_cas = 0\<rparr>"

definition zero_packet :: mc_PACKET where
  "zero_packet = \<lparr>pk_kh_span = CREATE_STANDALONE_SPAN 0 0, pk_extlen = 0, pk_retries = 0, pk_flags = 0, pk_opaque = 0,
     pk_rdata = \<lparr>rd_cookie = 0, rd_start = 0, rd_deadline = 0, rd_dispatch = 0, rd_span = None, rd_nsubreq = 0\<rparr>,
     pk_value = Value_single (CREATE_STANDALONE_SPAN 0 0), pk_alloc_parent = 0\<rparr>"

definition key_memory :: c_mem where
  "key_memory a = (if a = 100 then Some 97 else if a = 101 then Some 98 else if 4096 \<le> a \<and> a < 4224 then Some 0 else None)"

definition get_key_ab :: lcb_KEYBUF where
  "get_key_ab = \<lparr>kb_type = LCB_KV_COPY, kb_contig = \<lparr>cb_bytes = 100, cb_nbytes = 2\<rparr>, kb_vbid = 0\<rparr>"

lemma packet_mgr_inv: "pool_inv (mgr_datapool packet_mgr) []"
  using fresh_pool_inv [of 128 "[]"]
  by (simp add: packet_mgr_def netbuf_init_def small_settings_def Let_def empty_pool_def fresh_pool_def)

lemma packet_mgr_reserve:
  assumes "0 < n" and "n \<le> 128"
  shows "netbuf_mblock_reserve one_block_env packet_mgr n =
    Inr (packet_mgr' n, Some \<lparr>sp_parent = 0, sp_offset = 0, sp_size = n\<rparr>)"
proof -
  have g: "mb_grow 128 n = Some 128" using assms by (subst mb_grow.simps) simp
  show ?thesis
    using assms by (simp add: netbuf_mblock_reserve_def packet_mgr_def packet_mgr'_def netbuf_init_def small_settings_def
        mblock_reserve_data_def mblock_init_def empty_pool_def fresh_pool_def Let_def reserve_empty_block_def find_free_block_def
        alloc_new_block_def free_cacheblock_def one_block_env_def g mb_deref_def mb_store_def mblock_zero_def)
qed

lemma leb_bytes_8: "leb_bytes 8 = [8]"
  by (simp add: leb_bytes.simps)

theorem mcreq_basic_packet_spec_witness:
  "\<exists>queue' mem' packet hdr mem'' ext.
    mcreq_basic_packet one_block_env [] True zero_packet one_queue key_memory (Some get_key_ab) 8 get_request 4 0 False =
      Inr (queue', mem', Inr (Pipeline 0, packet, hdr)) \<and>
    pl_nbmgr (cq_pipelines queue' ! 0) = packet_mgr' 31 \<and>
    pk_opaque packet = 41 \<and> cq_seq queue' = 42 \<and>
    mcreq_write_hdr (packet_mgr' 31) mem' packet hdr = Inr mem'' \<and> packet_layout mem'' 4096 hdr ext 8 [97, 98] \<and>
    mcreq_get_vbucket (packet_mgr' 31) mem'' packet = Inr 0 \<and>
    mcreq_get_cid True (packet_mgr' 31) mem'' packet = Inr 8 \<and>
    (\<exists>k. mcreq_get_key True (packet_mgr' 31) mem'' packet = Inr (k, 2) \<and> holds mem'' k [97, 98])"
proof -
  have key: "lcbvb_map_key [] one_vbucket [97, 98] = Inr (0, 0)"
    by (simp add: lcbvb_map_key_def one_vbucket_def lcbvb_create_def lcbvb_k2vb_def lcbvb_vbmaster_def vb_slot_def
        arr_get_Some mem_get_def)
  have addr: "4096 = span_addr (mgr_datapool (packet_mgr' 31)) \<lparr>sp_parent = 0, sp_offset = 0, sp_size = 31\<rparr>"
    by (simp add: span_addr_def packet_mgr'_def block_at_def mb_store_def)
  have src: "holds key_memory (cb_bytes (kb_contig get_key_ab)) [97, 98]"
    by (simp add: holds_def key_memory_def get_key_ab_def upt_rec)
  have dst: "mapped key_memory [4096..<4096 + 31]" unfolding mapped_def list_all_iff set_upt by (simp add: key_memory_def)
  have pl: "\<lparr>pl_nbmgr = packet_mgr, pl_reqpool = packet_mgr\<rparr> = cq_pipelines one_queue ! nat 0" by (simp add: one_queue_def)
  have req: "hdr_ok get_request" by (simp add: hdr_ok_def get_request_def)
  have r: "netbuf_mblock_reserve one_block_env packet_mgr sizeof_mc_PACKET =
      Inr (packet_mgr' 112, Some \<lparr>sp_parent = 0, sp_offset = 0, sp_size = 112\<rparr>)"
    "netbuf_mblock_reserve one_block_env packet_mgr 31 = Inr (packet_mgr' 31, Some \<lparr>sp_parent = 0, sp_offset = 0, sp_size = 31\<rparr>)"
    using packet_mgr_reserve [of 112] packet_mgr_reserve [of 31] by (simp_all add: sizeof_mc_PACKET_def)
  have q: "cq_config one_queue = Some one_vbucket" "0 < int (cq_npipelines one_queue)"
    "length (cq_pipelines one_queue) = cq_npipelines one_queue" "kb_type get_key_ab = LCB_KV_COPY"
    "cb_nbytes (kb_contig get_key_ab) = length [97, 98 :: byte]" "cq_seq one_queue = 41" "cb_bytes (kb_contig get_key_ab) = 100"
    by (simp_all add: one_queue_def get_key_ab_def)
  have len: "24 + 4 + 0 < (2 :: nat) ^ 8" "length (leb_bytes (unat (8 :: 32 word))) + length [97, 98 :: byte] <
      (if (0 :: nat) \<noteq> 0 then 2 ^ 8 else 2 ^ 16)" "31 = 24 + 4 + 0 + length (leb_bytes (unat (8 :: 32 word))) + length [97, 98 :: byte]"
    by (simp_all add: leb_bytes_8)
  have apart: "4096 + 31 \<le> cb_bytes (kb_contig get_key_ab) \<or> cb_bytes (kb_contig get_key_ab) + length [97, 98 :: byte] \<le> 4096"
    by (simp add: q)
  have num: "nat 0 = 0" "nat (0 mod 2 ^ 16) = 0" "(41 + 1) mod 2 ^ 32 = (42 :: nat)" "length [97, 98 :: byte] = 2"
    "unat (8 :: 32 word) < 2 ^ 31" by simp_all
  show ?thesis
    using mcreq_basic_packet_spec [OF one_block_env_ok q(1) key order_refl q(2,3) pl, where live = "[]" and req = get_request
        and extlen = 4 and ffextlen = 0 and kb = get_key_ab and mem = key_memory and cid = 8 and n = 31
        and junk = zero_packet and fallback_ok = False, unfolded mc_PIPELINE.simps,
        OF packet_mgr_inv req len(1) q(4,5) src len(2,3) r addr dst apart]
    unfolding num(1-4) if_P [OF num(5)] q(6) .
qed

text \<open>
  \<^bold>\<open>C39\<close>. Replacing the collection identifier of a packet changes that identifier and nothing else. The packet
  gets a block of its own that holds the old header, the extras, the new identifier and the key: in the header
  only the key length and the body length differ, each by the difference of the two encodings, in the packet
  only the span, in the manager only the pool the old span goes back to, and no byte outside the new block and
  the old one. The identifier, the key, the vBucket and the body length read back accordingly. It holds for
  both header formats, as long as the new key length fits the field of that format. When \<open>calloc\<close> fails, the
  unchecked result is written through. When the old span goes back to its pool, that release can fail as a
  call into the pool of its dealloc queue does. An identifier from \<open>2 ^ 31\<close> on is not decoded, because of the
  undefined shift of the decoder: not the old one, and not the new one when it is read back.
\<close>

theorem mcreq_set_cid_spec:
  fixes old cid :: "32 word"
  assumes "SPAN_BUFFER (mgr_datapool mgr) (pk_kh_span packet) = Inr kh"
    and "packet_layout mem kh hdr ext old key" and "pk_flags packet AND MCREQ_F_NOCID = 0"
    and "sp_size (pk_kh_span packet) = 24 + length ext + length (leb_bytes (unat old)) + length key"
    and "sp_offset (pk_kh_span packet) = NETBUF_INVALID_OFFSET \<or>
      (\<exists>l1 l2. pool_inv (mgr_datapool mgr) (l1 @ pk_kh_span packet # l2))"
    and "calloc_fresh calloc mem"
    and "length (leb_bytes (unat cid)) + length key < (if rq_magic hdr = PROTOCOL_BINARY_AREQ then 2 ^ 8 else 2 ^ 16)"
    and "mcreq_get_bodysize mgr mem packet = Inr body"
    and "length (leb_bytes (unat old)) \<le> body" and "body + 5 < 2 ^ 32"
    and "new_size = 24 + length ext + length (leb_bytes (unat cid)) + length key"
    and "result = mcreq_set_cid env calloc mgr mem packet cid"
  shows "if 2 ^ 31 \<le> unat old then result = Inl UndefinedShift
    else if calloc mem new_size = None then result = Inl NullPointer
    else (\<exists>mgr' mem' packet' hdr' kh'. result = Inr (mgr', mem', packet') \<and>
        packet' = packet\<lparr>pk_kh_span := CREATE_STANDALONE_SPAN kh' new_size\<rparr> \<and> mgr' = mgr\<lparr>mgr_datapool := mgr_datapool mgr'\<rparr> \<and>
        packet_layout mem' kh' hdr' ext cid key \<and>
        hdr' = hdr\<lparr>rq_keylen := rq_keylen hdr',
          rq_bodylen := htonl (body + length (leb_bytes (unat cid)) - length (leb_bytes (unat old)))\<rparr> \<and>
        (\<forall>x. (x < kh' \<or> kh' + new_size \<le> x) \<and> (x < kh \<or> kh + sp_size (pk_kh_span packet) \<le> x) \<longrightarrow> mem' x = mem x) \<and>
        mcreq_get_vbucket mgr' mem' packet' = mcreq_get_vbucket mgr mem packet \<and>
        mcreq_get_bodysize mgr' mem' packet' =
          Inr (body + length (leb_bytes (unat cid)) - length (leb_bytes (unat old))) \<and>
        (unat cid < 2 ^ 31 \<longrightarrow> mcreq_get_cid True mgr' mem' packet' = Inr cid \<and>
          (\<exists>k. mcreq_get_key True mgr' mem' packet' = Inr (k, length key) \<and> holds mem' k key))) \<or>
      sp_offset (pk_kh_span packet) \<noteq> NETBUF_INVALID_OFFSET \<and>
        (\<exists>op f. env_queue env (mgr_datapool mgr) (sp_parent (pk_kh_span packet)) op = Some f \<and> result = Inl f)"
proof (cases "2 ^ 31 \<le> unat old \<or> calloc mem new_size = None")
  case True
  then show ?thesis using mcreq_set_cid_ends [OF assms(1,2,4)] assms(11,12) by auto
next
  case False
  then obtain kd where kd: "calloc mem new_size = Some kd" "\<forall>x. kd \<le> x \<and> x < kd + new_size \<longrightarrow> mem x = None"
    and old: "unat old < 2 ^ 31" using assms(6) by (auto simp: calloc_fresh_def)
  define nold where "nold = length (leb_bytes (unat old))"
  define nbuf where "nbuf = length (leb_bytes (unat cid))"
  define ffext where "ffext = length ext - unat (rq_extlen hdr)"
  define hdr' where "hdr' = cid_header hdr ffext (nbuf + length key) nbuf nold"
  define pkt where "pkt = packet\<lparr>pk_kh_span := CREATE_STANDALONE_SPAN kd new_size\<rparr>"
  have ok: "hdr_ok hdr" and lens: "header_lens hdr = (ffext, nold + length key)" and small: "nbuf \<le> 5"
    and h: "holds mem kh (bytes_of_hdr hdr)" and flags: "pk_flags pkt AND MCREQ_F_NOCID = 0"
    using assms(2,3) leb_bytes_small [of cid] by (simp_all add: packet_layout_def holds_append nold_def nbuf_def ffext_def pkt_def)
  have body: "htonl (rq_bodylen hdr) = body"
    using assms(1,8) hdr_fields(2) [OF ok h] ok
    by (simp add: mcreq_get_bodysize_def le_val_le_bytes hdr_ok_def del: le_bytes.simps)
  have body': "usub 32 (uadd 32 body nbuf) nold = body + nbuf - nold"
    using assms(9,10) small by (simp add: uadd_nowrap usub_nowrap nold_def)
  then have hdr': "hdr' = hdr\<lparr>rq_keylen := rq_keylen hdr', rq_bodylen := htonl (body + nbuf - nold)\<rparr>"
    by (simp add: hdr'_def cid_header_def body)
  have facts: "SPAN_BUFFER (mgr_datapool mgr') (pk_kh_span pkt) = Inr kd \<and>
      mcreq_get_vbucket mgr' mem' pkt = mcreq_get_vbucket mgr mem packet \<and>
      mcreq_get_bodysize mgr' mem' pkt = Inr (body + nbuf - nold) \<and>
      (unat cid < 2 ^ 31 \<longrightarrow> mcreq_get_cid True mgr' mem' pkt = Inr cid \<and>
        (\<exists>k. mcreq_get_key True mgr' mem' pkt = Inr (k, length key) \<and> holds mem' k key))"
    if lay: "packet_layout mem' kd hdr' ext cid key" for mgr' mem'
  proof -
    have buf: "SPAN_BUFFER (mgr_datapool mgr') (pk_kh_span pkt) = Inr kd"
      by (simp add: pkt_def CREATE_STANDALONE_SPAN_def SPAN_BUFFER_def)
    have ok': "hdr_ok hdr'" "holds mem' kd (bytes_of_hdr hdr')" using lay by (simp_all add: packet_layout_def holds_append)
    have "htonl (rq_bodylen hdr') = body + nbuf - nold"
      using assms(10) small by (subst hdr') (simp add: htonl_htonl)
    then have "mcreq_get_bodysize mgr' mem' pkt = Inr (body + nbuf - nold)"
      using hdr_fields(2) [OF ok'] ok'(1) buf
      by (simp add: mcreq_get_bodysize_def le_val_le_bytes hdr_ok_def del: le_bytes.simps)
    moreover have "rq_vbucket hdr' = rq_vbucket hdr" by (simp add: hdr'_def cid_header_def)
    then have "mcreq_get_vbucket mgr' mem' pkt = mcreq_get_vbucket mgr mem packet"
      using hdr_fields(1) [OF ok'] hdr_fields(1) [OF ok h] buf assms(1) by (simp add: mcreq_get_vbucket_def)
    ultimately show ?thesis using buf get_cid_layout [OF buf lay flags] get_key_layout [OF buf lay flags] by simp
  qed
  have "(\<exists>mgr' mem'. result = Inr (mgr', mem', pkt) \<and> mgr' = mgr\<lparr>mgr_datapool := mgr_datapool mgr'\<rparr> \<and>
      packet_layout mem' kd hdr' ext cid key \<and>
      (\<forall>x. (x < kd \<or> kd + new_size \<le> x) \<and> (x < kh \<or> kh + sp_size (pk_kh_span packet) \<le> x) \<longrightarrow> mem' x = mem x)) \<or>
    sp_offset (pk_kh_span packet) \<noteq> NETBUF_INVALID_OFFSET \<and>
      (\<exists>op f. env_queue env (mgr_datapool mgr) (sp_parent (pk_kh_span packet)) op = Some f \<and> result = Inl f)"
    using mcreq_set_cid_runs [where calloc = calloc and env = env, OF assms(1,2) old assms(4,5) kd assms(11,7)]
    unfolding assms(12) pkt_def hdr'_def nbuf_def nold_def ffext_def .
  then show ?thesis
  proof (elim disjE exE conjE)
    fix mgr' mem' assume r: "result = Inr (mgr', mem', pkt)" "mgr' = mgr\<lparr>mgr_datapool := mgr_datapool mgr'\<rparr>"
      "packet_layout mem' kd hdr' ext cid key"
      "\<forall>x. (x < kd \<or> kd + new_size \<le> x) \<and> (x < kh \<or> kh + sp_size (pk_kh_span packet) \<le> x) \<longrightarrow> mem' x = mem x"
    show ?thesis
      using False r facts [OF r(3), of mgr'] hdr' pkt_def unfolding nbuf_def nold_def by auto
  qed (use False in auto)
qed

definition old_header :: protocol_binary_request_header where
  "old_header = get_request\<lparr>rq_magic := PROTOCOL_BINARY_AREQ, rq_keylen := 3 * 256 + 1, rq_extlen := 0, rq_bodylen := htonl 4\<rparr>"

definition old_memory :: c_mem where
  "old_memory = store_at (\<lambda>_. None) 200 (map Some (bytes_of_hdr old_header @ [7] @ leb_bytes (unat (8 :: 32 word)) @ [97, 98]))"

definition old_packet :: mc_PACKET where
  "old_packet = zero_packet\<lparr>pk_kh_span := CREATE_STANDALONE_SPAN 200 28\<rparr>"

theorem mcreq_set_cid_spec_witness:
  "(\<exists>mgr' mem' packet' hdr' kh'. mcreq_set_cid one_block_env (\<lambda>_ _. Some 300) packet_mgr old_memory old_packet 300 = Inr (mgr', mem', packet') \<and>
    packet_layout mem' kh' hdr' [7] 300 [97, 98] \<and> mcreq_get_cid True mgr' mem' packet' = Inr 300 \<and>
    rq_opaque hdr' = rq_opaque old_header \<and> rq_cas hdr' = rq_cas old_header \<and>
    mcreq_get_vbucket mgr' mem' packet' = mcreq_get_vbucket packet_mgr old_memory old_packet) \<and>
   mcreq_set_cid one_block_env (\<lambda>_ _. None) packet_mgr old_memory old_packet 300 = Inl NullPointer"
proof -
  have ok: "hdr_ok old_header"
    using hton_bounds(2) [of 4] by (simp add: hdr_ok_def old_header_def get_request_def)
  have cont: "holds old_memory 200 (bytes_of_hdr old_header @ [7] @ leb_bytes (unat (8 :: 32 word)) @ [97, 98])"
    unfolding old_memory_def by (rule holds_store)
  have buf: "SPAN_BUFFER (mgr_datapool packet_mgr) (pk_kh_span old_packet) = Inr 200"
    by (simp add: old_packet_def CREATE_STANDALONE_SPAN_def SPAN_BUFFER_def)
  have lay: "packet_layout old_memory 200 old_header [7] 8 [97, 98]"
    using ok cont by (simp add: packet_layout_def header_lens_def old_header_def leb_bytes_8)
  have body: "mcreq_get_bodysize packet_mgr old_memory old_packet = Inr 4"
    using hdr_fields(2) [OF ok, of old_memory 200] cont buf ok htonl_htonl [of 4]
    by (simp add: mcreq_get_bodysize_def holds_append le_val_le_bytes hdr_ok_def old_header_def del: le_bytes.simps)
  have fresh: "calloc_fresh (\<lambda>_ _. Some 300) old_memory" "calloc_fresh (\<lambda>_ _. None) old_memory"
    by (simp_all add: calloc_fresh_def old_memory_def store_at_def leb_bytes_8)
  have len: "length (leb_bytes (unat (300 :: 32 word))) + length [97, 98 :: byte] <
      (if rq_magic old_header = PROTOCOL_BINARY_AREQ then 2 ^ 8 else 2 ^ 16)"
    using leb_bytes_small [of 300] by simp
  have pk: "pk_flags old_packet AND MCREQ_F_NOCID = 0"
    "sp_size (pk_kh_span old_packet) = 24 + length [7 :: byte] + length (leb_bytes (unat (8 :: 32 word))) + length [97, 98 :: byte]"
    "sp_offset (pk_kh_span old_packet) = NETBUF_INVALID_OFFSET" "length (leb_bytes (unat (8 :: 32 word))) \<le> 4" "(4 :: nat) + 5 < 2 ^ 32"
    by (simp_all add: old_packet_def CREATE_STANDALONE_SPAN_def leb_bytes_8 zero_packet_def)
  note spec = mcreq_set_cid_spec [OF buf lay pk(1,2) disjI1 [OF pk(3)] _ len body pk(4,5) refl refl, of _ one_block_env]
  obtain mgr' mem' packet' hdr' kh' where r: "mcreq_set_cid one_block_env (\<lambda>_ _. Some 300) packet_mgr old_memory old_packet 300 = Inr (mgr', mem', packet')"
    "packet_layout mem' kh' hdr' [7] 300 [97, 98]" "mcreq_get_cid True mgr' mem' packet' = Inr 300"
    "mcreq_get_vbucket mgr' mem' packet' = mcreq_get_vbucket packet_mgr old_memory old_packet"
    "hdr' = old_header\<lparr>rq_keylen := rq_keylen hdr', rq_bodylen := htonl (4 + length (leb_bytes (unat (300 :: 32 word))) - length (leb_bytes (unat (8 :: 32 word))))\<rparr>"
    using spec [OF fresh(1)] pk(3) by auto
  have "rq_opaque hdr' = rq_opaque old_header" "rq_cas hdr' = rq_cas old_header" by (subst r(5), simp)+
  then show ?thesis using r(1-4) spec [OF fresh(2)] by auto
qed

end
