(* ===== verification/Hostlist.thy ===== *)
theory Hostlist
  imports C_String
begin

text \<open>
  Host names and lists of hosts, \<open>src/hostlist.cc\<close> and \<open>src/hostlist.h\<close>: the parser of \<open>host:port\<close>
  specifications, the list of distinct hosts with its iteration index, and the strings handed to the
  application. A character array that receives a C string is the string; the parser checks that it fits.
  An argument \<open>const char *\<close> is the characters from the pointer to the end of the object, so a missing
  terminator is a fault. The shuffle of \<open>randomize\<close> is an argument.
\<close>

section \<open>Parsing one host\<close>

definition NI_MAXHOST :: nat where
  "NI_MAXHOST = 1025"

definition NI_MAXSERV :: nat where
  "NI_MAXSERV = 32"

record lcb_host_t =
  hs_host :: string
  hs_port :: string
  hs_ipv6 :: bool

definition c_nul :: char where
  "c_nul = CHR 0x00"

text \<open>
  The argument of \<open>isalnum\<close> is a plain \<open>char\<close>: one with the top bit set is a negative number, for which the
  function is not defined. It is modelled as a lookup outside the table of character classes.
\<close>

definition c_isalnum :: "char \<Rightarrow> bool res" where
  "c_isalnum c =
     (let n = of_char c :: nat
      in if 128 \<le> n then Inl OutOfBounds
         else Inr (48 \<le> n \<and> n \<le> 57 \<or> 65 \<le> n \<and> n \<le> 90 \<or> 97 \<le> n \<and> n \<le> 122))"

definition LONG_MAX :: int where
  "LONG_MAX = 2 ^ 63 - 1"

definition LONG_MIN :: int where
  "LONG_MIN = - (2 ^ 63)"

text \<open>\<open>strtol(s, &endp, 10)\<close>: the value, clamped to the range of \<open>long\<close>, and the text at \<open>endp\<close>.\<close>

definition c_strtol :: "string \<Rightarrow> int \<times> string" where
  "c_strtol s =
     (let t = dropWhile is_blank s;
          neg = (t \<noteq> [] \<and> hd t = CHR ''-'');
          u = (if t \<noteq> [] \<and> (hd t = CHR ''-'' \<or> hd t = CHR ''+'') then tl t else t);
          ds = takeWhile is_dec u;
          v = (if neg then - int (dec_value ds) else int (dec_value ds))
      in if ds = [] then (0, s) else (max LONG_MIN (min LONG_MAX v), dropWhile is_dec u))"

definition port_ok :: "string \<Rightarrow> bool" where
  "port_ok port_s \<longleftrightarrow> port_s \<noteq> [] \<and>
     (case c_strtol port_s of (ll, endp) \<Rightarrow> ll \<noteq> LONG_MIN \<and> ll \<noteq> LONG_MAX \<and> endp = [])"

definition host_char :: "bool \<Rightarrow> char \<Rightarrow> bool" where
  "host_char ipv6 c \<longleftrightarrow> c_isalnum c = Inr True \<or> c = CHR ''.'' \<or> c = CHR ''-'' \<or> c = CHR ''_'' \<or>
     (c = CHR '':'' \<or> c = CHR ''['' \<or> c = CHR '']'') \<and> ipv6"

fun host_chars :: "bool \<Rightarrow> string \<Rightarrow> bool res" where
  "host_chars ipv6 [] = Inr True"
| "host_chars ipv6 (c # cs) =
     res_bind (c_isalnum c) (\<lambda>_. if host_char ipv6 c then host_chars ipv6 cs else Inr False)"

text \<open>From line 91 on: the checks on the two parts and the stores. \<open>None\<close> is \<open>LCB_ERR_INVALID_HOST_FORMAT\<close>.\<close>

definition host_finish :: "int \<Rightarrow> string \<Rightarrow> string option \<Rightarrow> bool \<Rightarrow> lcb_host_t option res" where
  "host_finish deflport host_s port ipv6 =
     (if (case port of Some p \<Rightarrow> \<not> port_ok p | None \<Rightarrow> False) then Inr None else
      let port_s = (case port of Some p \<Rightarrow> p | None \<Rightarrow> [])
      in if NI_MAXHOST < length host_s \<or> NI_MAXSERV < length port_s \<or> host_s = [] then Inr None
         else res_bind (host_chars ipv6 host_s) (\<lambda>ok.
           Inr (if \<not> ok then None
             else Some \<lparr>hs_host = host_s, hs_port = (if port_s \<noteq> [] then port_s else dec_digits (nat deflport)),
                    hs_ipv6 = ipv6\<rparr>)))"

definition host_split :: "int \<Rightarrow> string \<Rightarrow> lcb_host_t option res" where
  "host_split deflport zspec =
     (let host_s = (case c_strstr zspec ''://'' of Some (_, delim) \<Rightarrow> drop 3 delim | None \<Rightarrow> zspec);
          host_s = (case c_strstr host_s ''/'' of Some (before, _) \<Rightarrow> before | None \<Rightarrow> host_s)
      in case c_strstr host_s '':'' of
           None \<Rightarrow> host_finish deflport host_s None False
         | Some (before, port_s) \<Rightarrow>
             if c_strstr (tl port_s) '':'' \<noteq> None then
               (if host_s \<noteq> [] \<and> hd host_s = CHR ''['' then
                  (case c_strstr (tl host_s) '']'' of
                     None \<Rightarrow> Inr None
                   | Some (host, hostend) \<Rightarrow>
                       let port_s = tl hostend
                       in if port_s = [] \<or> hd port_s \<noteq> CHR '':'' \<or> length (tl host_s) \<le> length host + 1
                          then host_finish deflport host None True
                          else host_finish deflport host (Some (tl port_s)) True)
                else host_finish deflport host_s None True)
             else host_finish deflport before (Some (tl port_s)) False)"

definition lcb_host_parse :: "string \<Rightarrow> int \<Rightarrow> int \<Rightarrow> lcb_host_t option res" where
  "lcb_host_parse spec speclen deflport =
     (if speclen < 0 \<and> c_nul \<notin> set spec then Inl OutOfBounds
      else if speclen = 0 \<or> deflport < 1 then Inr None
      else if speclen < 0 then host_split deflport (takeWhile (\<lambda>c. c \<noteq> c_nul) spec)
      else if nat speclen \<le> length spec
        then host_split deflport (takeWhile (\<lambda>c. c \<noteq> c_nul) (take (nat speclen) spec))
      else Inl OutOfBounds)"

definition lcb_host_equals :: "lcb_host_t \<Rightarrow> lcb_host_t \<Rightarrow> bool" where
  "lcb_host_equals a b \<longleftrightarrow> hs_host a = hs_host b \<and> hs_port a = hs_port b"

section \<open>The list of hosts\<close>

text \<open>\<open>hoststrs\<close> ends with a null pointer once it is built.\<close>

record Hostlist =
  hl_ix :: nat
  hl_hosts :: "lcb_host_t list"
  hl_hoststrs :: "string option list"

definition Hostlist_create :: Hostlist where
  "Hostlist_create = \<lparr>hl_ix = 0, hl_hosts = [], hl_hoststrs = []\<rparr>"

definition reset_strlist :: "Hostlist \<Rightarrow> Hostlist" where
  "reset_strlist hl = hl\<lparr>hl_hoststrs := []\<rparr>"

definition Hostlist_clear :: "Hostlist \<Rightarrow> Hostlist" where
  "Hostlist_clear hl = (reset_strlist (hl\<lparr>hl_hosts := []\<rparr>))\<lparr>hl_ix := 0\<rparr>"

definition Hostlist_exists :: "Hostlist \<Rightarrow> lcb_host_t \<Rightarrow> bool" where
  "Hostlist_exists hl host \<longleftrightarrow> list_ex (lcb_host_equals host) (hl_hosts hl)"

definition Hostlist_exists_str :: "Hostlist \<Rightarrow> string \<Rightarrow> bool res" where
  "Hostlist_exists_str hl s =
     res_bind (lcb_host_parse s (- 1) 1) (\<lambda>r. Inr (case r of None \<Rightarrow> False | Some tmp \<Rightarrow> Hostlist_exists hl tmp))"

definition Hostlist_add :: "Hostlist \<Rightarrow> lcb_host_t \<Rightarrow> Hostlist" where
  "Hostlist_add hl host =
     (if Hostlist_exists hl host then hl else reset_strlist (hl\<lparr>hl_hosts := hl_hosts hl @ [host]\<rparr>))"

lemma c_strstr_char:
  "c_strstr s [c] = Some (b, m) \<Longrightarrow> s = b @ m \<and> m \<noteq> [] \<and> hd m = c \<and> c \<notin> set b"
  by (induction s arbitrary: b) (auto split: if_splits)

text \<open>
  The loop of \<open>Hostlist::add\<close>. The flag is whether the status is \<open>LCB_SUCCESS\<close>. A piece is parsed with its
  length, which is how the parser knows its end; the length, a \<open>size_t\<close>, becomes the \<open>int\<close> the parser takes.
\<close>

function add_loop :: "Hostlist \<Rightarrow> int \<Rightarrow> string \<Rightarrow> (Hostlist \<times> bool) res" where
  "add_loop hl deflport curstart =
     (case c_strstr curstart '';'' of
        None \<Rightarrow> Inr (hl, True)
      | Some (piece, delim) \<Rightarrow>
          if piece = [] then add_loop hl deflport (tl curstart)
          else res_bind (lcb_host_parse curstart (to_int (length piece)) deflport) (\<lambda>r.
            case r of None \<Rightarrow> Inr (hl, False)
            | Some curhost \<Rightarrow> add_loop (Hostlist_add hl curhost) deflport (tl delim)))"
  by auto

termination
  by (relation "measure (\<lambda>(_, _, s). length s)") (auto dest!: c_strstr_char simp flip: length_greater_0_conv)

declare add_loop.simps [simp del]

definition Hostlist_add_str :: "Hostlist \<Rightarrow> string \<Rightarrow> int \<Rightarrow> int \<Rightarrow> (Hostlist \<times> bool) res" where
  "Hostlist_add_str hl hostport len deflport =
     res_bind (if len < 0 then (if c_nul \<in> set hostport then Inr (takeWhile (\<lambda>c. c \<noteq> c_nul) hostport) else Inl OutOfBounds)
               else if nat len \<le> length hostport then Inr (take (nat len) hostport) else Inl OutOfBounds) (\<lambda>ss.
     if ss = [] then Inr (hl, True)
     else let ss = (if last ss \<noteq> CHR '';'' then ss @ '';'' else ss)
          in add_loop hl deflport (takeWhile (\<lambda>c. c \<noteq> c_nul) ss))"

definition Hostlist_next :: "Hostlist \<Rightarrow> bool \<Rightarrow> (Hostlist \<times> lcb_host_t option) res" where
  "Hostlist_next hl wrap =
     (if hl_hosts hl = [] then Inr (hl, None)
      else if hl_ix hl = length (hl_hosts hl) \<and> \<not> wrap then Inr (hl, None)
      else let ix = (if hl_ix hl = length (hl_hosts hl) then 0 else hl_ix hl)
           in if ix < length (hl_hosts hl) then Inr (hl\<lparr>hl_ix := uadd 32 ix 1\<rparr>, Some (hl_hosts hl ! ix))
              else Inl OutOfBounds)"

definition Hostlist_randomize :: "(lcb_host_t list \<Rightarrow> lcb_host_t list) \<Rightarrow> Hostlist \<Rightarrow> Hostlist" where
  "Hostlist_randomize shuffle hl = reset_strlist (hl\<lparr>hl_hosts := shuffle (hl_hosts hl)\<rparr>)"

definition host_string :: "lcb_host_t \<Rightarrow> string" where
  "host_string host =
     (if hs_ipv6 host then ''['' @ hs_host host @ '']'' else hs_host host) @ '':'' @ hs_port host"

definition ensure_strlist :: "Hostlist \<Rightarrow> Hostlist" where
  "ensure_strlist hl =
     (if hl_hoststrs hl \<noteq> [] then hl
      else hl\<lparr>hl_hoststrs := map (Some \<circ> host_string) (hl_hosts hl) @ [None]\<rparr>)"

definition get_strlist :: "Hostlist \<Rightarrow> Hostlist \<times> string option list" where
  "get_strlist hl = (let hl = ensure_strlist hl in (hl, hl_hoststrs hl))"

definition Hostlist_assign :: "Hostlist \<Rightarrow> Hostlist \<Rightarrow> Hostlist" where
  "Hostlist_assign hl src = foldl Hostlist_add (reset_strlist (Hostlist_clear hl)) (hl_hosts src)"

section \<open>Facts on the parser\<close>

lemma c_strstr_found: "c \<notin> set b \<Longrightarrow> c_strstr (b @ c # m) [c] = Some (b, c # m)"
  by (induction b) auto

lemma c_strstr_none: "c_strstr s [c] = None \<longleftrightarrow> c \<notin> set s"
  by (induction s) auto

lemma c_strstr_subset: "c_strstr s pat = Some (b, m) \<Longrightarrow> set pat \<subseteq> set s"
proof (induction s arbitrary: b m)
  case (Cons c s)
  show ?case
  proof (cases "take (length pat) (c # s) = pat")
    case True
    then show ?thesis using set_take_subset [of "length pat" "c # s"] by simp
  next
    case False
    then show ?thesis using Cons by auto
  qed
qed (simp split: if_splits)

lemma is_dec_not_blank: "is_dec c \<Longrightarrow> \<not> is_blank c \<and> c \<noteq> CHR ''-'' \<and> c \<noteq> CHR ''+''"
  by (auto simp: is_dec_def is_blank_def Let_def)

lemma c_strtol_digits: "c_strtol (dec_digits n) = (min LONG_MAX (int n), [])"
proof -
  have "dec_digits n \<noteq> []" by (subst dec_digits.simps) simp
  then obtain c t where ct: "dec_digits n = c # t" by (cases "dec_digits n") auto
  then have c: "is_dec c" using dec_digits_dec [of n] by auto
  have t: "takeWhile is_dec t = t" "dropWhile is_dec t = []"
    using dec_digits_dec [of n] by (simp_all add: ct takeWhile_eq_all_conv)
  have "dec_value (c # t) = n" using dec_value_digits [of n] ct by simp
  then show ?thesis
    using is_dec_not_blank [OF c] c
    by (simp add: ct c_strtol_def Let_def LONG_MIN_def LONG_MAX_def max_def t)
qed

definition port_char :: "char \<Rightarrow> bool" where
  "port_char c \<longleftrightarrow> is_blank c \<or> c = CHR ''-'' \<or> c = CHR ''+'' \<or> is_dec c"

lemma port_ok_chars:
  assumes "port_ok p"
  shows "list_all port_char p"
proof -
  define t where "t = dropWhile is_blank p"
  define u where "u = (if t \<noteq> [] \<and> (hd t = CHR ''-'' \<or> hd t = CHR ''+'') then tl t else t)"
  have "p \<noteq> []" "dropWhile is_dec u = []"
    using assms by (auto simp: port_ok_def c_strtol_def Let_def t_def [symmetric] u_def [symmetric] split: if_splits)
  then have "\<forall>c \<in> set u. is_dec c" by simp
  then have "\<forall>c \<in> set t. port_char c"
    by (cases t) (auto simp: u_def port_char_def split: if_splits)
  moreover have "p = takeWhile is_blank p @ t" by (simp add: t_def)
  ultimately show ?thesis unfolding list_all_iff port_char_def by (metis Un_iff set_append set_takeWhileD)
qed

lemma port_char_not:
  "port_char c \<Longrightarrow> c \<noteq> CHR '':'' \<and> c \<noteq> CHR ''/'' \<and> c \<noteq> c_nul"
  by (auto simp: port_char_def is_blank_def is_dec_def Let_def c_nul_def)

lemma host_char_not:
  "host_char ipv6 c \<Longrightarrow> c \<noteq> CHR ''/'' \<and> c \<noteq> c_nul \<and> (\<not> ipv6 \<longrightarrow> c \<noteq> CHR '':'' \<and> c \<noteq> CHR ''['')"
  by (auto simp: host_char_def c_isalnum_def Let_def c_nul_def split: if_splits)

lemma host_char_ascii: "host_char ipv6 c \<Longrightarrow> of_char c < (128 :: nat)"
  by (auto simp: host_char_def c_isalnum_def Let_def split: if_splits)

lemma host_chars_runs:
  "host_chars ipv6 cs = Inr (list_all (host_char ipv6) cs) \<or>
   host_chars ipv6 cs = Inl OutOfBounds \<and> (\<exists>c \<in> set cs. 128 \<le> (of_char c :: nat))"
  by (induction cs) (auto simp: c_isalnum_def Let_def)

lemma host_chars_legal: "list_all (host_char ipv6) cs \<Longrightarrow> host_chars ipv6 cs = Inr True"
  using host_chars_runs [of ipv6 cs] host_char_ascii [of ipv6] by (fastforce simp: list_all_iff)

definition host_wf :: "lcb_host_t \<Rightarrow> bool" where
  "host_wf h \<longleftrightarrow> hs_host h \<noteq> [] \<and> length (hs_host h) \<le> NI_MAXHOST \<and> list_all (host_char (hs_ipv6 h)) (hs_host h) \<and>
     port_ok (hs_port h) \<and> length (hs_port h) \<le> NI_MAXSERV"

text \<open>The printed form of an IPv6 host can be read back when its address has a colon and no bracket closes early.\<close>

definition reads_back :: "lcb_host_t \<Rightarrow> bool" where
  "reads_back h \<longleftrightarrow> (hs_ipv6 h \<longrightarrow> CHR '':'' \<in> set (hs_host h) \<and> CHR '']'' \<notin> set (hs_host h))"

lemma host_finish_wf:
  assumes "host_finish deflport host_s port ipv6 = Inr (Some h)" and "1 \<le> deflport" and "deflport < 2 ^ 31"
  shows "host_wf h"
proof -
  define n where "n = nat deflport"
  have n: "n < 10 ^ Suc 9" "0 < n" using assms(2,3) by (simp_all add: n_def)
  then have "length (dec_digits n) \<le> 10" using length_dec_digits [of n 9] by simp
  moreover have "port_ok (dec_digits n)"
    using n c_strtol_digits [of n] by (subst (asm) dec_digits.simps) (auto simp: port_ok_def LONG_MAX_def LONG_MIN_def dec_digits.simps [of n])
  ultimately show ?thesis
    using assms(1) host_chars_runs [of ipv6 host_s]
    by (auto simp: host_finish_def host_wf_def NI_MAXSERV_def n_def Let_def split: if_splits option.splits)
qed

lemma host_split_wf:
  "host_split deflport s = Inr (Some h) \<Longrightarrow> 1 \<le> deflport \<Longrightarrow> deflport < 2 ^ 31 \<Longrightarrow> host_wf h"
  by (auto simp: host_split_def Let_def split: if_splits option.splits intro: host_finish_wf [simplified])

lemma host_finish_ok:
  assumes "host_wf h"
  shows "host_finish deflport (hs_host h) (Some (hs_port h)) (hs_ipv6 h) = Inr (Some h)"
  using assms host_chars_legal [of "hs_ipv6 h" "hs_host h"] by (auto simp: host_finish_def host_wf_def Let_def port_ok_def)

lemma c_strstr_sets: "c_strstr s pat = Some (b, m) \<Longrightarrow> set b \<subseteq> set s \<and> set m \<subseteq> set s"
proof (induction s arbitrary: b)
  case (Cons c s)
  then show ?case by (fastforce split: if_splits option.splits)
qed (simp split: if_splits)

lemma host_finish_runs:
  "(\<exists>r. host_finish deflport host_s port ipv6 = Inr r) \<or>
   host_finish deflport host_s port ipv6 = Inl OutOfBounds \<and> (\<exists>c \<in> set host_s. 128 \<le> (of_char c :: nat))"
  using host_chars_runs [of ipv6 host_s] by (auto simp: host_finish_def Let_def)

lemma host_split_string:
  assumes wf: "host_wf h" and rb: "reads_back h"
  shows "host_split deflport (host_string h) = Inr (Some h)"
proof -
  have p: "\<forall>c \<in> set (hs_port h). c \<noteq> CHR '':'' \<and> c \<noteq> CHR ''/''"
    using wf port_ok_chars [of "hs_port h"] port_char_not by (auto simp: host_wf_def list_all_iff)
  have c: "\<forall>c \<in> set (hs_host h). c \<noteq> CHR ''/'' \<and> (\<not> hs_ipv6 h \<longrightarrow> c \<noteq> CHR '':'')"
    using wf host_char_not by (auto simp: host_wf_def list_all_iff)
  have ns: "CHR ''/'' \<notin> set (host_string h)" using p c by (auto simp: host_string_def)
  have "c_strstr (host_string h) ''://'' = None"
  proof (cases "c_strstr (host_string h) ''://''")
    case (Some bm)
    then show ?thesis using c_strstr_subset [of "host_string h" "''://''" "fst bm" "snd bm"] ns by simp
  qed simp
  then have slash: "c_strstr (host_string h) ''/'' = None" "c_strstr (host_string h) ''://'' = None"
    using ns by (simp_all add: c_strstr_none)
  show ?thesis
  proof (cases "hs_ipv6 h")
    case False
    have "c_strstr (host_string h) '':'' = Some (hs_host h, CHR '':'' # hs_port h)"
      using False c c_strstr_found [of "CHR '':''" "hs_host h" "hs_port h"] by (auto simp: host_string_def)
    moreover have "c_strstr (hs_port h) '':'' = None" using p by (auto simp: c_strstr_none)
    ultimately show ?thesis
      using slash host_finish_ok [OF wf, of deflport] False by (simp add: host_split_def Let_def)
  next
    case True
    define rest where "rest = hs_host h @ CHR '']'' # CHR '':'' # hs_port h"
    have str: "host_string h = CHR ''['' # rest" using True by (simp add: host_string_def rest_def)
    obtain b m where hm: "c_strstr (hs_host h) '':'' = Some (b, m)"
      using True rb by (cases "c_strstr (hs_host h) '':''") (auto simp: reads_back_def c_strstr_none)
    then have bm: "hs_host h = b @ m" "m = CHR '':'' # tl m" "CHR '':'' \<notin> set b"
      using c_strstr_char [OF hm] by (auto intro: list.expand)
    define m' where "m' = tl m @ CHR '']'' # CHR '':'' # hs_port h"
    have "rest = b @ CHR '':'' # m'" unfolding rest_def bm(1) m'_def by (subst bm(2)) simp
    then have "c_strstr (host_string h) '':'' = Some (CHR ''['' # b, CHR '':'' # m')"
      using c_strstr_found [of "CHR '':''" "CHR ''['' # b" m'] bm(3) by (simp add: str)
    moreover have "c_strstr m' '':'' \<noteq> None" by (simp add: c_strstr_none m'_def)
    moreover have "c_strstr rest '']'' = Some (hs_host h, CHR '']'' # CHR '':'' # hs_port h)"
      unfolding rest_def using True rb by (intro c_strstr_found) (simp add: reads_back_def)
    ultimately show ?thesis
      using slash host_finish_ok [OF wf, of deflport] True wf
      by (auto simp: host_split_def Let_def str rest_def host_wf_def port_ok_def)
  qed
qed

lemma host_split_runs:
  assumes "\<forall>c \<in> set s. of_char c < (128 :: nat)"
  shows "\<exists>r. host_split deflport s = Inr r"
proof -
  define h where "h = (case c_strstr s ''://'' of Some (_, delim) \<Rightarrow> drop 3 delim | None \<Rightarrow> s)"
  define host_s where "host_s = (case c_strstr h ''/'' of Some (before, _) \<Rightarrow> before | None \<Rightarrow> h)"
  have "set h \<subseteq> set s"
    using c_strstr_sets [of s "''://''"] by (auto simp: h_def split: option.split dest!: in_set_dropD)
  then have sub: "set host_s \<subseteq> set s"
    using c_strstr_sets [of h "''/''"] by (cases "c_strstr h ''/''") (auto simp: host_s_def)
  have fin: "\<exists>r. host_finish deflport t port ipv6 = Inr r" if "set t \<subseteq> set host_s" for t port ipv6
    using host_finish_runs [of deflport t port ipv6] that sub assms by (meson leD subsetD)
  have "set (tl host_s) \<subseteq> set host_s" by (cases host_s) auto
  then have cut: "c_strstr host_s pat = Some (b, m) \<Longrightarrow> set b \<subseteq> set host_s"
    "c_strstr (tl host_s) pat = Some (b, m) \<Longrightarrow> set b \<subseteq> set host_s" for pat b m
    using c_strstr_sets [of host_s pat b m] c_strstr_sets [of "tl host_s" pat b m] by auto
  show ?thesis
    unfolding host_split_def Let_def h_def [symmetric] host_s_def [symmetric]
    by (auto split: option.split intro!: fin dest!: cut)
qed

section \<open>Facts on the list\<close>

text \<open>The non-empty pieces that end in a semicolon, and the addition of their hosts one after the other.\<close>

fun tokens :: "string \<Rightarrow> string \<Rightarrow> string list" where
  "tokens acc [] = []"
| "tokens acc (c # s) =
     (if c = CHR '';'' then (if acc = [] then tokens [] s else rev acc # tokens [] s) else tokens (c # acc) s)"

fun add_all :: "Hostlist \<Rightarrow> int \<Rightarrow> string list \<Rightarrow> (Hostlist \<times> bool) res" where
  "add_all hl deflport [] = Inr (hl, True)"
| "add_all hl deflport (p # ps) =
     res_bind (host_split deflport p) (\<lambda>r.
       case r of None \<Rightarrow> Inr (hl, False) | Some h \<Rightarrow> add_all (Hostlist_add hl h) deflport ps)"

definition hostlist_wf :: "Hostlist \<Rightarrow> bool" where
  "hostlist_wf hl \<longleftrightarrow> distinct (map (\<lambda>h. (hs_host h, hs_port h)) (hl_hosts hl)) \<and> (\<forall>h \<in> set (hl_hosts hl). host_wf h)"

lemma tokens_none: "CHR '';'' \<notin> set s \<Longrightarrow> tokens acc s = []"
  by (induction s arbitrary: acc) auto

lemma tokens_piece:
  "CHR '';'' \<notin> set b \<Longrightarrow>
   tokens acc (b @ CHR '';'' # r) = (if acc = [] \<and> b = [] then tokens [] r else (rev acc @ b) # tokens [] r)"
  by (induction b arbitrary: acc) auto

lemma tokens_semicolon: "tokens acc (s @ [CHR '';'', CHR '';'']) = tokens acc (s @ [CHR '';''])"
  by (induction s arbitrary: acc) auto

lemma takeWhile_nul: "c_nul \<notin> set b \<Longrightarrow> takeWhile (\<lambda>c. c \<noteq> c_nul) b = b"
  by (induction b) auto

lemma takeWhile_nul_end: "c_nul \<notin> set b \<Longrightarrow> takeWhile (\<lambda>c. c \<noteq> c_nul) (b @ [c_nul]) = b"
  by (induction b) auto

lemma parse_piece:
  assumes "b \<noteq> []" and "c_nul \<notin> set b" and "1 \<le> deflport"
  shows "lcb_host_parse (b @ r) (int (length b)) deflport = host_split deflport b"
proof -
  have "takeWhile (\<lambda>c. c \<noteq> c_nul) b = b" by (rule takeWhile_nul [OF assms(2)])
  then show ?thesis using assms(1,3) unfolding lcb_host_parse_def by (simp del: takeWhile_eq_all_conv)
qed

lemma add_loop_tokens:
  assumes "c_nul \<notin> set s" and "1 \<le> deflport" and "length s < 2 ^ 31"
  shows "add_loop hl deflport s = add_all hl deflport (tokens [] s)"
  using assms(1,3)
proof (induction "length s" arbitrary: s hl rule: less_induct)
  case less
  show ?case
  proof (cases "c_strstr s '';''")
    case None
    then have "tokens [] s = []" by (simp add: tokens_none c_strstr_none)
    then show ?thesis unfolding add_loop.simps [of _ _ s] None by simp
  next
    case (Some bm)
    obtain b m where bm: "bm = (b, m)" by (cases bm)
    define r where "r = tl m"
    have "s = b @ m \<and> m \<noteq> [] \<and> hd m = CHR '';'' \<and> CHR '';'' \<notin> set b"
      using c_strstr_char [of s "CHR '';''" b m] Some bm by simp
    then have b: "c_strstr s '';'' = Some (b, CHR '';'' # r)" "s = b @ CHR '';'' # r" "CHR '';'' \<notin> set b"
      using Some bm by (cases m; simp add: r_def)+
    have ih: "add_loop hl' deflport r = add_all hl' deflport (tokens [] r)" for hl'
      using less b(2) by simp
    have "to_int (length b) = int (length b)" using less.prems(2) b(2) by (simp add: to_int_small)
    moreover have "b \<noteq> [] \<Longrightarrow> lcb_host_parse s (int (length b)) deflport = host_split deflport b"
      using parse_piece [of b deflport "CHR '';'' # r"] less.prems(1) b(2) assms(2) by simp
    moreover have "b = [] \<Longrightarrow> tl s = r" using b(2) by simp
    ultimately show ?thesis
      unfolding add_loop.simps [of _ _ s] b(1) using ih tokens_piece [OF b(3), of "[]" r] b(2)
      by (auto intro!: arg_cong [of _ _ "res_bind _"] split: option.split)
  qed
qed

lemma exists_iff: "Hostlist_exists hl h \<longleftrightarrow> (hs_host h, hs_port h) \<in> set (map (\<lambda>h. (hs_host h, hs_port h)) (hl_hosts hl))"
  by (auto simp: Hostlist_exists_def list_ex_iff lcb_host_equals_def)

lemma Hostlist_add_facts:
  assumes "hostlist_wf hl" and "host_wf h"
  shows "hostlist_wf (Hostlist_add hl h)" and "Hostlist_exists (Hostlist_add hl h) h"
    and "\<exists>new. hl_hosts (Hostlist_add hl h) = hl_hosts hl @ new"
  using assms by (auto simp: Hostlist_add_def hostlist_wf_def exists_iff reset_strlist_def)

lemma exists_append: "hl_hosts hl' = hl_hosts hl @ new \<Longrightarrow> Hostlist_exists hl h \<Longrightarrow> Hostlist_exists hl' h"
  by (simp add: Hostlist_exists_def)

lemma add_all_facts:
  assumes "hostlist_wf hl" and "1 \<le> deflport" and "deflport < 2 ^ 31" and "add_all hl deflport ps = Inr (hl', ok)"
  shows "hostlist_wf hl' \<and> (\<exists>new. hl_hosts hl' = hl_hosts hl @ new) \<and>
    (ok \<longleftrightarrow> (\<forall>p \<in> set ps. \<exists>h. host_split deflport p = Inr (Some h))) \<and>
    (ok \<longrightarrow> (\<forall>p \<in> set ps. \<exists>h. host_split deflport p = Inr (Some h) \<and> Hostlist_exists hl' h))"
  using assms(1,4)
proof (induction ps arbitrary: hl)
  case Nil
  then show ?case by simp
next
  case (Cons p ps)
  obtain r where r: "host_split deflport p = Inr r" using Cons.prems(2) by (cases "host_split deflport p") auto
  show ?case
  proof (cases r)
    case None
    then show ?thesis using Cons.prems r by auto
  next
    case (Some h)
    then have Some: "host_split deflport p = Inr (Some h)" using r by simp
    have wf: "host_wf h" by (rule host_split_wf [OF Some assms(2,3)])
    note add = Hostlist_add_facts [OF Cons.prems(1) wf]
    obtain n1 where n1: "hl_hosts (Hostlist_add hl h) = hl_hosts hl @ n1" using add(3) by blast
    have "add_all (Hostlist_add hl h) deflport ps = Inr (hl', ok)" using Cons.prems(2) Some by simp
    note ih = Cons.IH [OF add(1) this]
    then obtain n2 where n2: "hl_hosts hl' = hl_hosts (Hostlist_add hl h) @ n2" by blast
    have "Hostlist_exists hl' h" by (rule exists_append [OF n2 add(2)])
    then show ?thesis using ih Some n1 n2 by auto
  qed
qed

lemma add_all_runs:
  "\<forall>p \<in> set ps. \<forall>c \<in> set p. of_char c < (128 :: nat) \<Longrightarrow> \<exists>r. add_all hl deflport ps = Inr r"
proof (induction ps arbitrary: hl)
  case (Cons p ps)
  then obtain r where "host_split deflport p = Inr r" using host_split_runs [of p deflport] by auto
  then show ?case using Cons by (auto split: option.split)
qed auto

lemma tokens_sub: "p \<in> set (tokens acc s) \<Longrightarrow> set p \<subseteq> set acc \<union> set s"
proof (induction s arbitrary: acc)
  case (Cons c s)
  then show ?case by (auto split: if_splits dest!: Cons.IH)
qed simp

lemma host_string_nul:
  assumes "host_wf h"
  shows "c_nul \<notin> set (host_string h)"
proof -
  have "\<forall>c \<in> set (hs_port h). c \<noteq> c_nul"
    using assms port_ok_chars [of "hs_port h"] port_char_not by (simp add: host_wf_def list_all_iff)
  moreover have "\<forall>c \<in> set (hs_host h). c \<noteq> c_nul"
    using assms host_char_not by (auto simp: host_wf_def list_all_iff)
  moreover have "c_nul \<notin> set ''[]:''" by (simp add: c_nul_def)
  ultimately show ?thesis unfolding host_string_def by auto
qed

text \<open>
  \<^bold>\<open>C40\<close>. Adding a text of hosts separated by semicolons, shorter than \<open>2 ^ 31\<close>, always returns when it is
  ASCII, and leaves a well-formed list: every host has a
  name of legal characters that fits its buffer, a port that is a number and fits its buffer, and no pair
  of host and port occurs twice. Hosts are only added at the end. The status is success exactly when
  every non-empty piece parses, and then each of them is in the list. The string that is built
  for a host parses back to that host, for IPv6 when the address has a colon and no closing bracket. The same
  holds of a text with other characters, unless one of them reaches \<open>isalnum\<close>, which is undefined there.
\<close>

theorem Hostlist_add_str_spec:
  assumes "hostlist_wf hl" and "c_nul \<notin> set s" and "1 \<le> deflport" and "deflport < 2 ^ 31" and "length s + 1 < 2 ^ 31"
  shows "(\<exists>hl' ok. Hostlist_add_str hl (s @ [c_nul]) (- 1) deflport = Inr (hl', ok) \<and>
      hostlist_wf hl' \<and> (\<exists>new. hl_hosts hl' = hl_hosts hl @ new) \<and>
      (ok \<longleftrightarrow> (\<forall>p \<in> set (tokens [] (s @ '';'')). \<exists>h. host_split deflport p = Inr (Some h))) \<and>
      (ok \<longrightarrow> (\<forall>p \<in> set (tokens [] (s @ '';'')). \<exists>h. host_split deflport p = Inr (Some h) \<and> Hostlist_exists hl' h)) \<and>
      (\<forall>h \<in> set (hl_hosts hl'). reads_back h \<longrightarrow> lcb_host_parse (host_string h @ [c_nul]) (- 1) deflport = Inr (Some h))) \<or>
    (\<exists>c \<in> set s. 128 \<le> (of_char c :: nat)) \<and> (\<exists>f. Hostlist_add_str hl (s @ [c_nul]) (- 1) deflport = Inl f)"
proof -
  define ts where "ts = tokens [] (s @ '';'')"
  have semi: "c_nul \<noteq> CHR '';''" by (simp add: c_nul_def)
  have z: "takeWhile (\<lambda>c. c \<noteq> c_nul) (s @ [c_nul]) = s" by (rule takeWhile_nul_end [OF assms(2)])
  have loop: "Hostlist_add_str hl (s @ [c_nul]) (- 1) deflport = add_all hl deflport ts"
  proof (cases "s = []")
    case True
    then show ?thesis using z by (simp add: Hostlist_add_str_def ts_def)
  next
    case False
    define ss where "ss = (if last s \<noteq> CHR '';'' then s @ '';'' else s)"
    have ss: "c_nul \<notin> set ss" "length ss < 2 ^ 31" "tokens [] ss = ts"
    proof -
      show "c_nul \<notin> set ss" "length ss < 2 ^ 31" using assms(2,5) semi by (simp_all add: ss_def)
      have "last s = CHR '';'' \<Longrightarrow> tokens [] (s @ [CHR '';'']) = tokens [] s"
        using tokens_semicolon [of "[]" "butlast s"] append_butlast_last_id [OF False]
        by (metis append_Cons append_Nil append_assoc)
      then show "tokens [] ss = ts" by (simp add: ss_def ts_def)
    qed
    have "Hostlist_add_str hl (s @ [c_nul]) (- 1) deflport = add_loop hl deflport ss"
      using False z takeWhile_nul [OF ss(1)] by (simp add: Hostlist_add_str_def ss_def Let_def del: takeWhile_eq_all_conv)
    then show ?thesis using add_loop_tokens [OF ss(1) assms(3) ss(2), of hl] ss(3) by simp
  qed
  show ?thesis
  proof (cases "add_all hl deflport ts")
    case (Inl f)
    have "\<exists>c \<in> set s. 128 \<le> (of_char c :: nat)"
    proof (rule ccontr)
      assume "\<not> (\<exists>c \<in> set s. 128 \<le> (of_char c :: nat))"
      then have "\<forall>p \<in> set ts. \<forall>c \<in> set p. of_char c < (128 :: nat)"
        using tokens_sub [of _ "[]" "s @ '';''"] unfolding ts_def by fastforce
      then show False using add_all_runs [of ts hl deflport] Inl by simp
    qed
    then show ?thesis using loop Inl by simp
  next
    case (Inr r)
    then obtain hl' ok where r: "add_all hl deflport ts = Inr (hl', ok)" by (cases r) simp
    note facts = add_all_facts [OF assms(1,3,4) r]
    have "lcb_host_parse (host_string h @ [c_nul]) (- 1) deflport = Inr (Some h)"
      if h: "h \<in> set (hl_hosts hl')" "reads_back h" for h
    proof -
      have wf: "host_wf h" using facts h(1) by (simp add: hostlist_wf_def)
      show ?thesis
        using host_split_string [OF wf h(2)] takeWhile_nul_end [OF host_string_nul [OF wf]] assms(3)
        by (simp add: lcb_host_parse_def)
    qed
    moreover have "Hostlist_add_str hl (s @ [c_nul]) (- 1) deflport = Inr (hl', ok)" using loop r by simp
    ultimately show ?thesis using facts unfolding ts_def by blast
  qed
qed

theorem Hostlist_add_str_spec_witness:
  "\<exists>hl' ok. Hostlist_add_str Hostlist_create (''a:1;b;;[::1]:2'' @ [c_nul]) (- 1) 8091 = Inr (hl', ok) \<and>
    hostlist_wf hl' \<and> (\<exists>new. hl_hosts hl' = hl_hosts Hostlist_create @ new) \<and>
    (ok \<longleftrightarrow> (\<forall>p \<in> set (tokens [] (''a:1;b;;[::1]:2'' @ '';'')). \<exists>h. host_split 8091 p = Inr (Some h))) \<and>
    (ok \<longrightarrow> (\<forall>p \<in> set (tokens [] (''a:1;b;;[::1]:2'' @ '';'')). \<exists>h. host_split 8091 p = Inr (Some h) \<and> Hostlist_exists hl' h)) \<and>
    (\<forall>h \<in> set (hl_hosts hl'). reads_back h \<longrightarrow> lcb_host_parse (host_string h @ [c_nul]) (- 1) 8091 = Inr (Some h))"
proof -
  have ascii: "\<not> (\<exists>c \<in> set ''a:1;b;;[::1]:2''. 128 \<le> (of_char c :: nat))" by simp
  have "hostlist_wf Hostlist_create" "c_nul \<notin> set ''a:1;b;;[::1]:2''"
    by (simp_all add: hostlist_wf_def Hostlist_create_def c_nul_def)
  then show ?thesis
    using Hostlist_add_str_spec [of Hostlist_create "''a:1;b;;[::1]:2''" 8091] ascii by simp
qed

end
