(* ===== verification/Spec2Isabelle.thy ===== *)
theory Spec2Isabelle
  imports Ringbuffer Base64 Urlcodec Lcb_List Sllist Vb_Load Mcreq Hostlist
begin

text \<open>
  A verification library for libcouchbase, the C and C++ client of the Couchbase cluster. It models the
  data structures, codecs, cluster map and request packets of the client as HOL functions, one theory for each
  part of the program, and proves what each part promises to the parts above it. All paths below are relative to
  the source tree.

  \<^bold>\<open>The program\<close>

  An application schedules key-value operations. The client hashes the key, finds the node that owns it in the
  \<^emph>\<open>cluster map\<close> (\<open>src/vbucket\<close>), writes a \<^emph>\<open>request packet\<close> (\<open>src/mc\<close>) into memory of the \<^emph>\<open>block
  allocator\<close>, and queues it on the \<^emph>\<open>send queue\<close> (both \<open>src/netbuf\<close>), from where the I/O layer
  (\<open>src/lcbio\<close>) flushes it. The addresses of the first nodes come from a \<^emph>\<open>host list\<close>
  (\<open>src/hostlist.cc\<close>), later ones from the map that a node sends as JSON. Lists (\<open>src/list.c\<close>,
  \<open>src/sllist-inl.h\<close>), a ring buffer (\<open>src/ringbuffer.c\<close>) and string codecs (\<open>src/strcodecs\<close>)
  serve all of them.

  \<^bold>\<open>Conventions\<close>

  \<^item> \<open>Prelude\<close>. A function that can abort, touch memory outside an object or run into undefined behaviour has a
    result of type \<open>'a res\<close>: \<open>Inl\<close> is one of the faults, \<open>Inr\<close> the ordinary result, error codes included. A
    theorem that says \<open>f x = Inr y\<close> therefore also says that no such fault happens. An allocated object
    is the list of its bytes, with checked reads and writes; unsigned fields are natural numbers with
    \<open>uadd\<close>, \<open>usub\<close>, \<open>umul\<close> wrapping at the width of the C type, or words where bits matter.
  \<^item> \<open>C_String\<close>. The string functions of the C library on HOL strings.
  \<^item> Functions of the C library that may fail or choose (\<open>malloc\<close>, \<open>calloc\<close>, \<open>strdup\<close>, \<open>rand\<close>, the
    shuffle) are arguments; what is assumed of them is a named predicate (\<open>malloc_ok\<close>, \<open>mb_env_ok\<close>,
    \<open>calloc_fresh\<close>, \<open>iov_malloc_ok\<close>, \<open>strdup_ok\<close>). Where only the success of an allocation matters, the argument is
    \<open>alloc\<close>, which says of each size whether it succeeds. The result of most allocations is used unchecked; then a
    failure is the fault \<open>NullPointer\<close>, and the theorem about the function has that outcome. Three theorems speak of
    successful allocations only and say so: C24, C28 and C29. The host is a little-endian 64-bit machine.

  \<^bold>\<open>Theories, code and theorems\<close>

  \<^item> \<open>Byte_Queue\<close>, \<open>Ringbuffer\<close>: \<open>src/ringbuffer.c\<close>. The record \<open>ringbuffer_t\<close> has the fields of the struct. The
    locale \<open>byte_queue\<close> is the contract of a byte queue; the ring buffer is its interpretation, which gives
    C1: any sequence of writes and reads behaves as a FIFO. C2 to C5: growing, appending, updating in
    place, and copying between buffers.
  \<^item> \<open>Base64\<close>: \<open>src/strcodecs/base64.cc\<close>. C6 round trip against a reference encoding, C7 and C8 the exact outcomes
    of the fixed-buffer and the vector encoder.
  \<^item> \<open>Urlcodec\<close>: the percent codec of \<open>src/strcodecs/strcodecs.h\<close>. C9 round trip, also in place; C10
    idempotence; C11 the read behind a truncated UTF-8 sequence.
  \<^item> \<open>Node_Seq\<close>, \<open>Lcb_List\<close>, \<open>Sllist\<close>: the two intrusive lists over heaps of pointers. The locales \<open>node_queue\<close> and
    \<open>node_seq\<close> are the contract of a sequence of nodes and its extension by prepending; both lists are
    interpretations. C12 and C15: any legal sequence of operations refines a list. C13, C16 sorted insertion,
    C14 the counted list, C17 the node that \<open>sllist_prepend\<close> does not reset.
  \<^item> \<open>Md5\<close>, \<open>Crc32\<close>: the hashes of \<open>src/vbucket\<close>. C18 MD5 fed in pieces equals the digest of RFC 1321, C19 the
    table-driven CRC equals the bitwise one.
  \<^item> \<open>Cjson\<close>: the tree of \<open>contrib/cJSON\<close> and the typed getters of \<open>src/vbucket/json-inl.h\<close>.
  \<^item> \<open>Vb_Config\<close>, \<open>Vb_Map\<close>, \<open>Vb_Gen\<close>, \<open>Vb_Load\<close>: \<open>src/vbucket/vbucket.c\<close>, in the order accessors, key mapping, generation and
    comparison, JSON. C20 and C21 addresses and random choice of nodes; C22 the ketama continuum maps a key
    to the next point on the circle; C23 remapping after a wrong-node answer; C24 and C25 generated maps are balanced
    rings; C26 comparison is exact; C27 a loaded map never points outside the node table, whatever the document;
    C28 save and load are inverse; C29 host placeholders.
  \<^item> \<open>Netbuf_Pool\<close>: the block allocator of \<open>src/netbuf/netbuf.c\<close>. Runs are the inductive predicate \<open>mb_reach\<close>; C30 spans
    in use never overlap; C31 an order of releases after which a block is never given back. A block that is released
    out of order records the release in a queue that is itself a span of a second, nested pool. The model has the
    contents of that queue as a list and takes the outcome of each call into the nested pool from the environment
    (\<open>env_queue\<close>); C30 and C39 therefore say that a release returns or fails as such a call fails.
  \<^item> \<open>Netbuf_Sendq\<close>: the send queue of the same file. Runs are the inductive predicate \<open>nb_run\<close>; C32 bytes are
    handed out once and in order, C33 the list of PDUs loses exactly the completely written ones.
  \<^item> \<open>Iov_Cursor\<close>: \<open>src/mc/iovcursor-inl.h\<close> over a flat memory. The abstraction of a cursor is the list of unread
    addresses. C34 peeking, C35 copying and C36 extracting vectors deliver a prefix of it, and the latter two drop it.
  \<^item> \<open>Leb128\<close>: the encoding of collection identifiers in \<open>src/mc/mcreq.c\<close>. C37 bounds, minimality and round trip
    below \<open>2 ^ 31\<close>; from there on the decoder shifts into the sign bit of an \<open>int\<close>, which is undefined.
  \<^item> \<open>Mcreq\<close>: packets of \<open>src/mc/mcreq.c\<close>, built in a span of the block allocator for the node that the cluster map
    gives. It puts \<open>Vb_Map\<close>, \<open>Netbuf_Pool\<close>, \<open>Iov_Cursor\<close> and \<open>Leb128\<close> together. C38 a packet reads back as the request that
    was asked for; C39 replacing the collection identifier changes nothing else in the packet, its header or memory.
  \<^item> \<open>Hostlist\<close>: \<open>src/hostlist.cc\<close>. C40 the list stays well formed and free of duplicates for any text, and its
    strings parse back. A character with the top bit set must not reach \<open>isalnum\<close>, which is undefined on it.

  \<^bold>\<open>Loops and fuel\<close>

  Loops are structural recursions over the list they walk, or functions with a termination proof (the value shrinks
  in \<open>leb_enc_loop\<close>, the rest of the text in \<open>add_loop\<close>, the distance to the end in \<open>leb_dec_loop\<close>). The doubling loops
  \<open>rb_grow\<close> and \<open>mb_grow\<close> wrap to zero and then never end; they are partial functions in the option type, and C2
  and \<open>mb_grow_correct\<close> prove that they return for sizes up to half the range. The walks over pointer lists
  (\<open>list_walk\<close>, \<open>sl_find\<close>, \<open>sl_count\<close>, \<open>sl_remove_loop\<close>, \<open>sl_sorted_loop\<close>) are partial functions too, since a corrupted
  list may be a cycle; C12 to C17 prove that they return on a well-formed one. \<open>rb_append_loop\<close> has as fuel
  the number of bytes of the source plus one; every round moves at least one byte, and C3 proves that the fuel is never
  used up.

  \<^bold>\<open>Not modelled\<close>

  \<^item> Everything that waits for the network or calls back into the event loop: \<open>src/lcbio\<close>, \<open>src/mcserver\<close>,
    \<open>src/bucketconfig\<close>, \<open>src/http\<close>, \<open>src/ssl\<close>, \<open>plugins/io\<close>, and the life cycle of the instance. Their behaviour is
    mostly that of callbacks and system calls that are not in the source tree.
  \<^item> The operations (\<open>src/operations\<close>) and the command objects (\<open>src/capi\<close>), which fill packets field by field, and the
    scheduling and time-out queues of \<open>src/mc/mcreq.c\<close>.
  \<^item> Parts that are glue to third-party parsers (\<open>src/jsparse\<close>, \<open>src/lcbht\<close>, the error map, the query, analytics, search
    and view requests) and those parsers (\<open>contrib\<close>): the loader of the cluster map takes the parsed
    tree as its argument.
  \<^item> \<open>src/rdb\<close>, \<open>src/retryq.cc\<close>, \<open>src/retrychk.cc\<close>, \<open>src/connspec.cc\<close> and \<open>src/handler.cc\<close>, which could be modelled and
    are not yet.
  \<^item> Functions that only free memory or print.
\<close>

end
